(* ===== verification/Server_Prelude.thy ===== *)
theory Server_Prelude
  imports Main "HOL-Library.Word" "HOL-Library.Multiset" "HOL-Library.Sublist"
begin

text \<open>
  Shared vocabulary of the development: the ways a C++ operation of the server can fail, the
  result type that carries them, the pieces of \<open>std::string\<close> the code uses (\<open>c_str\<close>, \<open>substr\<close>,
  \<open>std::to_string\<close>), splitting and joining of lists, and the lemmas on them that the component
  theories rely on. Two collections of simplification rules are grown across the theories:
  \<open>result_simps\<close> for the error monad and \<open>net_defs\<close> for the small state-updating operations of
  the network layer.
\<close>

named_theorems result_simps \<open>evaluation rules of the error monad\<close>
named_theorems net_defs \<open>definitions of the small state-updating operations\<close>

section \<open>Failures and results\<close>

text \<open>
  \<open>Terminate\<close> is \<open>std::terminate\<close> (a \<open>throw;\<close> with no active exception calls it).
  \<open>Out_Of_Bounds\<close>, \<open>Buffer_Overflow\<close>, \<open>Null_Dereference\<close> and \<open>Signed_Overflow\<close> are undefined
  behaviour: an unchecked container index, a write past a fixed array, a call through a null
  pointer, an overflow of a signed integer. \<open>Assertion_Failed\<close> is \<open>BOOST_ASSERT\<close>,
  \<open>Exception\<close> is a C++ exception that leaves the operation, and \<open>Hang\<close> stands for an operation
  that never returns where it is a step of a larger one.
\<close>

datatype cpp_error =
    Terminate
  | Out_Of_Bounds
  | Buffer_Overflow
  | Null_Dereference
  | Signed_Overflow
  | Assertion_Failed
  | Exception string
  | Hang

type_synonym 'a result = "cpp_error + 'a"

type_synonym u32 = "32 word"

definition rbind :: "'a result \<Rightarrow> ('a \<Rightarrow> 'b result) \<Rightarrow> 'b result" where
  "rbind m f = (case m of Inl e \<Rightarrow> Inl e | Inr x \<Rightarrow> f x)"

text \<open>A loop over a list whose body can fail: it stops at the first failure.\<close>

fun foldM :: "('a \<Rightarrow> 's \<Rightarrow> 's result) \<Rightarrow> 'a list \<Rightarrow> 's \<Rightarrow> 's result" where
  "foldM f [] s = Inr s"
| "foldM f (x # xs) s = rbind (f x s) (foldM f xs)"

section \<open>Strings\<close>

text \<open>\<open>std::string\<close> built from \<open>s.c_str()\<close>: it ends before the first NUL byte.\<close>

definition c_str :: "string \<Rightarrow> string" where
  "c_str s = takeWhile (\<lambda>c. c \<noteq> CHR 0x00) s"

text \<open>\<open>std::string::substr(pos, n)\<close>: throws \<open>out_of_range\<close> when \<open>pos\<close> is past the end.\<close>

definition substr :: "string \<Rightarrow> nat \<Rightarrow> nat \<Rightarrow> string result" where
  "substr s pos n = (if length s < pos then Inl (Exception ''out_of_range'')
                     else Inr (take n (drop pos s)))"

text \<open>\<open>std::to_string\<close> on integers.\<close>

definition digit_char :: "nat \<Rightarrow> char" where
  "digit_char n = char_of (48 + n)"

definition char_digit :: "char \<Rightarrow> nat" where
  "char_digit c = of_char c - 48"

definition is_digit :: "char \<Rightarrow> bool" where
  "is_digit c \<longleftrightarrow> 48 \<le> (of_char c :: nat) \<and> (of_char c :: nat) \<le> 57"

fun nat_to_string :: "nat \<Rightarrow> string" where
  "nat_to_string n = (if n < 10 then [digit_char n]
                      else nat_to_string (n div 10) @ [digit_char (n mod 10)])"

declare nat_to_string.simps [simp del]

definition int_to_string :: "int \<Rightarrow> string" where
  "int_to_string i = (if i < 0 then CHR ''-'' # nat_to_string (nat (- i))
                      else nat_to_string (nat i))"

definition string_to_nat :: "string \<Rightarrow> nat" where
  "string_to_nat s = foldl (\<lambda>acc c. 10 * acc + char_digit c) 0 s"

section \<open>Splitting and joining\<close>

text \<open>
  All pieces of a list between the elements satisfying \<open>P\<close>: \<open>n\<close> separators give \<open>n + 1\<close>
  pieces, some of them possibly empty.
\<close>

fun split_on :: "('a \<Rightarrow> bool) \<Rightarrow> 'a list \<Rightarrow> 'a list list" where
  "split_on P [] = [[]]"
| "split_on P (x # xs) =
     (if P x then [] # split_on P xs
      else (x # hd (split_on P xs)) # tl (split_on P xs))"

fun join :: "'a list \<Rightarrow> 'a list list \<Rightarrow> 'a list" where
  "join sep [] = []"
| "join sep [x] = x"
| "join sep (x # xs) = x @ sep @ join sep xs"

section \<open>Lemmas\<close>

lemma rbind_simps [simp, result_simps]:
  "rbind (Inl e) f = Inl e"
  "rbind (Inr x) f = f x"
  by (simp_all add: rbind_def)

lemma rbind_Inr_conv: "rbind m f = Inr y \<longleftrightarrow> (\<exists>x. m = Inr x \<and> f x = Inr y)"
  by (cases m) auto

lemma rbind_Inl_conv: "rbind m f = Inl e \<longleftrightarrow> m = Inl e \<or> (\<exists>x. m = Inr x \<and> f x = Inl e)"
  by (cases m) auto

lemma rbind_assoc: "rbind (rbind m f) g = rbind m (\<lambda>x. rbind (f x) g)"
  by (cases m) auto

lemma rbind_Inr_right [simp]: "rbind m Inr = m"
  by (cases m) auto

lemma foldM_Nil [simp]: "foldM f [] = Inr"
  by (rule ext) simp

lemma foldM_append: "foldM f (xs @ ys) s = rbind (foldM f xs s) (foldM f ys)"
  by (induction xs arbitrary: s) (auto simp: rbind_def split: sum.split)

lemma foldM_invariant:
  assumes "foldM f xs s = Inr t" and "I s"
    and "\<And>x s s'. x \<in> set xs \<Longrightarrow> I s \<Longrightarrow> f x s = Inr s' \<Longrightarrow> I s'"
  shows "I t"
  using assms
proof (induction xs arbitrary: s)
  case Nil
  then show ?case by simp
next
  case (Cons x xs)
  then obtain s' where "f x s = Inr s'" "foldM f xs s' = Inr t"
    by (auto simp: rbind_Inr_conv)
  with Cons show ?case by (meson list.set_intros)
qed

lemma foldM_error:
  assumes "foldM f xs s = Inl e" and "I s"
    and "\<And>x s s'. x \<in> set xs \<Longrightarrow> I s \<Longrightarrow> f x s = Inr s' \<Longrightarrow> I s'"
    and "\<And>x s. x \<in> set xs \<Longrightarrow> I s \<Longrightarrow> f x s = Inl e \<Longrightarrow> P e"
  shows "P e"
  using assms
proof (induction xs arbitrary: s)
  case (Cons x xs)
  from Cons.prems(1) consider "f x s = Inl e" | s' where "f x s = Inr s'" "foldM f xs s' = Inl e"
    by (auto simp: rbind_Inl_conv)
  then show ?case
  proof cases
    case 1
    with Cons.prems(2,4) show ?thesis by (meson list.set_intros(1))
  next
    case 2
    have "I s'" using Cons.prems(2,3) 2(1) by (meson list.set_intros(1))
    from Cons.IH [OF 2(2) this] Cons.prems(3,4) show ?thesis by (meson list.set_intros(2))
  qed
qed simp

lemma foldM_Inr:
  assumes "\<And>x s. x \<in> set xs \<Longrightarrow> f x s = Inr (g x s)"
  shows "foldM f xs s = Inr (fold g xs s)"
  using assms by (induction xs arbitrary: s) auto

lemma c_str_id [simp]: "CHR 0x00 \<notin> set s \<Longrightarrow> c_str s = s"
  by (auto simp: c_str_def takeWhile_eq_all_conv)

lemma c_str_prefix: "prefix (c_str s) s"
  by (auto simp: c_str_def prefix_def) (metis takeWhile_dropWhile_id)

lemma c_str_no_NUL: "CHR 0x00 \<notin> set (c_str s)"
  by (auto simp: c_str_def dest: set_takeWhileD)

lemma length_c_str_le: "length (c_str s) \<le> length s"
  by (simp add: c_str_def length_takeWhile_le)

lemma hd_c_str: "c_str s \<noteq> [] \<Longrightarrow> hd (c_str s) = hd s"
  by (cases s) (auto simp: c_str_def split: if_splits)

lemma char_digit_digit_char [simp]: "n < 10 \<Longrightarrow> char_digit (digit_char n) = n"
  by (simp add: char_digit_def digit_char_def)

lemma is_digit_digit_char [simp]: "n < 10 \<Longrightarrow> is_digit (digit_char n)"
  by (simp add: is_digit_def digit_char_def)

lemma nat_to_string_not_Nil [simp]: "nat_to_string n \<noteq> []"
  by (subst nat_to_string.simps) simp

lemma nat_to_string_digits: "c \<in> set (nat_to_string n) \<Longrightarrow> is_digit c"
proof (induction n rule: nat_to_string.induct)
  case (1 n)
  then show ?case
    by (subst (asm) (2) nat_to_string.simps) (auto split: if_splits)
qed

lemma string_to_nat_snoc [simp]:
  "string_to_nat (s @ [c]) = 10 * string_to_nat s + char_digit c"
  by (simp add: string_to_nat_def)

lemma string_to_nat_to_string [simp]: "string_to_nat (nat_to_string n) = n"
proof (induction n rule: nat_to_string.induct)
  case (1 n)
  show ?case
  proof (cases "n < 10")
    case True
    then show ?thesis
      by (subst nat_to_string.simps) (simp add: string_to_nat_def)
  next
    case False
    with "1.IH" have "string_to_nat (nat_to_string (n div 10)) = n div 10" by simp
    with False show ?thesis
      by (subst nat_to_string.simps) simp
  qed
qed

lemma nat_to_string_inj: "nat_to_string m = nat_to_string n \<longleftrightarrow> m = n"
  by (metis string_to_nat_to_string)

lemma split_on_not_Nil [simp]: "split_on P xs \<noteq> []"
  by (induction xs) auto

text \<open>An equation that evaluates the recursive call once.\<close>

lemma split_on_code [code]:
  "split_on P [] = [[]]"
  "split_on P (x # xs) = (case split_on P xs of
     [] \<Rightarrow> [[x]] | ys # yss \<Rightarrow> if P x then [] # ys # yss else (x # ys) # yss)"
proof -
  have "split_on P xs \<noteq> []" by simp
  then obtain ys yss where "split_on P xs = ys # yss" by (cases "split_on P xs") auto
  then show "split_on P (x # xs) = (case split_on P xs of
      [] \<Rightarrow> [[x]] | ys # yss \<Rightarrow> if P x then [] # ys # yss else (x # ys) # yss)"
    by simp
qed simp

lemma split_on_snoc:
  "split_on P (xs @ [x]) =
     (if P x then split_on P xs @ [[]]
      else butlast (split_on P xs) @ [last (split_on P xs) @ [x]])"
proof (induction xs)
  case Nil
  then show ?case by simp
next
  case (Cons a xs)
  have "split_on P xs \<noteq> []" by simp
  then obtain y ys where "split_on P xs = y # ys" by (cases "split_on P xs") auto
  with Cons show ?case by (auto split: if_splits)
qed

lemma split_on_none: "(\<And>x. x \<in> set xs \<Longrightarrow> \<not> P x) \<Longrightarrow> split_on P xs = [xs]"
  by (induction xs) auto

lemma split_on_append_sep:
  "P x \<Longrightarrow> split_on P (xs @ x # ys) = split_on P xs @ split_on P ys"
proof (induction xs)
  case Nil
  then show ?case by simp
next
  case (Cons a xs)
  have "split_on P xs \<noteq> []" by simp
  then obtain z zs where "split_on P xs = z # zs" by (cases "split_on P xs") auto
  with Cons show ?case by auto
qed

lemma split_on_join:
  assumes "P s" and "xss \<noteq> []" and "\<And>xs x. xs \<in> set xss \<Longrightarrow> x \<in> set xs \<Longrightarrow> \<not> P x"
  shows "split_on P (join [s] xss) = xss"
  using assms
proof (induction "[s]" xss rule: join.induct)
  case 1
  then show ?case by simp
next
  case (2 x)
  then show ?case by (simp add: split_on_none)
next
  case (3 x y ys)
  then have "split_on P x = [x]" by (intro split_on_none) auto
  moreover have "split_on P (join [s] (y # ys)) = y # ys"
    using 3 by auto
  ultimately show ?case using "3.prems"(1) by (simp add: split_on_append_sep)
qed

lemma length_split_on: "length (split_on P xs) = Suc (length (filter P xs))"
  by (induction xs) auto

lemma join_Cons: "xs \<noteq> [] \<Longrightarrow> join sep (x # xs) = x @ sep @ join sep xs"
  by (cases xs) auto

lemma join_snoc: "join sep (xs @ [x]) = (if xs = [] then x else join sep xs @ sep @ x)"
  by (induction sep xs rule: join.induct) auto

lemma set_split_on: "xs' \<in> set (split_on P xs) \<Longrightarrow> x \<in> set xs' \<Longrightarrow> x \<in> set xs \<and> \<not> P x"
proof (induction xs arbitrary: xs')
  case Nil
  then show ?case by simp
next
  case (Cons a xs)
  have "split_on P xs \<noteq> []" by simp
  then obtain z zs where "split_on P xs = z # zs" by (cases "split_on P xs") auto
  with Cons show ?case by (fastforce split: if_splits)
qed

lemma length_split_on_piece: "ys \<in> set (split_on P xs) \<Longrightarrow> length ys \<le> length xs"
proof (induction xs arbitrary: ys)
  case (Cons x xs)
  have "split_on P xs \<noteq> []" by simp
  then obtain z zs where z: "split_on P xs = z # zs" by (cases "split_on P xs") auto
  with Cons show ?case by (cases "P x") (auto, fastforce+)
qed simp

lemma length_nat_to_string: "length (nat_to_string n) \<le> max 1 n"
proof (induction n rule: nat_to_string.induct)
  case (1 n)
  show ?case
  proof (cases "n < 10")
    case False
    with 1 have "length (nat_to_string (n div 10)) \<le> max 1 (n div 10)" by simp
    moreover have "max 1 (n div 10) + 1 \<le> n" using False by linarith
    ultimately show ?thesis using False by (subst nat_to_string.simps) simp
  qed (subst nat_to_string.simps, simp)
qed

end
