(* ===== verification/Network_Operation.thy ===== *)
theory Network_Operation
  imports Server_Prelude
begin

text \<open>
  The operation codes of the protocol and the callback table: \<open>algo/NetworkOperation.hpp\<close>,
  \<open>algo/NetworkOperation.cpp\<close>, \<open>algo/CallbackManager.hpp\<close> and the class \<open>WSInputCallbacks\<close> of
  \<open>net/websockets/WsServer\<close>. The first byte of a message is its operation code. Codes are an
  enumeration over \<open>uint32_t\<close> and any 32-bit value can occur (the code is cast from a byte), so
  they are 32-bit words here; \<open>char\<close> is signed on the supported platform, so the cast from a byte
  to a code sign-extends. The table is a \<open>std::map\<close> ordered by \<open>operator<\<close>, which compares the
  codes only: an association list in that order, with its laws stated as the locale
  \<open>callback_table\<close>.
\<close>

section \<open>Operation codes\<close>

type_synonym ws_opcode = u32

definition PING :: ws_opcode where "PING = 48"
definition CSV_ANALIZE :: ws_opcode where "CSV_ANALIZE = 49"
definition CSV_ANSWER :: ws_opcode where "CSV_ANSWER = 50"
definition TOTAL_OPCODES :: ws_opcode where "TOTAL_OPCODES = 51"

definition u32_to_char :: "u32 \<Rightarrow> char" where
  "u32_to_char w = char_of (unat (ucast w :: 8 word))"

definition char_to_u32 :: "char \<Rightarrow> u32" where
  "char_to_u32 c = scast (word_of_nat (of_char c) :: 8 word)"

definition opcodeToStr :: "ws_opcode \<Rightarrow> string" where
  "opcodeToStr code = [u32_to_char code]"

text \<open>\<open>str[0]\<close> of an empty \<open>std::string\<close> is the terminating NUL.\<close>

definition wsOpcodeFromStr :: "string \<Rightarrow> ws_opcode" where
  "wsOpcodeFromStr str = char_to_u32 (case str of [] \<Rightarrow> CHR 0x00 | c # _ \<Rightarrow> c)"

section \<open>Network operations and their order\<close>

datatype network_operation =
  NetworkOperation (operationCode: ws_opcode) (operationCodeStr: string) (operationName: string)

definition WsNetworkOperation :: "ws_opcode \<Rightarrow> string \<Rightarrow> network_operation" where
  "WsNetworkOperation code nm = NetworkOperation code (opcodeToStr code) nm"

definition WsNetworkOperation_code :: "ws_opcode \<Rightarrow> network_operation" where
  "WsNetworkOperation_code code = NetworkOperation code (opcodeToStr code) []"

text \<open>\<open>operator<\<close> looks at the codes only, so it is a preorder on operations and not an order.\<close>

definition operation_less :: "network_operation \<Rightarrow> network_operation \<Rightarrow> bool" where
  "operation_less a b \<longleftrightarrow> operationCode a < operationCode b"

instantiation network_operation :: preorder
begin

definition less_network_operation :: "network_operation \<Rightarrow> network_operation \<Rightarrow> bool" where
  "less_network_operation a b \<longleftrightarrow> operation_less a b"

definition less_eq_network_operation :: "network_operation \<Rightarrow> network_operation \<Rightarrow> bool" where
  "less_eq_network_operation a b \<longleftrightarrow> operationCode a \<le> operationCode b"

instance
  by standard (auto simp: less_network_operation_def less_eq_network_operation_def operation_less_def)

end

section \<open>The callback table\<close>

text \<open>\<open>std::map\<close> as the list of its entries in the order of the keys.\<close>

type_synonym ('k, 'v) std_map = "('k \<times> 'v) list"

fun std_map_find :: "'k::preorder \<Rightarrow> ('k, 'v) std_map \<Rightarrow> 'v option" where
  "std_map_find k [] = None"
| "std_map_find k ((k', v) # m) =
     (if k' < k then std_map_find k m else if k < k' then None else Some v)"

text \<open>\<open>m[k] = v\<close>: an equivalent key that is already present keeps its place and its key.\<close>

fun std_map_assign :: "'k::preorder \<Rightarrow> 'v \<Rightarrow> ('k, 'v) std_map \<Rightarrow> ('k, 'v) std_map" where
  "std_map_assign k v [] = [(k, v)]"
| "std_map_assign k v ((k', v') # m) =
     (if k < k' then (k, v) # (k', v') # m
      else if k' < k then (k', v') # std_map_assign k v m
      else (k', v) # m)"

type_synonym 'cb ws_input_callbacks = "(network_operation, 'cb) std_map"

definition WSInputCallbacks :: "'cb ws_input_callbacks" where
  "WSInputCallbacks = []"

definition getCallbacks :: "'cb ws_input_callbacks \<Rightarrow> (network_operation, 'cb) std_map" where
  "getCallbacks operationCallbacks = operationCallbacks"

definition addCallback ::
    "network_operation \<Rightarrow> 'cb \<Rightarrow> 'cb ws_input_callbacks \<Rightarrow> 'cb ws_input_callbacks" where
  "addCallback op cb operationCallbacks = std_map_assign op cb operationCallbacks"

definition findCallback :: "'cb ws_input_callbacks \<Rightarrow> network_operation \<Rightarrow> 'cb option" where
  "findCallback cbs op = std_map_find op (getCallbacks cbs)"

text \<open>The entries are in strictly increasing order of their codes.\<close>

definition callbacks_ok :: "'cb ws_input_callbacks \<Rightarrow> bool" where
  "callbacks_ok m \<longleftrightarrow> sorted_wrt (<) (map (operationCode \<circ> fst) m)"

section \<open>The interface of a callback table\<close>

text \<open>
  What the server relies on: a callback that was added is found for every operation with the
  same key, and adding one does not disturb the others.
\<close>

locale callback_table =
  fixes empty :: "'t"
    and add :: "'op \<Rightarrow> 'cb \<Rightarrow> 't \<Rightarrow> 't"
    and find :: "'t \<Rightarrow> 'op \<Rightarrow> 'cb option"
    and key :: "'op \<Rightarrow> 'k"
    and invar :: "'t \<Rightarrow> bool"
  assumes find_empty: "find empty op = None"
    and find_add: "invar t \<Longrightarrow>
      find (add op cb t) op' = (if key op' = key op then Some cb else find t op')"
    and invar_empty: "invar empty"
    and invar_add: "invar t \<Longrightarrow> invar (add op cb t)"
begin

lemma invar_fold: "invar t \<Longrightarrow> invar (fold (\<lambda>(op, cb). add op cb) regs t)"
  by (induction regs arbitrary: t) (auto simp: invar_add)

lemma find_fold:
  assumes "invar t" and "distinct (map (key \<circ> fst) regs)"
  shows "find (fold (\<lambda>(op, cb). add op cb) regs t) op =
    (case List.find (\<lambda>(op', _). key op' = key op) regs of
       Some (_, cb) \<Rightarrow> Some cb | None \<Rightarrow> find t op)"
  using assms
proof (induction regs arbitrary: t)
  case Nil
  then show ?case by simp
next
  case (Cons r regs)
  obtain op' cb where r: "r = (op', cb)" by (cases r)
  have "List.find (\<lambda>(op'', _). key op'' = key op) regs = None" if "key op' = key op"
    using Cons.prems that r by (force simp: find_None_iff)
  with Cons r show ?case
    by (auto simp: find_add invar_add split: option.splits)
qed

lemma find_registered:
  assumes "distinct (map (key \<circ> fst) regs)"
  shows "find (fold (\<lambda>(op, cb). add op cb) regs empty) op =
    map_option snd (List.find (\<lambda>(op', _). key op' = key op) regs)"
  by (simp add: find_fold [OF invar_empty assms] find_empty split: option.split)

end

section \<open>Lemmas\<close>

lemmas net_op_less [simp] = less_network_operation_def operation_less_def

lemma operationCode_ctor [simp]:
  "operationCode (WsNetworkOperation code nm) = code"
  "operationCode (WsNetworkOperation_code code) = code"
  by (simp_all add: WsNetworkOperation_def WsNetworkOperation_code_def)

lemma std_map_assign_keys:
  "set (map (operationCode \<circ> fst) (std_map_assign op cb m)) =
     insert (operationCode op) (set (map (operationCode \<circ> fst) m))"
proof (induction m)
  case Nil
  then show ?case by simp
next
  case (Cons e m)
  obtain k v where e: "e = (k, v)" by (cases e)
  show ?case
  proof (cases "operationCode op = operationCode k")
    case True
    with Cons e show ?thesis by simp
  next
    case False
    with Cons e show ?thesis by (auto simp: insert_commute)
  qed
qed

lemma callbacks_ok_Cons:
  "callbacks_ok ((k, v) # m) \<longleftrightarrow>
     (\<forall>c \<in> set (map (operationCode \<circ> fst) m). operationCode k < c) \<and> callbacks_ok m"
  by (auto simp: callbacks_ok_def)

lemma callbacks_ok_assign: "callbacks_ok m \<Longrightarrow> callbacks_ok (std_map_assign op cb m)"
proof (induction m)
  case Nil
  then show ?case by (simp add: callbacks_ok_def)
next
  case (Cons e m)
  obtain k v where e: "e = (k, v)" by (cases e)
  from Cons.prems e have k: "\<forall>c \<in> set (map (operationCode \<circ> fst) m). operationCode k < c"
    and m: "callbacks_ok m"
    by (simp_all add: callbacks_ok_Cons)
  show ?case
  proof (cases "operationCode k < operationCode op")
    case True
    with k m e Cons.IH show ?thesis
      by (auto simp: callbacks_ok_Cons std_map_assign_keys simp del: set_map)
  next
    case False
    with k m e show ?thesis
      by (auto simp: callbacks_ok_Cons)
  qed
qed

lemma std_map_find_less:
  "callbacks_ok m \<Longrightarrow> \<forall>c \<in> set (map (operationCode \<circ> fst) m). operationCode op < c \<Longrightarrow>
     std_map_find op m = None"
  by (cases m) auto

lemma std_map_find_assign:
  "callbacks_ok m \<Longrightarrow> std_map_find op' (std_map_assign op cb m) =
     (if operationCode op' = operationCode op then Some cb else std_map_find op' m)"
  by (induction m) (auto simp: callbacks_ok_Cons)

lemma callback_table_laws:
  "callback_table WSInputCallbacks addCallback findCallback operationCode callbacks_ok"
proof (unfold_locales, goal_cases)
  case (1 op)
  show ?case by (simp add: findCallback_def getCallbacks_def WSInputCallbacks_def)
next
  case (2 t op cb op')
  then show ?case
    by (simp add: findCallback_def getCallbacks_def addCallback_def std_map_find_assign)
next
  case 3
  show ?case by (simp add: callbacks_ok_def WSInputCallbacks_def)
next
  case (4 t op cb)
  then show ?case by (simp add: addCallback_def callbacks_ok_assign)
qed

interpretation cbs: callback_table WSInputCallbacks addCallback findCallback operationCode callbacks_ok
  by (rule callback_table_laws)

lemma ucast_scast_byte: "(ucast (scast (x :: 8 word) :: u32) :: 8 word) = x"
  by (rule bit_word_eqI) (simp add: bit_ucast_iff bit_signed_iff)

lemma u32_to_char_to_u32 [simp]: "u32_to_char (char_to_u32 c) = c"
  by (simp add: u32_to_char_def char_to_u32_def ucast_scast_byte unat_of_nat)

lemma char_to_u32_to_char: "char_to_u32 (u32_to_char w) = scast (ucast w :: 8 word)"
proof -
  have "unat (ucast w :: 8 word) < 2 ^ LENGTH(8)"
    by (rule unsigned_less)
  then show ?thesis by (simp add: char_to_u32_def u32_to_char_def)
qed

lemma sint_byte_cast: "sint (scast (ucast w :: 8 word) :: u32) = signed_take_bit 7 (sint (w :: u32))"
  by (rule bit_eqI)
    (auto simp: bit_sint_iff bit_signed_iff bit_ucast_iff bit_signed_take_bit_iff min_def)

lemma char_to_u32_inj: "char_to_u32 c = char_to_u32 d \<longleftrightarrow> c = d"
  by (metis u32_to_char_to_u32)

lemma opcode_chars:
  "char_to_u32 (CHR ''0'') = PING"
  "char_to_u32 (CHR ''1'') = CSV_ANALIZE"
  "char_to_u32 (CHR ''2'') = CSV_ANSWER"
  by (simp_all add: char_to_u32_def PING_def CSV_ANALIZE_def CSV_ANSWER_def)

lemma opcode_strings:
  "opcodeToStr PING = ''0''"
  "opcodeToStr CSV_ANALIZE = ''1''"
  "opcodeToStr CSV_ANSWER = ''2''"
  by (simp_all add: opcodeToStr_def flip: opcode_chars)

lemma wsOpcodeFromStr_Cons [simp]: "wsOpcodeFromStr (c # s) = char_to_u32 c"
  by (simp add: wsOpcodeFromStr_def)

text \<open>
  Writing an operation code as a string and reading it back gives the code exactly when the
  code, read as a signed number, fits a \<open>char\<close>; reading the first byte of any message and writing
  the code back gives that byte. The three codes of the protocol are among those that round-trip.
\<close>

theorem opcode_roundtrip:
  "(wsOpcodeFromStr (opcodeToStr code) = code \<longleftrightarrow> - 128 \<le> sint code \<and> sint code < 128)
   \<and> opcodeToStr (wsOpcodeFromStr (c # s)) = [c]
   \<and> wsOpcodeFromStr (opcodeToStr PING) = PING
   \<and> wsOpcodeFromStr (opcodeToStr CSV_ANALIZE) = CSV_ANALIZE
   \<and> wsOpcodeFromStr (opcodeToStr CSV_ANSWER) = CSV_ANSWER"
proof -
  have "wsOpcodeFromStr (opcodeToStr code) = code \<longleftrightarrow> signed_take_bit 7 (sint code) = sint code"
    unfolding opcodeToStr_def wsOpcodeFromStr_Cons char_to_u32_to_char sint_byte_cast [symmetric]
    by (simp only: word_eq_iff_signed)
  moreover have "opcodeToStr (wsOpcodeFromStr (c # s)) = [c]"
    by (simp add: opcodeToStr_def)
  ultimately show ?thesis
    by (simp add: signed_take_bit_int_eq_self_iff opcode_strings opcode_chars)
qed

text \<open>
  The callback table is a faithful finite map: after \<open>addCallback\<close> the added callback is
  found for every operation with the same code, whatever its name, and every other operation
  still finds what it found before; adding keeps the table in the order of the codes.
\<close>

theorem addCallback_lookup:
  assumes "callbacks_ok cbs"
  shows "callbacks_ok (addCallback op cb cbs)
    \<and> findCallback (addCallback op cb cbs) op' =
        (if operationCode op' = operationCode op then Some cb else findCallback cbs op')"
  using cbs.find_add [OF assms] cbs.invar_add [OF assms] by blast

theorem addCallback_lookup_witness:
  "callbacks_ok (WSInputCallbacks :: nat ws_input_callbacks)
    \<and> findCallback (addCallback (WsNetworkOperation PING ''0'') (7::nat) WSInputCallbacks)
        (WsNetworkOperation_code PING) = Some 7"
  using addCallback_lookup [OF cbs.invar_empty, of "WsNetworkOperation PING ''0''" "7::nat"
      "WsNetworkOperation_code PING"] cbs.invar_empty
  by simp

end
