(* ===== verification/Csv_Table.thy ===== *)
theory Csv_Table
  imports Server_Prelude
begin

text \<open>
  The class \<open>CSV\<close> of \<open>algo/CSV.hpp\<close> and \<open>algo/CSV.cpp\<close>: the table, the character-level parser
  that fills it from memory or from a file, the writer, and the element access. Counts and
  indices are 32-bit words (\<open>unsigned int\<close>). The parser collects a field in a stack array of
  1024 bytes without a bounds check, and containers are indexed without a check, so those
  accesses are written with the failure they would be. \<open>throw;\<close> outside a handler is
  \<open>Terminate\<close>. The members \<open>unparsedBuffer_\<close> and \<open>unparsedBufferSize_\<close> are never used and have
  no counterpart.
\<close>

section \<open>The table\<close>

type_synonym row = "string list"

record csv =
  rowsCount :: u32
  colsCount :: u32
  rowsDeque :: "row list"
  delimiter :: char

definition MAX_FIELD_SIZE :: nat where "MAX_FIELD_SIZE = 1024"
definition READ_BLOCK_SIZE :: nat where "READ_BLOCK_SIZE = 2048"

definition CSV :: "char \<Rightarrow> u32 \<Rightarrow> u32 \<Rightarrow> csv" where
  "CSV delim rows_count cols_count =
     \<lparr>rowsCount = rows_count, colsCount = cols_count,
      rowsDeque = replicate (unat rows_count) (replicate (unat cols_count) ''''),
      delimiter = delim\<rparr>"

text \<open>The default arguments: \<open>CSV(char delim = ',', unsigned int rows_n = 0, unsigned int cols_n = 0)\<close>.\<close>

definition default_CSV :: csv where
  "default_CSV = CSV (CHR '','') 0 0"

definition getRowsCount :: "csv \<Rightarrow> u32" where "getRowsCount csv = rowsCount csv"
definition getColsCount :: "csv \<Rightarrow> u32" where "getColsCount csv = colsCount csv"

section \<open>The parser\<close>

text \<open>
  The local variables of \<open>parseData\<close> and the deque it fills. \<open>cur_field\<close> holds the first
  \<open>cur_field_size\<close> bytes of the array of that name: the cells behind them are never read.
\<close>

record parse_state =
  cur_field :: string
  cur_col :: nat
  rw :: row
  deque :: "row list"

definition end_field :: "parse_state \<Rightarrow> parse_state" where
  "end_field st = (if cur_field st \<noteq> []
     then st\<lparr>rw := rw st @ [cur_field st], cur_field := []\<rparr> else st)"

definition end_row :: "u32 \<Rightarrow> parse_state \<Rightarrow> parse_state result" where
  "end_row n st =
     (if rw st \<noteq> [] then
        let d = deque st @ [[]] in
        if cur_col st < length d
        then Inr (st\<lparr>deque := d[cur_col st := rw st], cur_col := Suc (cur_col st),
                     rw := replicate (unat n) ''''\<rparr>)
        else Inl Out_Of_Bounds
      else Inr st)"

definition parse_char :: "char \<Rightarrow> u32 \<Rightarrow> char \<Rightarrow> parse_state \<Rightarrow> parse_state result" where
  "parse_char delim n c st =
     (if c \<noteq> delim \<and> (of_char c :: nat) \<noteq> 10 \<and> (of_char c :: nat) \<noteq> 13 then
        (if length (cur_field st) < MAX_FIELD_SIZE
         then Inr (st\<lparr>cur_field := cur_field st @ [c]\<rparr>) else Inl Buffer_Overflow)
      else let st1 = end_field st in if c \<noteq> delim then end_row n st1 else Inr st1)"

text \<open>The loop over the characters of a block and the loop over the blocks.\<close>

definition parse_block :: "char \<Rightarrow> u32 \<Rightarrow> string \<Rightarrow> parse_state \<Rightarrow> parse_state result" where
  "parse_block delim n str = foldM (parse_char delim n) str"

definition parse_blocks :: "char \<Rightarrow> u32 \<Rightarrow> string list \<Rightarrow> parse_state \<Rightarrow> parse_state result" where
  "parse_blocks delim n readed_data = foldM (parse_block delim n) readed_data"

definition parse_init :: "csv \<Rightarrow> parse_state" where
  "parse_init csv = \<lparr>cur_field = [], cur_col = 0, rw = replicate (unat (rowsCount csv)) '''',
                     deque = rowsDeque csv @ [[]]\<rparr>"

definition parse_finish :: "csv \<Rightarrow> parse_state \<Rightarrow> csv" where
  "parse_finish csv st =
     (let d = butlast (deque st); n = (word_of_nat (length d) :: u32) in
      csv\<lparr>rowsDeque := d, rowsCount := n,
          colsCount := (if n > 0 then word_of_nat (length (d ! 0)) else colsCount csv)\<rparr>)"

definition parseData :: "csv \<Rightarrow> string list \<Rightarrow> csv result" where
  "parseData csv readed_data =
     rbind (parse_blocks (delimiter csv) (rowsCount csv) readed_data (parse_init csv))
       (\<lambda>st. Inr (parse_finish csv st))"

text \<open>
  The loop that cuts the text into blocks counts with an \<open>unsigned int\<close>; \<open>None\<close> is a loop that
  never ends.
\<close>

partial_function (option) read_blocks :: "string \<Rightarrow> u32 \<Rightarrow> string list \<Rightarrow> string list option" where
  "read_blocks data i readed_data =
     (if unat i < length data
      then read_blocks data (i + word_of_nat READ_BLOCK_SIZE)
             (readed_data @ [take READ_BLOCK_SIZE (drop (unat i) data)])
      else Some readed_data)"

definition loadFromMemory :: "csv \<Rightarrow> string \<Rightarrow> csv result option" where
  "loadFromMemory csv data = map_option (parseData csv) (read_blocks data 0 [])"

section \<open>Files\<close>

text \<open>
  \<open>file\<close> is the content of the file, \<open>None\<close> when it cannot be opened, and \<open>junk\<close> the initial
  content of the uninitialised stack buffer. Both seeks go to the beginning, so \<open>tellg\<close> gives 0,
  or \<open>-1\<close> on a stream that is not open; the division truncates towards zero.
\<close>

definition file_blocks_count :: "string option \<Rightarrow> int" where
  "file_blocks_count file =
     (let fileSize = (case file of None \<Rightarrow> - 1 | Some _ \<Rightarrow> (0::int)) in
      sgn fileSize * (\<bar>fileSize\<bar> div int READ_BLOCK_SIZE))"

text \<open>\<open>csvFile.read(buffer, READ_BLOCK_SIZE)\<close>: only the bytes that are there are overwritten.\<close>

definition read_into :: "string \<Rightarrow> string \<Rightarrow> string" where
  "read_into content buffer = take READ_BLOCK_SIZE content @ drop (length content) buffer"

fun load_file_loop :: "nat \<Rightarrow> string \<Rightarrow> string \<Rightarrow> string list \<Rightarrow> string list" where
  "load_file_loop 0 content buffer readed_data = readed_data"
| "load_file_loop (Suc k) content buffer readed_data =
     (let buffer' = read_into content buffer in
      load_file_loop k (drop READ_BLOCK_SIZE content) buffer'
        (readed_data @ [take READ_BLOCK_SIZE buffer']))"

definition loadFile :: "string option \<Rightarrow> string \<Rightarrow> string list" where
  "loadFile file junk =
     load_file_loop (nat (file_blocks_count file + 1)) (case file of None \<Rightarrow> [] | Some s \<Rightarrow> s) junk []"

definition loadFromFile :: "csv \<Rightarrow> string option \<Rightarrow> string \<Rightarrow> csv result" where
  "loadFromFile csv file junk = parseData csv (loadFile file junk)"




section \<open>Rows and fields\<close>

definition appendRow :: "csv \<Rightarrow> row \<Rightarrow> csv" where
  "appendRow csv strVec =
     (if length strVec \<noteq> unat (colsCount csv) then csv
      else let d = rowsDeque csv @ [strVec] in
        csv\<lparr>rowsDeque := d, rowsCount := word_of_nat (length d)\<rparr>)"

definition setRowNum :: "csv \<Rightarrow> u32 \<Rightarrow> csv" where
  "setRowNum csv num = csv\<lparr>rowsCount := num\<rparr>"

definition setColNum :: "csv \<Rightarrow> u32 \<Rightarrow> csv" where
  "setColNum csv num = csv\<lparr>colsCount := num\<rparr>"

definition getRowRef :: "csv \<Rightarrow> u32 \<Rightarrow> row result" where
  "getRowRef csv row_n =
     (if rowsCount csv \<le> row_n then Inl Terminate
      else if unat row_n < length (rowsDeque csv) then Inr (rowsDeque csv ! unat row_n)
      else Inl Out_Of_Bounds)"

definition getRow :: "csv \<Rightarrow> u32 \<Rightarrow> row result" where
  "getRow csv row_n = getRowRef csv row_n"

definition getAtRef :: "csv \<Rightarrow> u32 \<Rightarrow> u32 \<Rightarrow> string result" where
  "getAtRef csv row_n col_n =
     rbind (getRowRef csv row_n) (\<lambda>r.
       if colsCount csv \<le> col_n then Inl Terminate
       else if unat col_n < length r then Inr (r ! unat col_n)
       else Inl Out_Of_Bounds)"

definition getAt :: "csv \<Rightarrow> u32 \<Rightarrow> u32 \<Rightarrow> string result" where
  "getAt csv row_n col_n = getAtRef csv row_n col_n"

text \<open>\<open>return getAtRef(row_n, col_n) = data;\<close> writes through the reference and returns the data.\<close>

definition setAt :: "csv \<Rightarrow> u32 \<Rightarrow> u32 \<Rightarrow> string \<Rightarrow> (csv \<times> string) result" where
  "setAt csv row_n col_n data =
     rbind (getAtRef csv row_n col_n) (\<lambda>_.
       Inr (csv\<lparr>rowsDeque := (rowsDeque csv)
              [unat row_n := (rowsDeque csv ! unat row_n)[unat col_n := data]]\<rparr>, data))"

section \<open>Reference semantics\<close>

text \<open>
  What a text means as a table: the rows are the lines that are terminated, the fields of a row
  are its pieces between delimiters, empty fields and rows without a field are dropped.
\<close>

definition is_eol :: "char \<Rightarrow> char \<Rightarrow> bool" where
  "is_eol delim c \<longleftrightarrow> c \<noteq> delim \<and> (c = CHR 0x0A \<or> c = CHR 0x0D)"

definition is_sep :: "char \<Rightarrow> char \<Rightarrow> bool" where
  "is_sep delim c \<longleftrightarrow> c = delim \<or> c = CHR 0x0A \<or> c = CHR 0x0D"

definition nonempty :: "'a list list \<Rightarrow> 'a list list" where
  "nonempty xss = filter (\<lambda>xs. xs \<noteq> []) xss"

definition fields_of :: "char \<Rightarrow> string \<Rightarrow> row" where
  "fields_of delim line = nonempty (split_on (is_sep delim) line)"

definition csv_rows :: "char \<Rightarrow> string \<Rightarrow> row list" where
  "csv_rows delim text =
     nonempty (map (fields_of delim) (butlast (split_on (is_eol delim) text)))"

text \<open>Every run of characters between separators fits the parser's array.\<close>

definition fields_fit :: "char \<Rightarrow> string \<Rightarrow> bool" where
  "fields_fit delim text \<longleftrightarrow> (\<forall>f \<in> set (split_on (is_sep delim) text). length f \<le> MAX_FIELD_SIZE)"

text \<open>The counts agree with the data and every row has \<open>colsCount\<close> fields.\<close>

definition csv_wf :: "csv \<Rightarrow> bool" where
  "csv_wf csv \<longleftrightarrow> unat (rowsCount csv) = length (rowsDeque csv)
     \<and> list_all (\<lambda>r. length r = unat (colsCount csv)) (rowsDeque csv)"

section \<open>The parser computes the reference semantics\<close>

lemma parse_blocks_concat:
  "parse_blocks delim n blocks st = parse_block delim n (concat blocks) st"
  by (induction blocks arbitrary: st)
    (auto simp: parse_blocks_def parse_block_def foldM_append rbind_def split: sum.split)

lemma char_code_10: "(of_char c :: nat) = 10 \<longleftrightarrow> c = CHR 0x0A"
  using of_char_eq_iff [where ?'a = nat, of c "CHR 0x0A"] by simp

lemma char_code_13: "(of_char c :: nat) = 13 \<longleftrightarrow> c = CHR 0x0D"
  using of_char_eq_iff [where ?'a = nat, of c "CHR 0x0D"] by simp

lemma nonempty_append [simp]: "nonempty (xs @ ys) = nonempty xs @ nonempty ys"
  by (simp add: nonempty_def)

lemma nonempty_simps [simp]:
  "nonempty [] = []"
  "nonempty (x # xs) = (if x = [] then nonempty xs else x # nonempty xs)"
  by (simp_all add: nonempty_def)

lemma is_eol_is_sep: "is_eol d c \<Longrightarrow> is_sep d c"
  by (auto simp: is_eol_def is_sep_def)

lemma last_sep_piece:
  "last (split_on (is_sep d) (last (split_on (is_eol d) s))) = last (split_on (is_sep d) s)"
proof (induction s rule: rev_induct)
  case Nil
  then show ?case by simp
next
  case (snoc c s)
  then show ?case by (auto simp: split_on_snoc is_eol_is_sep)
qed

definition parse_abs :: "char \<Rightarrow> string \<Rightarrow> parse_state" where
  "parse_abs d text =
     \<lparr>cur_field = last (split_on (is_sep d) text),
      cur_col = length (csv_rows d text),
      rw = nonempty (butlast (split_on (is_sep d) (last (split_on (is_eol d) text)))),
      deque = csv_rows d text @ [[]]\<rparr>"

lemma fields_of_split:
  "fields_of d line = nonempty (butlast (split_on (is_sep d) line))
     @ nonempty [last (split_on (is_sep d) line)]"
  unfolding fields_of_def by (metis append_butlast_last_id nonempty_append split_on_not_Nil)

lemma csv_rows_snoc:
  "csv_rows d (text @ [c]) =
     (if is_eol d c then csv_rows d text @ nonempty [fields_of d (last (split_on (is_eol d) text))]
      else csv_rows d text)"
proof -
  have "map (fields_of d) (split_on (is_eol d) text) =
      map (fields_of d) (butlast (split_on (is_eol d) text))
        @ [fields_of d (last (split_on (is_eol d) text))]"
    by (metis append_butlast_last_id list.simps(8,9) map_append split_on_not_Nil)
  then show ?thesis by (simp add: csv_rows_def split_on_snoc)
qed

lemma parse_char_abs:
  "parse_char d 0 c (parse_abs d text) =
     (if is_sep d c \<or> length (last (split_on (is_sep d) text)) < MAX_FIELD_SIZE
      then Inr (parse_abs d (text @ [c])) else Inl Buffer_Overflow)"
proof -
  let ?L = "last (split_on (is_eol d) text)"
  let ?r = "nonempty (butlast (split_on (is_sep d) ?L))" and ?f = "last (split_on (is_sep d) text)"
  have end_field: "end_field (parse_abs d text) = (parse_abs d text)
      \<lparr>cur_field := [], rw := fields_of d ?L\<rparr>"
    by (simp add: end_field_def parse_abs_def fields_of_split last_sep_piece)
  consider "\<not> is_sep d c" | "c = d" | "is_eol d c"
    by (auto simp: is_sep_def is_eol_def)
  then show ?thesis
  proof cases
    case 1
    then have "\<not> is_eol d c" using is_eol_is_sep by blast
    with 1 show ?thesis
      by (auto simp: parse_char_def char_code_10 char_code_13 is_sep_def parse_abs_def
          csv_rows_snoc split_on_snoc)
  next
    case 2
    then have "is_sep d c" "\<not> is_eol d c" by (auto simp: is_sep_def is_eol_def)
    with 2 show ?thesis
      by (simp add: parse_char_def end_field)
        (simp add: parse_abs_def csv_rows_snoc split_on_snoc fields_of_def)
  next
    case 3
    then have "is_sep d c" "c \<noteq> d" "c = CHR 0x0A \<or> c = CHR 0x0D"
      by (auto simp: is_sep_def is_eol_def)
    with 3 show ?thesis
      by (simp add: parse_char_def end_field)
        (auto simp: end_row_def parse_abs_def csv_rows_snoc split_on_snoc list_update_append)
  qed
qed

lemma fields_fit_snoc:
  "fields_fit d (s @ [c]) \<longleftrightarrow>
     fields_fit d s \<and> (is_sep d c \<or> length (last (split_on (is_sep d) s)) < MAX_FIELD_SIZE)"
proof -
  obtain xs x where "split_on (is_sep d) s = xs @ [x]"
    by (metis append_butlast_last_id split_on_not_Nil)
  then show ?thesis
    by (auto simp: fields_fit_def split_on_snoc MAX_FIELD_SIZE_def)
qed

lemma parse_block_fresh:
  "parse_block d 0 s (parse_abs d []) =
     (if fields_fit d s then Inr (parse_abs d s) else Inl Buffer_Overflow)"
proof (induction s rule: rev_induct)
  case Nil
  then show ?case by (simp add: parse_block_def fields_fit_def)
next
  case (snoc c s)
  then show ?case
    by (simp add: parse_block_def foldM_append parse_char_abs fields_fit_snoc)
qed

definition fresh_csv :: "csv \<Rightarrow> bool" where
  "fresh_csv csv \<longleftrightarrow> rowsCount csv = 0 \<and> rowsDeque csv = []"

text \<open>The table that a text describes, put into the object \<open>csv\<close>.\<close>

definition loaded_csv :: "csv \<Rightarrow> string \<Rightarrow> csv" where
  "loaded_csv csv s =
     (let R = csv_rows (delimiter csv) s in
      csv\<lparr>rowsDeque := R, rowsCount := word_of_nat (length R),
          colsCount := (if (word_of_nat (length R) :: u32) > 0 then word_of_nat (length (R ! 0))
                        else colsCount csv)\<rparr>)"

lemma parseData_fresh:
  assumes "fresh_csv csv"
  shows "parseData csv blocks =
    (if fields_fit (delimiter csv) (concat blocks) then Inr (loaded_csv csv (concat blocks))
     else Inl Buffer_Overflow)"
proof -
  have "parse_init csv = parse_abs (delimiter csv) []"
    using assms by (simp add: fresh_csv_def parse_init_def parse_abs_def csv_rows_def)
  then show ?thesis
    using assms
    by (simp add: parseData_def parse_blocks_concat parse_block_fresh fresh_csv_def)
      (simp add: parse_finish_def parse_abs_def loaded_csv_def Let_def)
qed

lemma length_csv_rows: "length (csv_rows d s) \<le> length (filter (is_eol d) s)"
proof -
  have "length (csv_rows d s) \<le> length (butlast (split_on (is_eol d) s))"
    unfolding csv_rows_def nonempty_def by (rule order_trans [OF length_filter_le]) simp
  then show ?thesis by (simp add: length_split_on)
qed

lemma rowsCount_loaded:
  assumes "length s < 2 ^ 32"
  shows "unat (rowsCount (loaded_csv csv s)) = length (csv_rows (delimiter csv) s)"
proof -
  have "length (csv_rows (delimiter csv) s) < 2 ^ 32"
    using assms length_csv_rows [of "delimiter csv" s] length_filter_le [of "is_eol (delimiter csv)" s]
    by linarith
  then show ?thesis by (simp add: loaded_csv_def Let_def unat_of_nat)
qed

subsection \<open>Cutting the text into blocks\<close>

function chunks :: "string \<Rightarrow> string list" where
  "chunks s = (if s = [] then [] else take READ_BLOCK_SIZE s # chunks (drop READ_BLOCK_SIZE s))"
  by pat_completeness auto
termination
  by (relation "measure length") (auto simp: READ_BLOCK_SIZE_def)

declare chunks.simps [simp del]

lemma concat_chunks: "concat (chunks s) = s"
proof (induction s rule: chunks.induct)
  case (1 s)
  then show ?case by (subst chunks.simps) simp
qed

lemma read_blocks_chunks:
  assumes "length s \<le> 2 ^ 32 - 2048"
  shows "read_blocks s i acc = Some (acc @ chunks (drop (unat i) s))"
  using assms
proof (induction "length s - unat i" arbitrary: i acc rule: less_induct)
  case less
  show ?case
  proof (cases "unat i < length s")
    case True
    have unat_i: "unat (i + 2048) = unat i + 2048"
      using True less.prems by (simp add: unat_word_ariths)
    have "read_blocks s i acc = read_blocks s (i + 2048) (acc @ [take READ_BLOCK_SIZE (drop (unat i) s)])"
      using True by (subst read_blocks.simps) (simp add: READ_BLOCK_SIZE_def)
    also have "\<dots> = Some ((acc @ [take READ_BLOCK_SIZE (drop (unat i) s)]) @ chunks (drop (unat (i + 2048)) s))"
      using True unat_i less.prems by (intro less.hyps) auto
    also have "\<dots> = Some (acc @ chunks (drop (unat i) s))"
      using True unat_i chunks.simps [of "drop (unat i) s"]
      by (simp add: READ_BLOCK_SIZE_def add.commute)
    finally show ?thesis .
  next
    case False
    then show ?thesis by (subst read_blocks.simps) (simp add: chunks.simps)
  qed
qed

lemma read_blocks_diverges:
  assumes "2 ^ 32 - 2048 < length s"
  shows "read_blocks s 0 [] = None"
proof (rule ccontr)
  assume "read_blocks s 0 [] \<noteq> None"
  then obtain r where "read_blocks s 0 [] = Some r" by auto
  then have "\<not> (2048 dvd unat (0 :: u32) \<and> 2 ^ 32 - 2048 < length s)"
  proof (rule read_blocks.raw_induct
      [where P = "\<lambda>s i acc r. \<not> (2048 dvd unat i \<and> 2 ^ 32 - 2048 < length s)", rotated])
    fix rb s and i :: u32 and acc r
    assume IH: "\<And>s i acc r. rb s i acc = Some r \<Longrightarrow> \<not> (2048 dvd unat i \<and> 2 ^ 32 - 2048 < length s)"
      and eq: "(if unat i < length s
        then rb s (i + word_of_nat READ_BLOCK_SIZE) (acc @ [take READ_BLOCK_SIZE (drop (unat i) s)])
        else Some acc) = Some r"
    show "\<not> (2048 dvd unat i \<and> 2 ^ 32 - 2048 < length s)"
    proof
      assume H: "2048 dvd unat i \<and> 2 ^ 32 - 2048 < length s"
      have "unat i < 2 ^ LENGTH(32)" by (rule unsigned_less)
      with H have "unat i \<le> 2 ^ 32 - 2048" by auto
      with H have "unat i < length s" by linarith
      with eq IH have "\<not> (2048 dvd unat (i + word_of_nat READ_BLOCK_SIZE))" using H by auto
      moreover have "2048 dvd unat (i + word_of_nat READ_BLOCK_SIZE)"
        using H by (auto simp: READ_BLOCK_SIZE_def unat_word_ariths intro: dvd_mod)
      ultimately show False ..
    qed
  qed
  with assms show False by simp
qed

section \<open>The table as an array of cells\<close>

text \<open>
  The interface that clients of a table use: reading and writing a cell in range succeeds, a
  read sees the last write to its cell, and writes do not change which cells exist.
\<close>

locale cell_store =
  fixes get :: "'t \<Rightarrow> 'i \<Rightarrow> 'i \<Rightarrow> 'e + 'a"
    and put :: "'t \<Rightarrow> 'i \<Rightarrow> 'i \<Rightarrow> 'a \<Rightarrow> 'e + 't"
    and in_range :: "'t \<Rightarrow> 'i \<Rightarrow> 'i \<Rightarrow> bool"
    and invar :: "'t \<Rightarrow> bool"
  assumes get_in_range: "invar t \<Longrightarrow> in_range t r c \<Longrightarrow> \<exists>x. get t r c = Inr x"
    and put_in_range: "invar t \<Longrightarrow> in_range t r c \<Longrightarrow> \<exists>t'. put t r c x = Inr t'"
    and get_put: "invar t \<Longrightarrow> put t r c x = Inr t' \<Longrightarrow>
      get t' r' c' = (if r' = r \<and> c' = c then Inr x else get t r' c')"
    and in_range_put: "invar t \<Longrightarrow> put t r c x = Inr t' \<Longrightarrow> in_range t' r' c' = in_range t r' c'"
    and invar_put: "invar t \<Longrightarrow> put t r c x = Inr t' \<Longrightarrow> invar t'"
begin

text \<open>A sequence of writes; the value of a cell is the last one written to it.\<close>

primrec puts :: "('i \<times> 'i \<times> 'a) list \<Rightarrow> 't \<Rightarrow> 'e + 't" where
  "puts [] t = Inr t"
| "puts (w # ws) t =
     (case w of (r, c, x) \<Rightarrow> (case put t r c x of Inl e \<Rightarrow> Inl e | Inr t' \<Rightarrow> puts ws t'))"

lemma puts_get:
  assumes "invar t" and "\<And>r c x. (r, c, x) \<in> set ws \<Longrightarrow> in_range t r c"
  shows "\<exists>t'. puts ws t = Inr t' \<and> invar t' \<and>
    (\<forall>r c. get t' r c = (case List.find (\<lambda>(r', c', _). r' = r \<and> c' = c) (rev ws) of
       Some (_, _, x) \<Rightarrow> Inr x | None \<Rightarrow> get t r c))"
  using assms
proof (induction ws arbitrary: t)
  case Nil
  then show ?case by simp
next
  case (Cons w ws)
  obtain r0 c0 x0 where w: "w = (r0, c0, x0)" by (cases w)
  obtain t1 where t1: "put t r0 c0 x0 = Inr t1"
    using put_in_range Cons.prems w by (metis list.set_intros(1))
  have "invar t1" using invar_put t1 Cons.prems(1) by blast
  moreover have "in_range t1 r c" if "(r, c, x) \<in> set ws" for r c x
    using in_range_put [OF Cons.prems(1) t1] Cons.prems(2) [of r c x] that by simp
  ultimately obtain t' where t': "puts ws t1 = Inr t'" "invar t'"
    "\<forall>r c. get t' r c = (case List.find (\<lambda>(r', c', _). r' = r \<and> c' = c) (rev ws) of
       Some (_, _, x) \<Rightarrow> Inr x | None \<Rightarrow> get t1 r c)"
    using Cons.IH by blast
  have find_snoc: "List.find P (xs @ [y]) = (case List.find P xs of Some z \<Rightarrow> Some z | None \<Rightarrow> if P y then Some y else None)"
    for P xs and y :: "'i \<times> 'i \<times> 'a"
    by (induction xs) auto
  show ?case
    using t' t1 w get_put [OF Cons.prems(1) t1]
    by (auto simp: find_snoc split: option.splits)
qed

end

definition csv_in_range :: "csv \<Rightarrow> u32 \<Rightarrow> u32 \<Rightarrow> bool" where
  "csv_in_range csv r c \<longleftrightarrow> r < rowsCount csv \<and> c < colsCount csv"

definition csv_put :: "csv \<Rightarrow> u32 \<Rightarrow> u32 \<Rightarrow> string \<Rightarrow> csv result" where
  "csv_put csv r c x = rbind (setAt csv r c x) (\<lambda>(csv', _). Inr csv')"

lemma csv_wf_row: "csv_wf csv \<Longrightarrow> r < rowsCount csv \<Longrightarrow> length (rowsDeque csv ! unat r) = unat (colsCount csv)"
  by (auto simp: csv_wf_def list_all_length word_less_nat_alt)

lemma getAt_in_range:
  assumes "csv_wf csv" and "csv_in_range csv r c"
  shows "getAt csv r c = Inr (rowsDeque csv ! unat r ! unat c)"
  using assms csv_wf_row [OF assms(1)]
  by (auto simp: getAt_def getAtRef_def getRowRef_def csv_in_range_def csv_wf_def
      word_less_nat_alt word_le_nat_alt)

lemma getAt_out_of_range:
  assumes "csv_wf csv" and "\<not> csv_in_range csv r c"
  shows "getAt csv r c = Inl Terminate"
  using assms
  by (auto simp: getAt_def getAtRef_def getRowRef_def csv_in_range_def csv_wf_def
      word_less_nat_alt word_le_nat_alt not_less)

lemma setAt_in_range:
  assumes "csv_wf csv" and "csv_in_range csv r c"
  shows "setAt csv r c x = Inr (csv\<lparr>rowsDeque := (rowsDeque csv)
      [unat r := (rowsDeque csv ! unat r)[unat c := x]]\<rparr>, x)"
  using getAt_in_range [OF assms] by (simp add: setAt_def getAt_def)

lemma setAt_out_of_range:
  assumes "csv_wf csv" and "\<not> csv_in_range csv r c"
  shows "setAt csv r c x = Inl Terminate"
  using getAt_out_of_range [OF assms] by (simp add: setAt_def getAt_def)

lemma csv_put_Inr:
  assumes "csv_wf csv" and "csv_put csv r c x = Inr csv'"
  shows "csv_in_range csv r c"
    and "csv' = csv\<lparr>rowsDeque := (rowsDeque csv)[unat r := (rowsDeque csv ! unat r)[unat c := x]]\<rparr>"
proof -
  show r: "csv_in_range csv r c"
    using assms setAt_out_of_range [OF assms(1), of r c x]
    by (cases "csv_in_range csv r c") (auto simp: csv_put_def)
  show "csv' = csv\<lparr>rowsDeque := (rowsDeque csv)[unat r := (rowsDeque csv ! unat r)[unat c := x]]\<rparr>"
    using assms setAt_in_range [OF assms(1) r] by (simp add: csv_put_def)
qed

lemma csv_put_wf:
  assumes "csv_wf csv" and "csv_put csv r c x = Inr csv'"
  shows "csv_wf csv'"
  using assms(1) csv_put_Inr [OF assms] csv_wf_row [OF assms(1)]
  by (auto simp: csv_wf_def csv_in_range_def list_all_length nth_list_update word_less_nat_alt)

lemma csv_put_get:
  assumes wf: "csv_wf csv" and put: "csv_put csv r c x = Inr csv'"
  shows "getAt csv' r' c' = (if r' = r \<and> c' = c then Inr x else getAt csv r' c')"
proof (cases "csv_in_range csv r' c'")
  case True
  note csv' = csv_put_Inr [OF wf put]
  have wf': "csv_wf csv'" by (rule csv_put_wf [OF wf put])
  have "csv_in_range csv' r' c'" using True csv' by (simp add: csv_in_range_def)
  then have "getAt csv' r' c' = Inr (rowsDeque csv' ! unat r' ! unat c')"
    by (rule getAt_in_range [OF wf'])
  moreover have "unat r < length (rowsDeque csv)" "unat c < length (rowsDeque csv ! unat r)"
    using csv' csv_wf_row [OF wf] wf
    by (auto simp: csv_in_range_def csv_wf_def word_less_nat_alt)
  ultimately show ?thesis
    using csv' getAt_in_range [OF wf True] by (auto simp: nth_list_update word_unat_eq_iff)
next
  case False
  note csv' = csv_put_Inr [OF wf put]
  have "\<not> csv_in_range csv' r' c'" using False csv' by (simp add: csv_in_range_def)
  with False csv' getAt_out_of_range csv_put_wf [OF wf put] wf show ?thesis by auto
qed

interpretation cells: cell_store getAt csv_put csv_in_range csv_wf
proof (unfold_locales, goal_cases)
  case (1 t r c)
  then show ?case by (simp add: getAt_in_range)
next
  case (2 t r c x)
  then show ?case by (simp add: csv_put_def setAt_in_range)
next
  case (3 t r c x t' r' c')
  then show ?case by (simp add: csv_put_get)
next
  case (4 t r c x t' r' c')
  then show ?case using csv_put_Inr(2) [of t r c x t'] by (simp add: csv_in_range_def)
next
  case (5 t r c x t')
  then show ?case by (rule csv_put_wf)
qed

lemma csv_wf_CSV: "csv_wf (CSV d r c)"
  by (simp add: csv_wf_def CSV_def list_all_length)

lemma csv_wf_appendRow:
  assumes "csv_wf csv" and "length (rowsDeque csv) + 1 < 2 ^ 32"
  shows "csv_wf (appendRow csv strVec)"
  using assms by (simp add: csv_wf_def appendRow_def Let_def unat_of_nat del: of_nat_Suc)

section \<open>Writing and reading back\<close>
















section \<open>Loading into a table that already holds rows\<close>

text \<open>
  With \<open>rowsCount\<close> not zero a new row starts with that many empty fields, so it is never empty:
  every line end makes a row, and every row starts with the padding.
\<close>

definition padded :: "u32 \<Rightarrow> row \<Rightarrow> bool" where
  "padded n r \<longleftrightarrow> take (unat n) r = replicate (unat n) ''''"

definition reload_ok :: "u32 \<Rightarrow> parse_state \<Rightarrow> bool" where
  "reload_ok n st \<longleftrightarrow> padded n (rw st) \<and> cur_col st < length (deque st)
     \<and> (\<forall>i < cur_col st. padded n (deque st ! i))"

lemma padded_not_Nil: "n \<noteq> 0 \<Longrightarrow> padded n r \<Longrightarrow> r \<noteq> []"
  by (auto simp: padded_def unat_eq_zero)

lemma padded_append: "padded n r \<Longrightarrow> padded n (r @ fs)"
proof -
  assume "padded n r"
  moreover from this have "unat n \<le> length r"
    unfolding padded_def by (metis length_replicate length_take min.absorb_iff2 min.cobounded1 min.commute)
  ultimately show ?thesis by (simp add: padded_def)
qed

lemma reload_step:
  assumes "n \<noteq> 0" and "parse_char d n c st = Inr st'" and "reload_ok n st"
  shows "reload_ok n st' \<and> cur_col st' = cur_col st + (if is_eol d c then 1 else 0)
    \<and> length (deque st') = length (deque st) + (if is_eol d c then 1 else 0)"
proof -
  have ok: "reload_ok n (end_field st)" "cur_col (end_field st) = cur_col st"
    "deque (end_field st) = deque st"
    using assms(3) by (auto simp: reload_ok_def end_field_def padded_append)
  then have "rw (end_field st) \<noteq> []"
    using padded_not_Nil [OF assms(1)] by (simp add: reload_ok_def)
  moreover have "padded n (replicate (unat n) '''')" by (simp add: padded_def)
  ultimately show ?thesis
    using assms(2,3) ok
    by (auto simp: parse_char_def end_row_def is_eol_def char_code_10 char_code_13 reload_ok_def
        Let_def nth_list_update nth_append less_Suc_eq split: if_splits)
qed

lemma reload_block:
  assumes "n \<noteq> 0" and "parse_block d n s st = Inr st'" and "reload_ok n st"
  shows "reload_ok n st' \<and> cur_col st' = cur_col st + length (filter (is_eol d) s)
    \<and> length (deque st') = length (deque st) + length (filter (is_eol d) s)"
  using assms(2,3)
proof (induction s arbitrary: st)
  case Nil
  then show ?case by (simp add: parse_block_def)
next
  case (Cons c s)
  then obtain st1 where st1: "parse_char d n c st = Inr st1" "parse_block d n s st1 = Inr st'"
    by (auto simp: parse_block_def rbind_Inr_conv)
  from reload_step [OF assms(1) st1(1) Cons.prems(2)] Cons.IH [OF st1(2)]
  show ?case by (auto split: if_splits)
qed

lemma reload_init: "reload_ok (rowsCount csv) (parse_init csv)"
  by (simp add: reload_ok_def parse_init_def padded_def)

section \<open>Loading from a file\<close>

lemma file_blocks_count_zero: "file_blocks_count file = 0"
  by (simp add: file_blocks_count_def READ_BLOCK_SIZE_def split: option.split)

lemma loadFile_one_block:
  assumes "length junk = READ_BLOCK_SIZE"
  shows "loadFile file junk =
    [case file of None \<Rightarrow> junk | Some s \<Rightarrow> take READ_BLOCK_SIZE s @ drop (length s) junk]"
  using assms
  by (simp add: loadFile_def file_blocks_count_zero read_into_def split: option.split)

section \<open>Properties\<close>

lemma loadFromMemory_fresh:
  assumes "fresh_csv csv" and "length s \<le> 2 ^ 32 - 2048"
  shows "loadFromMemory csv s =
    Some (if fields_fit (delimiter csv) s then Inr (loaded_csv csv s) else Inl Buffer_Overflow)"
proof -
  have "read_blocks s 0 [] = Some (chunks s)"
    using read_blocks_chunks [OF assms(2), of 0 "[]"] by simp
  then show ?thesis
    by (simp add: loadFromMemory_def parseData_fresh [OF assms(1)] concat_chunks)
qed

lemma rowsDeque_loaded [simp]: "rowsDeque (loaded_csv csv s) = csv_rows (delimiter csv) s"
  by (simp add: loaded_csv_def Let_def)

text \<open>
  C7: loading a text into a fresh table gives exactly the table the text describes, for every
  delimiter and every block boundary: the loader returns (its block loop ends), the rows are the
  terminated lines with their non-empty fields, the counts match; the only other outcome is the
  overflow of the 1024-byte field array, and it happens exactly when some run of characters
  between separators is longer than that.
\<close>

theorem loadFromMemory_correct:
  assumes "fresh_csv csv" and "length s \<le> 2 ^ 32 - 2048"
  shows "loadFromMemory csv s =
      Some (if fields_fit (delimiter csv) s then Inr (loaded_csv csv s) else Inl Buffer_Overflow)
    \<and> rowsDeque (loaded_csv csv s) = csv_rows (delimiter csv) s
    \<and> unat (rowsCount (loaded_csv csv s)) = length (csv_rows (delimiter csv) s)"
  using assms loadFromMemory_fresh [OF assms] rowsCount_loaded [of s csv] by simp

theorem loadFromMemory_correct_witness:
  "loadFromMemory default_CSV (''1,,2'' @ [CHR 0x0A] @ ''3'') =
     Some (Inr (loaded_csv default_CSV (''1,,2'' @ [CHR 0x0A] @ ''3'')))
   \<and> rowsDeque (loaded_csv default_CSV (''1,,2'' @ [CHR 0x0A] @ ''3'')) = [[''1'', ''2'']]"
  using loadFromMemory_correct [of default_CSV "''1,,2'' @ [CHR 0x0A] @ ''3''"]
  by (simp add: fresh_csv_def default_CSV_def CSV_def fields_fit_def csv_rows_def fields_of_def
      is_sep_def is_eol_def MAX_FIELD_SIZE_def)

text \<open>
  C38: the block loop of \<open>loadFromMemory\<close> counts with a 32-bit unsigned integer, so a text longer
  than \<open>2 ^ 32 - 2048\<close> bytes makes it wrap around and run forever.
\<close>

theorem loadFromMemory_diverges:
  "2 ^ 32 - 2048 < length s \<Longrightarrow> loadFromMemory csv s = None"
  by (simp add: loadFromMemory_def read_blocks_diverges)

theorem loadFromMemory_diverges_witness:
  "loadFromMemory default_CSV (replicate (2 ^ 32) (CHR ''a'')) = None"
  by (rule loadFromMemory_diverges) simp

text \<open>
  In a well-formed table (the counts agree with the data, all rows have the same length) a
  sequence of in-range writes succeeds and keeps the table well-formed, and afterwards every cell
  holds the last value written to it, or its old value if there was none.
\<close>

theorem csv_writes_then_read:
  assumes "csv_wf csv" and "list_all (\<lambda>(r, c, x). csv_in_range csv r c) ws"
  shows "\<exists>csv'. foldM (\<lambda>(r, c, x) t. rbind (setAt t r c x) (\<lambda>(t', _). Inr t')) ws csv = Inr csv'
    \<and> csv_wf csv'
    \<and> (\<forall>r c. getAt csv' r c = (case List.find (\<lambda>(r', c', _). r' = r \<and> c' = c) (rev ws) of
         Some (_, _, x) \<Rightarrow> Inr x | None \<Rightarrow> getAt csv r c))"
proof -
  have "foldM (\<lambda>(r, c, x) t. rbind (setAt t r c x) (\<lambda>(t', _). Inr t')) ws csv = cells.puts ws csv"
    by (induction ws arbitrary: csv) (auto simp: csv_put_def rbind_def split: sum.split)
  with cells.puts_get [OF assms(1), of ws] assms(2) show ?thesis
    by (fastforce simp: list_all_iff)
qed

theorem csv_writes_then_read_witness:
  "\<exists>csv'. foldM (\<lambda>(r, c, x) t. rbind (setAt t r c x) (\<lambda>(t', _). Inr t'))
      [(0, 1, ''a''), (1, 0, ''b''), (0, 1, ''c'')] (CSV (CHR '','') 2 2) = Inr csv'
    \<and> getAt csv' 0 1 = Inr ''c''"
proof -
  have "list_all (\<lambda>(r, c, x). csv_in_range (CSV (CHR '','') 2 2) r c)
      [(0, 1, ''a''), (1, 0, ''b''), (0, 1, ''c'')]"
    by (simp add: csv_in_range_def CSV_def)
  from csv_writes_then_read [OF csv_wf_CSV this] show ?thesis by (auto dest: spec [of _ 0])
qed

text \<open>
  C32: every access is guarded in a well-formed table: an index inside the counts reads the cell,
  any other index terminates the program, and no access leaves the containers. The constructor,
  \<open>setAt\<close> and \<open>appendRow\<close> (which ignores a row of the wrong length) keep tables well-formed.
\<close>

theorem csv_access_guarded:
  assumes "csv_wf csv" and "length (rowsDeque csv) + 1 < 2 ^ 32"
  shows "getAt csv r c = (if r < rowsCount csv \<and> c < colsCount csv
      then Inr (rowsDeque csv ! unat r ! unat c) else Inl Terminate)
    \<and> getRow csv r = (if r < rowsCount csv then Inr (rowsDeque csv ! unat r) else Inl Terminate)
    \<and> csv_wf (CSV d n m) \<and> csv_wf (appendRow csv strVec)
    \<and> (\<forall>csv' y. setAt csv r c x = Inr (csv', y) \<longrightarrow> csv_wf csv' \<and> y = x)"
proof -
  have "csv_wf csv' \<and> y = x" if "setAt csv r c x = Inr (csv', y)" for csv' y
    using that csv_put_wf [OF assms(1), of r c x csv']
    by (auto simp: csv_put_def setAt_def rbind_Inr_conv)
  moreover have "getRow csv r = (if r < rowsCount csv then Inr (rowsDeque csv ! unat r) else Inl Terminate)"
    using assms(1) by (auto simp: getRow_def getRowRef_def csv_wf_def word_less_nat_alt word_le_nat_alt)
  ultimately show ?thesis
    using getAt_in_range [OF assms(1)] getAt_out_of_range [OF assms(1)]
      csv_wf_CSV csv_wf_appendRow [OF assms]
    by (simp add: csv_in_range_def)
qed

theorem csv_access_guarded_witness:
  "csv_wf (CSV (CHR '';'') 1 1) \<and> getAt (CSV (CHR '';'') 1 1) 0 1 = Inl Terminate"
  using csv_access_guarded [of "CSV (CHR '';'') 1 1" 0 1] csv_wf_CSV [of "CHR '';''" 1 1]
  by (simp add: CSV_def)




text \<open>
  Loading into a table that already has rows does not replace them: the row count grows by
  the number of line ends, and every row that is written starts with as many empty fields as the
  table had rows before.
\<close>

theorem reload_keeps_old_rows:
  assumes "csv_wf csv" and "rowsCount csv \<noteq> 0" and "parseData csv blocks = Inr csv'"
  shows "length (rowsDeque csv') =
      unat (rowsCount csv) + length (filter (is_eol (delimiter csv)) (concat blocks))
    \<and> (\<forall>i < length (filter (is_eol (delimiter csv)) (concat blocks)).
          padded (rowsCount csv) (rowsDeque csv' ! i))"
proof -
  let ?k = "length (filter (is_eol (delimiter csv)) (concat blocks))"
  obtain st where st: "parse_block (delimiter csv) (rowsCount csv) (concat blocks) (parse_init csv) = Inr st"
    and csv': "csv' = parse_finish csv st"
    using assms(3) by (auto simp: parseData_def parse_blocks_concat rbind_Inr_conv)
  note facts = reload_block [OF assms(2) st reload_init]
  have "length (deque st) = unat (rowsCount csv) + 1 + ?k" "cur_col st = ?k"
    using facts assms(1) by (simp_all add: parse_init_def csv_wf_def)
  moreover have "rowsDeque csv' = butlast (deque st)"
    by (simp add: csv' parse_finish_def Let_def)
  moreover have "0 < unat (rowsCount csv)" using assms(2) by (simp add: unat_gt_0)
  ultimately show ?thesis using facts by (simp add: reload_ok_def nth_butlast)
qed

theorem reload_keeps_old_rows_witness:
  "\<exists>csv'. parseData (CSV (CHR '','') 1 1) [''a'' @ [CHR 0x0A]] = Inr csv'
     \<and> length (rowsDeque csv') = 2 \<and> padded 1 (rowsDeque csv' ! 0)"
proof -
  let ?csv = "CSV (CHR '','') 1 1"
  have "\<exists>csv'. parseData ?csv [''a'' @ [CHR 0x0A]] = Inr csv'"
    by (simp add: parseData_def parse_blocks_def parse_block_def parse_char_def end_field_def
        end_row_def parse_init_def CSV_def MAX_FIELD_SIZE_def)
  then obtain csv' where csv': "parseData ?csv [''a'' @ [CHR 0x0A]] = Inr csv'" ..
  have "rowsCount ?csv \<noteq> 0" by (simp add: CSV_def)
  from reload_keeps_old_rows [OF csv_wf_CSV this csv'] csv' show ?thesis
    by (simp add: CSV_def is_eol_def)
qed

text \<open>
  C39: \<open>loadFromFile\<close> reads one block only: everything behind the first 2048 bytes of a file is
  ignored, and a file that is shorter, or cannot be opened, is completed with what the
  uninitialised buffer holds.
\<close>

theorem loadFromFile_first_block:
  assumes "length junk = READ_BLOCK_SIZE"
  shows "loadFromFile csv (Some s) junk = parseData csv [take READ_BLOCK_SIZE s @ drop (length s) junk]
    \<and> loadFromFile csv None junk = parseData csv [junk]
    \<and> (READ_BLOCK_SIZE \<le> length s \<longrightarrow>
         loadFromFile csv (Some (s @ rest)) junk = loadFromFile csv (Some (take READ_BLOCK_SIZE s)) junk)"
  using assms by (simp add: loadFromFile_def loadFile_one_block)

theorem loadFromFile_first_block_witness:
  "loadFromFile default_CSV (Some (replicate READ_BLOCK_SIZE (CHR ''x'') @ ''lost''))
      (replicate READ_BLOCK_SIZE (CHR 0x00)) =
   loadFromFile default_CSV (Some (replicate READ_BLOCK_SIZE (CHR ''x'')))
      (replicate READ_BLOCK_SIZE (CHR 0x00))"
  using loadFromFile_first_block [of "replicate READ_BLOCK_SIZE (CHR 0x00)" default_CSV
      "replicate READ_BLOCK_SIZE (CHR ''x'')" "''lost''"]
  by simp

end
