(* ===== verification/String_Utils.thy ===== *)
theory String_Utils
  imports Server_Prelude
begin

text \<open>
  \<open>algo/StringUtils.cpp\<close>: trimming, and the conversion between time points and text.
  \<open>std::get_time\<close>, \<open>std::put_time\<close>, \<open>mktime\<close> and \<open>localtime\<close> are modelled for the conversion
  specifications the program uses (\<open>%d %m %Y %H %M %S\<close>, literal characters and white space), in
  the "C" locale and as the library of the supported platform reads them (a numeric field has its
  full width; the library's special case of a year of two digits is not modelled, the field does not
  match). The local time zone has the standard offset \<open>gmtoff\<close>, in seconds east of UTC, and daylight
  saving \<open>dst\<close>, the seconds added to it as a function of the time (\<open>0\<close> outside the summer). \<open>mktime\<close>
  uses the standard offset, because the program passes \<open>tm_isdst = 0\<close>; \<open>localtime\<close> adds the daylight
  saving of the time it converts. A \<open>system_clock\<close> time point is a count of nanoseconds in a signed
  64-bit integer on that platform. The random generator of Boost and the text of an identifier are
  parameters of \<open>genGuid\<close> (record \<open>uuid_lib\<close>).
\<close>

section \<open>Trimming\<close>

definition whitespace :: string where
  "whitespace = [CHR '' '', CHR 0x09, CHR 0x0C, CHR 0x0B, CHR 0x0A, CHR 0x0D]"

fun find_first_not_of :: "string \<Rightarrow> string \<Rightarrow> nat option" where
  "find_first_not_of cs [] = None"
| "find_first_not_of cs (x # xs) =
     (if x \<in> set cs then map_option Suc (find_first_not_of cs xs) else Some 0)"

definition find_last_not_of :: "string \<Rightarrow> string \<Rightarrow> nat option" where
  "find_last_not_of cs s = map_option (\<lambda>i. length s - 1 - i) (find_first_not_of cs (rev s))"

definition trim_whitespace :: "string \<Rightarrow> string result" where
  "trim_whitespace str =
     (case (find_first_not_of whitespace str, find_last_not_of whitespace str) of
        (Some start, Some en) \<Rightarrow> substr str start (en + 1)
      | _ \<Rightarrow> Inr [])"

section \<open>Calendar time\<close>

record tm =
  tm_sec :: int
  tm_min :: int
  tm_hour :: int
  tm_mday :: int
  tm_mon :: int
  tm_year :: int

definition zero_tm :: tm where
  "zero_tm = \<lparr>tm_sec = 0, tm_min = 0, tm_hour = 0, tm_mday = 0, tm_mon = 0, tm_year = 0\<rparr>"

definition leap_year :: "int \<Rightarrow> bool" where
  "leap_year y \<longleftrightarrow> 4 dvd y \<and> (\<not> 100 dvd y \<or> 400 dvd y)"

text \<open>Days from 1 January 1970 to 1 January of the year \<open>y\<close> (477 leap years end before 1970).\<close>

definition days_before_year :: "int \<Rightarrow> int" where
  "days_before_year y =
     365 * (y - 1970) + ((y - 1) div 4 - (y - 1) div 100 + (y - 1) div 400) - 477"

definition month_lengths :: "int \<Rightarrow> int list" where
  "month_lengths y = [31, if leap_year y then 29 else 28, 31, 30, 31, 30, 31, 31, 30, 31, 30, 31]"

definition day_number :: "tm \<Rightarrow> int" where
  "day_number t = days_before_year (tm_year t + 1900)
     + sum_list (take (nat (tm_mon t)) (month_lengths (tm_year t + 1900))) + tm_mday t - 1"

definition second_of_day :: "tm \<Rightarrow> int" where
  "second_of_day t = (tm_hour t * 60 + tm_min t) * 60 + tm_sec t"

definition mktime :: "int \<Rightarrow> tm \<Rightarrow> int" where
  "mktime gmtoff t = day_number t * 86400 + second_of_day t - gmtoff"

lemma div_pred:
  fixes n y :: int
  assumes "0 < n"
  shows "y div n = (y - 1) div n + (if n dvd y then 1 else 0)"
proof (cases "n dvd y")
  case True
  then obtain q where "y = n * q" by (elim dvdE)
  then have "y - 1 = n * (q - 1) + (n - 1)" by (simp add: algebra_simps)
  then have "(y - 1) div n = q - 1" by (rule int_div_pos_eq) (use assms in auto)
  with \<open>y = n * q\<close> assms show ?thesis by simp
next
  case False
  then have "y mod n \<noteq> 0" by (simp add: dvd_eq_mod_eq_0)
  moreover have "0 \<le> y mod n" "y mod n < n" using assms by simp_all
  ultimately have "0 \<le> y mod n - 1" "y mod n - 1 < n" by linarith+
  moreover have "y - 1 = n * (y div n) + (y mod n - 1)" by simp
  ultimately have "(y - 1) div n = y div n" by (intro int_div_pos_eq)
  with False show ?thesis by simp
qed

lemma leap_count:
  fixes a b c :: int
  assumes "a' = a + (if p then 1 else 0)" and "b' = b + (if q then 1 else 0)"
    and "c' = c + (if r then 1 else 0)" and "r \<Longrightarrow> q" and "q \<Longrightarrow> p"
  shows "a' - b' + c' = a - b + c + (if p \<and> (\<not> q \<or> r) then 1 else 0)"
  using assms by (cases p; cases q; cases r) simp_all

lemma century_dvd: "400 dvd y \<Longrightarrow> 100 dvd (y :: int)"
  by (erule dvd_trans [rotated]) (rule dvdI [where k = 4], simp)

lemma fourth_dvd: "100 dvd y \<Longrightarrow> 4 dvd (y :: int)"
  by (erule dvd_trans [rotated]) (rule dvdI [where k = 25], simp)

lemma days_before_next_year:
  "days_before_year (y + 1) = days_before_year y + (if leap_year y then 366 else 365)"
proof -
  have "y div 4 - y div 100 + y div 400 =
      (y - 1) div 4 - (y - 1) div 100 + (y - 1) div 400 + (if leap_year y then 1 else 0)"
    unfolding leap_year_def by (intro leap_count div_pred) (simp_all add: century_dvd fourth_dvd)
  then show ?thesis by (simp add: days_before_year_def)
qed

text \<open>The year of a day: the search starts at a lower bound.\<close>

function find_year :: "int \<Rightarrow> int \<Rightarrow> int" where
  "find_year d y = (if days_before_year (y + 1) \<le> d then find_year d (y + 1) else y)"
  by pat_completeness auto
termination
proof (relation "measure (\<lambda>(d, y). nat (d - days_before_year y + 1))")
  fix d y :: int
  assume "days_before_year (y + 1) \<le> d"
  moreover have "days_before_year y < days_before_year (y + 1)"
    by (simp add: days_before_next_year)
  ultimately show "((d, y + 1), (d, y)) \<in> measure (\<lambda>(d, y). nat (d - days_before_year y + 1))"
    by simp
qed simp

declare find_year.simps [simp del]

definition year_of_day :: "int \<Rightarrow> int" where
  "year_of_day d = find_year d (1970 + (if 0 \<le> d then d div 366 else d div 365))"

fun month_scan :: "int list \<Rightarrow> int \<Rightarrow> int \<Rightarrow> int \<times> int" where
  "month_scan [] m d = (m, d)"
| "month_scan (l # ls) m d = (if d < l then (m, d) else month_scan ls (m + 1) (d - l))"

definition localtime :: "int \<Rightarrow> (int \<Rightarrow> int) \<Rightarrow> int \<Rightarrow> tm" where
  "localtime gmtoff dst t =
     (let u = t + gmtoff + dst t; d = u div 86400; s = u mod 86400; y = year_of_day d;
          (m, md) = month_scan (month_lengths y) 0 (d - days_before_year y) in
      \<lparr>tm_sec = s mod 60, tm_min = s div 60 mod 60, tm_hour = s div 3600,
       tm_mday = md + 1, tm_mon = m, tm_year = y - 1900\<rparr>)"

section \<open>Reading and printing\<close>

definition is_space :: "char \<Rightarrow> bool" where
  "is_space c \<longleftrightarrow> c \<in> set whitespace"

definition get_num :: "nat \<Rightarrow> nat \<Rightarrow> nat \<Rightarrow> string \<Rightarrow> (int \<times> string) option" where
  "get_num width lo hi s =
     (let ds = take width s; v = string_to_nat ds in
      if length ds = width \<and> list_all is_digit ds \<and> lo \<le> v \<and> v \<le> hi
      then Some (int v, drop width s) else None)"

definition get_directive :: "char \<Rightarrow> string \<Rightarrow> tm \<Rightarrow> (tm \<times> string) option" where
  "get_directive c s t =
     (if c = CHR ''d'' then map_option (\<lambda>(v, r). (t\<lparr>tm_mday := v\<rparr>, r)) (get_num 2 1 31 s)
      else if c = CHR ''m'' then map_option (\<lambda>(v, r). (t\<lparr>tm_mon := v - 1\<rparr>, r)) (get_num 2 1 12 s)
      else if c = CHR ''Y'' then map_option (\<lambda>(v, r). (t\<lparr>tm_year := v - 1900\<rparr>, r)) (get_num 4 0 9999 s)
      else if c = CHR ''H'' then map_option (\<lambda>(v, r). (t\<lparr>tm_hour := v\<rparr>, r)) (get_num 2 0 23 s)
      else if c = CHR ''M'' then map_option (\<lambda>(v, r). (t\<lparr>tm_min := v\<rparr>, r)) (get_num 2 0 59 s)
      else if c = CHR ''S'' then map_option (\<lambda>(v, r). (t\<lparr>tm_sec := v\<rparr>, r)) (get_num 2 0 60 s)
      else None)"

text \<open>
  \<open>std::get_time\<close>: where the input does not match, reading stops and the members read so far
  stay.
\<close>

fun get_time :: "string \<Rightarrow> string \<Rightarrow> tm \<Rightarrow> tm" where
  "get_time [] s t = t"
| "get_time (f # fmt) s t =
     (if f = CHR ''%'' then
        (case fmt of [] \<Rightarrow> t
         | c # fmt' \<Rightarrow> (case get_directive c s t of None \<Rightarrow> t | Some (t', s') \<Rightarrow> get_time fmt' s' t'))
      else if is_space f then get_time fmt (dropWhile is_space s) t
      else (case s of [] \<Rightarrow> t | c # s' \<Rightarrow> if c = f then get_time fmt s' t else t))"

definition two_digits :: "int \<Rightarrow> string" where
  "two_digits v = [digit_char (nat v div 10 mod 10), digit_char (nat v mod 10)]"

definition put_directive :: "char \<Rightarrow> tm \<Rightarrow> string" where
  "put_directive c t =
     (if c = CHR ''d'' then two_digits (tm_mday t)
      else if c = CHR ''m'' then two_digits (tm_mon t + 1)
      else if c = CHR ''Y'' then int_to_string (tm_year t + 1900)
      else if c = CHR ''H'' then two_digits (tm_hour t)
      else if c = CHR ''M'' then two_digits (tm_min t)
      else if c = CHR ''S'' then two_digits (tm_sec t)
      else [])"

fun put_time :: "string \<Rightarrow> tm \<Rightarrow> string" where
  "put_time [] t = []"
| "put_time (f # fmt) t =
     (if f = CHR ''%'' then
        (case fmt of [] \<Rightarrow> [] | c # fmt' \<Rightarrow> put_directive c t @ put_time fmt' t)
      else f # put_time fmt t)"

section \<open>Time points\<close>

type_synonym time_point = int

definition fits_int64 :: "int \<Rightarrow> bool" where
  "fits_int64 i \<longleftrightarrow> - (2 ^ 63) \<le> i \<and> i < 2 ^ 63"

definition from_time_t :: "int \<Rightarrow> time_point result" where
  "from_time_t t = (if fits_int64 (t * 1000000000) then Inr (t * 1000000000) else Inl Signed_Overflow)"

text \<open>\<open>duration_cast\<close> truncates towards zero.\<close>

definition to_time_t :: "time_point \<Rightarrow> int" where
  "to_time_t tp = sgn tp * (\<bar>tp\<bar> div 1000000000)"

definition default_format :: string where
  "default_format = ''%d.%m.%Y %H:%M:%S''"

definition dateTimeFromStr :: "int \<Rightarrow> string \<Rightarrow> string \<Rightarrow> time_point result" where
  "dateTimeFromStr gmtoff date format =
     from_time_t (mktime gmtoff (get_time format (dropWhile is_space date) zero_tm))"

definition dateToStr :: "int \<Rightarrow> (int \<Rightarrow> int) \<Rightarrow> time_point \<Rightarrow> string \<Rightarrow> string" where
  "dateToStr gmtoff dst tp format = put_time format (localtime gmtoff dst (to_time_t tp))"

definition currentDateTime :: "int \<Rightarrow> (int \<Rightarrow> int) \<Rightarrow> time_point \<Rightarrow> string" where
  "currentDateTime gmtoff dst now = dateToStr gmtoff dst now default_format"

section \<open>Identifiers\<close>

text \<open>
  \<open>boost::uuids::random_generator\<close>, a draw from a source of randomness \<open>'g\<close>, and
  \<open>boost::lexical_cast<std::string>\<close> on an identifier.
\<close>

record ('g, 'u) uuid_lib =
  random_generator :: "'g \<Rightarrow> 'u \<times> 'g"
  uuid_to_string :: "'u \<Rightarrow> string"

definition genBoostGuid :: "('g, 'u) uuid_lib \<Rightarrow> 'g \<Rightarrow> 'u \<times> 'g" where
  "genBoostGuid lib g = random_generator lib g"

definition genGuid :: "('g, 'u) uuid_lib \<Rightarrow> 'g \<Rightarrow> string \<times> 'g" where
  "genGuid lib g = (case genBoostGuid lib g of (u, g') \<Rightarrow> (uuid_to_string lib u, g'))"

section \<open>Valid times\<close>

text \<open>A broken-down time with every member in its range.\<close>

definition tm_valid :: "tm \<Rightarrow> bool" where
  "tm_valid t \<longleftrightarrow> 0 \<le> tm_sec t \<and> tm_sec t < 60 \<and> 0 \<le> tm_min t \<and> tm_min t < 60
     \<and> 0 \<le> tm_hour t \<and> tm_hour t < 24 \<and> 0 \<le> tm_mon t \<and> tm_mon t < 12
     \<and> 1 \<le> tm_mday t \<and> tm_mday t \<le> month_lengths (tm_year t + 1900) ! nat (tm_mon t)"

section \<open>Calendar lemmas\<close>

lemma days_before_year_mono: "y \<le> y' \<Longrightarrow> days_before_year y \<le> days_before_year y'"
  by (induction y' rule: int_ge_induct) (auto simp: days_before_next_year)

lemma days_before_year_1970: "days_before_year 1970 = 0"
  by (simp add: days_before_year_def)

lemma days_before_year_upper: "1970 \<le> y \<Longrightarrow> days_before_year y \<le> 366 * (y - 1970)"
  by (induction y rule: int_ge_induct) (auto simp: days_before_next_year days_before_year_1970)

lemma days_before_year_lower: "y \<le> 1970 \<Longrightarrow> days_before_year y \<le> 365 * (y - 1970)"
proof (induction y rule: int_le_induct)
  case base
  then show ?case by (simp add: days_before_year_1970)
next
  case (step y)
  then show ?case using days_before_next_year [of "y - 1"] by (auto split: if_splits)
qed

lemma sum_month_lengths: "sum_list (month_lengths y) = (if leap_year y then 366 else 365)"
  by (simp add: month_lengths_def)


lemma find_year_bounds:
  assumes "days_before_year y \<le> d"
  shows "days_before_year (find_year d y) \<le> d \<and> d < days_before_year (find_year d y + 1)"
  using assms
proof (induction d y rule: find_year.induct)
  case (1 d y)
  then show ?case
    by (cases "days_before_year (y + 1) \<le> d") (auto simp: find_year.simps [of d y])
qed

lemma year_of_day_bounds:
  "days_before_year (year_of_day d) \<le> d \<and> d < days_before_year (year_of_day d + 1)"
proof -
  have "days_before_year (1970 + (if 0 \<le> d then d div 366 else d div 365)) \<le> d"
  proof (cases "0 \<le> d")
    case True
    then have "days_before_year (1970 + d div 366) \<le> 366 * (d div 366)"
      using days_before_year_upper [of "1970 + d div 366"] by (simp add: pos_imp_zdiv_nonneg_iff)
    also have "\<dots> \<le> d" by simp
    finally show ?thesis using True by simp
  next
    case False
    then have "d div 365 \<le> 0" by (simp add: div_nonpos_pos_le0)
    then have "days_before_year (1970 + d div 365) \<le> 365 * (d div 365)"
      using days_before_year_lower [of "1970 + d div 365"] by simp
    also have "\<dots> \<le> d" by simp
    finally show ?thesis using False by simp
  qed
  then show ?thesis unfolding year_of_day_def by (rule find_year_bounds)
qed

lemma year_of_day_unique:
  assumes "days_before_year y \<le> d" and "d < days_before_year (y + 1)"
  shows "year_of_day d = y"
proof (rule ccontr)
  assume "year_of_day d \<noteq> y"
  then consider "year_of_day d + 1 \<le> y" | "y + 1 \<le> year_of_day d" by linarith
  then show False
    using days_before_year_mono assms year_of_day_bounds [of d] by cases force+
qed

lemma month_scan_take:
  assumes "k < length ls" and "0 \<le> e" and "e < ls ! k" and "list_all (\<lambda>l. 0 \<le> l) ls"
  shows "month_scan ls m (sum_list (take k ls) + e) = (m + int k, e)"
  using assms
proof (induction ls arbitrary: k m)
  case Nil
  then show ?case by simp
next
  case (Cons l ls)
  show ?case
  proof (cases k)
    case 0
    with Cons.prems show ?thesis by simp
  next
    case (Suc k')
    have "0 \<le> sum_list (take k' ls)"
      using Cons.prems by (auto simp: list_all_iff intro!: sum_list_nonneg dest: in_set_takeD)
    with Cons Suc show ?thesis by (simp add: add.assoc)
  qed
qed

lemma month_lengths_nonneg: "list_all (\<lambda>l. 0 \<le> l) (month_lengths y)"
  by (simp add: month_lengths_def)

lemma sum_take_month:
  assumes "k < 12" and "e < month_lengths y ! k"
  shows "sum_list (take k (month_lengths y)) + e < (if leap_year y then 366 else 365)"
proof -
  have len: "length (month_lengths y) = 12" by (simp add: month_lengths_def)
  have "month_lengths y = take k (month_lengths y) @ month_lengths y ! k # drop (Suc k) (month_lengths y)"
    using assms(1) len by (simp add: id_take_nth_drop)
  then have "sum_list (month_lengths y) =
      sum_list (take k (month_lengths y)) + month_lengths y ! k + sum_list (drop (Suc k) (month_lengths y))"
    by (metis add.assoc sum_list.Cons sum_list.append)
  moreover have "0 \<le> sum_list (drop (Suc k) (month_lengths y))"
    using month_lengths_nonneg [of y]
    by (auto simp: list_all_iff intro!: sum_list_nonneg dest: in_set_dropD)
  ultimately show ?thesis using assms(2) sum_month_lengths [of y] by linarith
qed

lemma tm_valid_day:
  assumes "tm_valid t"
  shows "days_before_year (tm_year t + 1900) \<le> day_number t"
    and "day_number t < days_before_year (tm_year t + 1900 + 1)"
    and "month_scan (month_lengths (tm_year t + 1900)) 0
      (day_number t - days_before_year (tm_year t + 1900)) = (tm_mon t, tm_mday t - 1)"
proof -
  let ?y = "tm_year t + 1900" and ?k = "nat (tm_mon t)"
  have k: "?k < 12" "int ?k = tm_mon t" using assms by (auto simp: tm_valid_def)
  have e: "0 \<le> tm_mday t - 1" "tm_mday t - 1 < month_lengths ?y ! ?k"
    using assms by (auto simp: tm_valid_def)
  have "0 \<le> sum_list (take ?k (month_lengths ?y))"
    using month_lengths_nonneg [of ?y]
    by (auto simp: list_all_iff intro!: sum_list_nonneg dest: in_set_takeD)
  then show "days_before_year ?y \<le> day_number t"
    using e by (simp add: day_number_def)
  show "day_number t < days_before_year (?y + 1)"
    using sum_take_month [OF k(1) e(2)] unfolding day_number_def days_before_next_year by linarith
  have "length (month_lengths ?y) = 12" by (simp add: month_lengths_def)
  then show "month_scan (month_lengths ?y) 0 (day_number t - days_before_year ?y) = (tm_mon t, tm_mday t - 1)"
    using month_scan_take [of ?k "month_lengths ?y" "tm_mday t - 1" 0] k e month_lengths_nonneg [of ?y]
    by (simp add: day_number_def algebra_simps)
qed

lemma tm_valid_second:
  assumes "tm_valid t"
  shows "0 \<le> second_of_day t" "second_of_day t < 86400"
  using assms by (auto simp: tm_valid_def second_of_day_def)

lemma second_of_day_split:
  assumes "tm_valid t"
  shows "second_of_day t mod 60 = tm_sec t" "second_of_day t div 60 mod 60 = tm_min t"
    "second_of_day t div 3600 = tm_hour t"
proof -
  let ?x = "tm_hour t * 60 + tm_min t"
  have s: "0 \<le> tm_sec t" "tm_sec t < 60" and m: "0 \<le> tm_min t" "tm_min t < 60"
    using assms by (auto simp: tm_valid_def)
  have sod: "second_of_day t = 60 * ?x + tm_sec t" by (simp add: second_of_day_def)
  show "second_of_day t mod 60 = tm_sec t"
    unfolding sod mult.commute [of 60] using s by (simp only: mod_mult_self3 mod_pos_pos_trivial)
  have d: "second_of_day t div 60 = ?x" using s by (intro int_div_pos_eq [OF sod]) auto
  show "second_of_day t div 60 mod 60 = tm_min t" unfolding d using m by simp
  have "second_of_day t div 3600 = second_of_day t div 60 div 60"
    by (simp add: zdiv_zmult2_eq [symmetric])
  also have "\<dots> = tm_hour t" unfolding d using m by (intro int_div_pos_eq [of _ 60 _ "tm_min t"]) auto
  finally show "second_of_day t div 3600 = tm_hour t" .
qed

text \<open>Local time is the broken-down time whose standard time is later by the daylight saving.\<close>

lemma localtime_mktime:
  assumes "tm_valid u" and "mktime gmtoff u = t + dst t"
  shows "localtime gmtoff dst t = u"
proof -
  note sod = tm_valid_second [OF assms(1)]
  have u: "t + gmtoff + dst t = 86400 * day_number u + second_of_day u"
    using assms(2) by (simp add: mktime_def)
  have d: "(t + gmtoff + dst t) div 86400 = day_number u"
    using sod by (intro int_div_pos_eq [OF u]) auto
  have s: "(t + gmtoff + dst t) mod 86400 = second_of_day u"
    using sod unfolding u by simp
  have y: "year_of_day (day_number u) = tm_year u + 1900"
    by (rule year_of_day_unique) (use tm_valid_day [OF assms(1)] in auto)
  show ?thesis
    unfolding localtime_def Let_def d s y tm_valid_day(3) [OF assms(1)]
    using second_of_day_split [OF assms(1)] by simp
qed

text \<open>Chronological order of broken-down times, most significant member first.\<close>

definition tm_before :: "tm \<Rightarrow> tm \<Rightarrow> bool" where
  "tm_before t u \<longleftrightarrow>
     tm_year t < tm_year u \<or> (tm_year t = tm_year u \<and>
     (tm_mon t < tm_mon u \<or> (tm_mon t = tm_mon u \<and>
     (tm_mday t < tm_mday u \<or> (tm_mday t = tm_mday u \<and> second_of_day t < second_of_day u)))))"

lemma month_before:
  assumes "tm_valid t" and "tm_valid u" and "tm_year t = tm_year u" and "tm_mon t < tm_mon u"
  shows "day_number t < day_number u"
proof -
  let ?L = "month_lengths (tm_year u + 1900)"
  obtain j where j: "nat (tm_mon u) = Suc (nat (tm_mon t)) + j"
    using assms by (metis Suc_leI le_Suc_ex nat_less_eq_zless tm_valid_def)
  have len: "length ?L = 12" "nat (tm_mon t) < 12"
    using assms(1) by (auto simp: month_lengths_def tm_valid_def)
  have "take (Suc (nat (tm_mon t)) + j) ?L =
      take (nat (tm_mon t)) ?L @ ?L ! nat (tm_mon t) # take j (drop (Suc (nat (tm_mon t))) ?L)"
    using len by (simp add: take_add take_Suc_conv_app_nth del: take_Suc add_Suc)
  then have "sum_list (take (nat (tm_mon u)) ?L) =
      sum_list (take (nat (tm_mon t)) ?L) + ?L ! nat (tm_mon t)
        + sum_list (take j (drop (Suc (nat (tm_mon t))) ?L))"
    unfolding j by simp
  moreover have "0 \<le> sum_list (take j (drop (Suc (nat (tm_mon t))) ?L))"
    using month_lengths_nonneg [of "tm_year u + 1900"]
    by (auto simp: list_all_iff intro!: sum_list_nonneg dest: in_set_takeD in_set_dropD)
  ultimately show ?thesis
    using assms by (simp add: day_number_def tm_valid_def)
qed

lemma mktime_before:
  assumes "tm_valid t" and "tm_valid u" and "tm_before t u"
  shows "mktime gmtoff t < mktime gmtoff u"
proof -
  have "day_number t < day_number u \<or> day_number t = day_number u \<and> second_of_day t < second_of_day u"
  proof (cases "tm_year t < tm_year u")
    case True
    then have "days_before_year (tm_year t + 1900 + 1) \<le> days_before_year (tm_year u + 1900)"
      by (intro days_before_year_mono) simp
    then show ?thesis
      using tm_valid_day(2) [OF assms(1)] tm_valid_day(1) [OF assms(2)] by linarith
  next
    case False
    then show ?thesis
      using assms month_before [OF assms(1,2)] by (auto simp: tm_before_def day_number_def)
  qed
  then show ?thesis
    using tm_valid_second [OF assms(1)] tm_valid_second [OF assms(2)]
    by (auto simp: mktime_def)
qed

section \<open>Printing and reading back\<close>

lemma get_num_two_digits:
  assumes "0 \<le> v" and "v < 100" and "int lo \<le> v" and "v \<le> int hi"
  shows "get_num 2 lo hi (two_digits v @ r) = Some (v, r)"
proof -
  have "string_to_nat (two_digits v) = nat v"
    using assms(1,2) by (simp add: two_digits_def string_to_nat_def nat_less_iff)
  then show ?thesis
    using assms by (simp add: get_num_def two_digits_def le_nat_iff nat_le_iff)
qed

lemma get_num_None: "\<not> is_digit (hd s) \<or> s = [] \<Longrightarrow> get_num 2 lo hi s = None"
  by (cases s) (auto simp: get_num_def Let_def)

lemma nat_to_string_four:
  assumes "1000 \<le> n" and "n \<le> 9999"
  shows "nat_to_string n = [digit_char (n div 1000), digit_char (n div 100 mod 10),
    digit_char (n div 10 mod 10), digit_char (n mod 10)]"
proof -
  have "n div 10 div 10 = n div 100" "n div 100 div 10 = n div 1000"
    by (simp_all add: div_mult2_eq [symmetric])
  moreover have "\<not> n < 10" "\<not> n div 10 < 10" "\<not> n div 100 < 10" "n div 1000 < 10"
    using assms by auto
  ultimately show ?thesis
    using nat_to_string.simps [of n] nat_to_string.simps [of "n div 10"]
      nat_to_string.simps [of "n div 100"] nat_to_string.simps [of "n div 1000"]
    by simp
qed

lemma get_num_year:
  assumes "1000 \<le> v" and "v \<le> 9999"
  shows "get_num 4 0 9999 (int_to_string v @ r) = Some (v, r)"
proof -
  have n: "1000 \<le> nat v" "nat v \<le> 9999" using assms by auto
  have "string_to_nat (int_to_string v) = nat v" using assms by (simp add: int_to_string_def)
  moreover have "length (int_to_string v) = 4"
    using assms nat_to_string_four [OF n] by (simp add: int_to_string_def)
  moreover have "list_all is_digit (int_to_string v)"
    using assms by (auto simp: int_to_string_def list_all_iff dest: nat_to_string_digits)
  ultimately show ?thesis using assms by (simp add: get_num_def Let_def)
qed

lemma is_digit_not_space: "is_digit c \<Longrightarrow> \<not> is_space c"
  by (auto simp: is_digit_def is_space_def whitespace_def)

lemma dropWhile_two_digits [simp]: "dropWhile is_space (two_digits v @ r) = two_digits v @ r"
  by (simp add: two_digits_def is_digit_not_space)

lemma tm_valid_mday: "tm_valid t \<Longrightarrow> tm_mday t \<le> 31"
proof -
  assume t: "tm_valid t"
  then have "nat (tm_mon t) < length (month_lengths (tm_year t + 1900))"
    by (auto simp: tm_valid_def month_lengths_def)
  then have "month_lengths (tm_year t + 1900) ! nat (tm_mon t) \<in> set (month_lengths (tm_year t + 1900))"
    by (rule nth_mem)
  then have "month_lengths (tm_year t + 1900) ! nat (tm_mon t) \<le> 31"
    by (auto simp: month_lengths_def)
  with t show ?thesis by (simp add: tm_valid_def)
qed

lemma put_default:
  "put_time default_format t =
     two_digits (tm_mday t) @ CHR ''.'' # two_digits (tm_mon t + 1) @ CHR ''.'' #
     int_to_string (tm_year t + 1900) @ CHR '' '' # two_digits (tm_hour t) @ CHR '':'' #
     two_digits (tm_min t) @ CHR '':'' # two_digits (tm_sec t)"
  by (simp add: default_format_def put_directive_def)

lemma get_put_default:
  assumes "tm_valid t" and "1000 \<le> tm_year t + 1900" and "tm_year t + 1900 \<le> 9999"
  shows "get_time default_format (dropWhile is_space (put_time default_format t)) t0 = t"
proof -
  note v = assms(1) [unfolded tm_valid_def] tm_valid_mday [OF assms(1)]
  have nums: "get_num 2 (Suc 0) 31 (two_digits (tm_mday t) @ r) = Some (tm_mday t, r)"
    "get_num 2 (Suc 0) 12 (two_digits (tm_mon t + 1) @ r) = Some (tm_mon t + 1, r)"
    "get_num 2 0 23 (two_digits (tm_hour t) @ r) = Some (tm_hour t, r)"
    "get_num 2 0 59 (two_digits (tm_min t) @ r) = Some (tm_min t, r)"
    "get_num 2 0 60 (two_digits (tm_sec t) @ r) = Some (tm_sec t, r)" for r
    using v by (auto intro!: get_num_two_digits)
  have spaces: "is_space (CHR '' '')" "\<not> is_space (CHR ''.'')" "\<not> is_space (CHR '':'')"
    by (simp_all add: is_space_def whitespace_def)
  show ?thesis
    using nums(5) [of "[]"]
    by (simp add: put_default) (simp add: default_format_def get_directive_def nums spaces
        get_num_year [OF assms(2,3)])
qed

lemma mktime_range:
  assumes "tm_valid t" and "1678 \<le> tm_year t + 1900" and "tm_year t + 1900 \<le> 2261"
    and "\<bar>gmtoff\<bar> \<le> 86400"
  shows "fits_int64 (mktime gmtoff t * 1000000000)"
proof -
  have "days_before_year 1678 \<le> day_number t"
    using days_before_year_mono [OF assms(2)] tm_valid_day(1) [OF assms(1)] by linarith
  moreover have "day_number t < days_before_year 2262"
    using days_before_year_mono [of "tm_year t + 1900 + 1" 2262] assms(3) tm_valid_day(2) [OF assms(1)]
    by linarith
  ultimately have "- 106650 \<le> day_number t" "day_number t < 106651"
    by (simp_all add: days_before_year_def)
  then show ?thesis
    using tm_valid_second [OF assms(1)] assms(4) by (auto simp: fits_int64_def mktime_def)
qed

lemma to_time_t_from: "from_time_t t = Inr tp \<Longrightarrow> to_time_t tp = t"
  by (auto simp: from_time_t_def to_time_t_def sgn_mult abs_mult split: if_splits)
    (simp add: sgn_if abs_if split: if_splits)

lemma find_first_not_of_append:
  "set w \<subseteq> set cs \<Longrightarrow> c \<notin> set cs \<Longrightarrow> find_first_not_of cs (w @ c # r) = Some (length w)"
  by (induction w) auto

lemma find_first_not_of_None: "set w \<subseteq> set cs \<Longrightarrow> find_first_not_of cs w = None"
  by (induction w) auto

section \<open>Properties\<close>

text \<open>
  \<open>trim_whitespace\<close> passes the end index where \<open>substr\<close> expects a length: the text between
  the outer white space is kept and the leading white space removed, but as many trailing white
  space characters stay as there were leading ones; a text of white space only gives the empty
  string. So it trims correctly exactly when one of the two sides has none.
\<close>

theorem trim_whitespace_keeps_tail:
  assumes "set w1 \<subseteq> set whitespace" and "set w2 \<subseteq> set whitespace"
    and "core \<noteq> []" and "hd core \<notin> set whitespace" and "last core \<notin> set whitespace"
  shows "trim_whitespace (w1 @ core @ w2) = Inr (core @ take (length w1) w2)
    \<and> trim_whitespace w1 = Inr []
    \<and> (trim_whitespace (w1 @ core @ w2) = Inr core \<longleftrightarrow> w1 = [] \<or> w2 = [])"
proof -
  obtain c cs where core: "core = c # cs" "c \<notin> set whitespace" using assms(3,4) by (cases core) auto
  obtain ds d where core': "core = ds @ [d]" "d \<notin> set whitespace"
    using assms(3,5) by (metis append_butlast_last_id)
  have "find_first_not_of whitespace (w1 @ core @ w2) = Some (length w1)"
    using find_first_not_of_append [OF assms(1) core(2), of "cs @ w2"] core(1) by simp
  moreover have "find_first_not_of whitespace (rev (w1 @ core @ w2)) = Some (length w2)"
    using find_first_not_of_append [of "rev w2" whitespace d "rev ds @ rev w1"] assms(2) core' by simp
  then have "find_last_not_of whitespace (w1 @ core @ w2) = Some (length w1 + length core - 1)"
    using assms(3) by (simp add: find_last_not_of_def)
  moreover have "0 < length core" using assms(3) by simp
  ultimately have "trim_whitespace (w1 @ core @ w2) = Inr (core @ take (length w1) w2)"
    by (simp add: trim_whitespace_def substr_def)
  moreover have "trim_whitespace w1 = Inr []"
    using find_first_not_of_None [OF assms(1)] by (simp add: trim_whitespace_def)
  ultimately show ?thesis by auto
qed

theorem trim_whitespace_keeps_tail_witness:
  "trim_whitespace '' a b  '' = Inr ''a b ''"
  using trim_whitespace_keeps_tail [of "'' ''" "''  ''" "''a b''"] by (simp add: whitespace_def)

text \<open>
  C17: printing any valid time of the years 1678 to 2261 in the program's format and parsing the
  text gives a time point (nanoseconds in 64 bits do not overflow) whose seconds are those of the
  broken-down time in local standard time. Printed again, the time point gives the same text when no
  daylight saving is in force at that time; in general it gives the text of the time that is later
  by the daylight saving, so a date in summer prints shifted.
\<close>

theorem date_string_roundtrip:
  assumes "tm_valid t" and "1678 \<le> tm_year t + 1900" and "tm_year t + 1900 \<le> 2261"
    and "\<bar>gmtoff\<bar> \<le> 86400"
  shows "\<exists>tp. dateTimeFromStr gmtoff (put_time default_format t) default_format = Inr tp
    \<and> to_time_t tp = mktime gmtoff t
    \<and> (dst (mktime gmtoff t) = 0 \<longrightarrow> dateToStr gmtoff dst tp default_format = put_time default_format t)
    \<and> (\<forall>u. tm_valid u \<and> mktime gmtoff u = mktime gmtoff t + dst (mktime gmtoff t) \<longrightarrow>
         dateToStr gmtoff dst tp default_format = put_time default_format u)"
proof -
  have "get_time default_format (dropWhile is_space (put_time default_format t)) zero_tm = t"
    using assms by (intro get_put_default) auto
  then have "dateTimeFromStr gmtoff (put_time default_format t) default_format =
      Inr (mktime gmtoff t * 1000000000)"
    using mktime_range [OF assms] by (simp add: dateTimeFromStr_def from_time_t_def)
  moreover have "to_time_t (mktime gmtoff t * 1000000000) = mktime gmtoff t"
    using mktime_range [OF assms] by (intro to_time_t_from) (simp add: from_time_t_def)
  moreover have "localtime gmtoff dst (mktime gmtoff t) = t" if "dst (mktime gmtoff t) = 0"
    using that assms(1) by (simp add: localtime_mktime)
  ultimately show ?thesis
    by (auto simp: dateToStr_def localtime_mktime)
qed

text \<open>A zone one hour east of UTC with summer time in 2019: a date in winter and one in summer.\<close>

definition summer_2019 :: "int \<Rightarrow> int" where
  "summer_2019 t = (if 1553994000 \<le> t \<and> t < 1572138000 then 3600 else 0)"

theorem date_string_roundtrip_witness:
  "(\<exists>tp. dateTimeFromStr 3600 ''20.10.1995 22:15:14'' default_format = Inr tp
      \<and> dateToStr 3600 summer_2019 tp default_format = ''20.10.1995 22:15:14'')
   \<and> (\<exists>tp. dateTimeFromStr 3600 ''15.07.2019 12:00:00'' default_format = Inr tp
      \<and> dateToStr 3600 summer_2019 tp default_format = ''15.07.2019 13:00:00'')"
proof -
  let ?t = "\<lparr>tm_sec = 14, tm_min = 15, tm_hour = 22, tm_mday = 20, tm_mon = 9, tm_year = 95\<rparr>"
  let ?s = "\<lparr>tm_sec = 0, tm_min = 0, tm_hour = 12, tm_mday = 15, tm_mon = 6, tm_year = 119\<rparr>"
  let ?u = "?s\<lparr>tm_hour := 13\<rparr>"
  have p: "put_time default_format ?t = ''20.10.1995 22:15:14''"
    "put_time default_format ?s = ''15.07.2019 12:00:00''"
    "put_time default_format ?u = ''15.07.2019 13:00:00''"
    by code_simp+
  have v: "tm_valid ?t" "tm_valid ?s" "tm_valid ?u" by (simp_all add: tm_valid_def month_lengths_def)
  have d: "summer_2019 (mktime 3600 ?t) = 0" "mktime 3600 ?u = mktime 3600 ?s + summer_2019 (mktime 3600 ?s)"
    by code_simp+
  have t: "\<exists>tp. dateTimeFromStr 3600 ''20.10.1995 22:15:14'' default_format = Inr tp
      \<and> dateToStr 3600 summer_2019 tp default_format = ''20.10.1995 22:15:14''"
    using date_string_roundtrip [OF v(1), of 3600 summer_2019] d(1) unfolding p by auto
  have s: "\<exists>tp. dateTimeFromStr 3600 ''15.07.2019 12:00:00'' default_format = Inr tp
      \<and> dateToStr 3600 summer_2019 tp default_format = ''15.07.2019 13:00:00''"
    using date_string_roundtrip [OF v(2), of 3600 summer_2019] d(2) v(3) unfolding p(2,3) [symmetric] by auto
  from t s show ?thesis ..
qed

text \<open>
  C31: parsing respects time: of two valid times in that range, the text of the earlier one (by
  year, month, day and second of the day) parses to the smaller time point.
\<close>

theorem date_parse_monotone:
  assumes "tm_valid t" and "1678 \<le> tm_year t + 1900" and "tm_year t + 1900 \<le> 2261"
    and "tm_valid u" and "1678 \<le> tm_year u + 1900" and "tm_year u + 1900 \<le> 2261"
    and "\<bar>gmtoff\<bar> \<le> 86400" and "tm_before t u"
  shows "\<exists>tp up. dateTimeFromStr gmtoff (put_time default_format t) default_format = Inr tp
    \<and> dateTimeFromStr gmtoff (put_time default_format u) default_format = Inr up \<and> tp < up"
proof -
  have "get_time default_format (dropWhile is_space (put_time default_format t)) zero_tm = t"
    "get_time default_format (dropWhile is_space (put_time default_format u)) zero_tm = u"
    using assms by (auto intro!: get_put_default)
  then show ?thesis
    using mktime_range [OF assms(1-3,7)] mktime_range [OF assms(4-7)]
      mktime_before [OF assms(1,4,8), of gmtoff]
    by (simp add: dateTimeFromStr_def from_time_t_def)
qed


theorem date_parse_monotone_witness:
  "\<exists>tp up. dateTimeFromStr 0 ''31.12.2018 23:59:59'' default_format = Inr tp
    \<and> dateTimeFromStr 0 ''01.01.2019 00:00:00'' default_format = Inr up \<and> tp < up"
proof -
  let ?t = "\<lparr>tm_sec = 59, tm_min = 59, tm_hour = 23, tm_mday = 31, tm_mon = 11, tm_year = 118\<rparr>"
    and ?u = "\<lparr>tm_sec = 0, tm_min = 0, tm_hour = 0, tm_mday = 1, tm_mon = 0, tm_year = 119\<rparr>"
  have p: "put_time default_format ?t = ''31.12.2018 23:59:59''"
    "put_time default_format ?u = ''01.01.2019 00:00:00''"
    by code_simp+
  have v: "tm_valid ?t" "tm_valid ?u" "tm_before ?t ?u"
    by (simp_all add: tm_valid_def month_lengths_def tm_before_def)
  from date_parse_monotone [OF v(1) _ _ v(2) _ _ _ v(3), of 0] show ?thesis by (simp add: p)
qed

text \<open>
  A text that does not start with a digit is not rejected: the broken-down time stays zero,
  which \<open>mktime\<close> reads as 31 December 1899, a time point before the epoch in every zone.
\<close>

theorem unparsable_date_is_before_epoch:
  assumes "\<bar>gmtoff\<bar> \<le> 86400" and "\<not> is_digit (hd (dropWhile is_space date)) \<or> dropWhile is_space date = []"
  shows "\<exists>tp. dateTimeFromStr gmtoff date default_format = Inr tp \<and> tp < 0
    \<and> to_time_t tp = - 25568 * 86400 - gmtoff"
proof -
  have "get_num 2 (Suc 0) 31 (dropWhile is_space date) = None"
    using assms(2) by (intro get_num_None) blast
  then have "get_time default_format (dropWhile is_space date) zero_tm = zero_tm"
    by (simp add: default_format_def get_directive_def)
  moreover have m: "mktime gmtoff zero_tm = - 25568 * 86400 - gmtoff"
    by (simp add: mktime_def day_number_def second_of_day_def zero_tm_def days_before_year_def)
  moreover have "fits_int64 (mktime gmtoff zero_tm * 1000000000)" "mktime gmtoff zero_tm < 0"
    using assms(1) unfolding m by (auto simp: fits_int64_def)
  ultimately show ?thesis
    using to_time_t_from [of "mktime gmtoff zero_tm"]
    by (simp add: dateTimeFromStr_def from_time_t_def)
qed

theorem unparsable_date_is_before_epoch_witness:
  "\<exists>tp. dateTimeFromStr 7200 ''n/a'' default_format = Inr tp \<and> tp < 0"
  using unparsable_date_is_before_epoch [of 7200 "''n/a''"]
  by (auto simp: is_space_def whitespace_def is_digit_def)

end
