(* ===== verification/Dispatch_Queue.thy ===== *)
theory Dispatch_Queue
  imports Server_Prelude
begin

text \<open>
  \<open>algo/DispatchQueue\<close>: a queue of callbacks that worker threads drain in \<open>dispatch_loop\<close>, or
  that a caller drains in \<open>DispatchQueued\<close> when the queue was made with no threads (the sessions
  of the server do that).

  The first part is the sequential view: the object and its operations. A callback runs without
  the lock and may change anything, the queue included, so \<open>DispatchQueued\<close> works on a state
  \<open>'s\<close> of the caller that contains the queue; \<open>None\<close> is a loop that never ends. What a client of
  the loop has to provide is the locale \<open>queue_client\<close>.

  The second part is the concurrent view: the worker threads and the threads that call
  \<open>dispatch\<close>, \<open>clear\<close> and the destructor, interleaved. A critical section under \<open>lock_\<close> is one
  step. \<open>notify_all\<close> comes after the unlock, so it is a step of its own; \<open>notices\<close> counts the
  calls that are still to be made. A worker is ready to enter its critical section, asleep on
  the condition variable, running a callback, or has left the loop.
\<close>

section \<open>The queue object\<close>

record 'cb dispatch_queue =
  queue_name :: string
  thread_cnt :: nat
  callbacksQueue :: "'cb list"
  quit :: bool

definition DispatchQueue :: "string \<Rightarrow> nat \<Rightarrow> 'cb dispatch_queue" where
  "DispatchQueue nm cnt = \<lparr>queue_name = nm, thread_cnt = cnt, callbacksQueue = [], quit = False\<rparr>"

definition dispatch :: "'cb \<Rightarrow> 'cb dispatch_queue \<Rightarrow> 'cb dispatch_queue" where
  "dispatch op q = q\<lparr>callbacksQueue := callbacksQueue q @ [op]\<rparr>"

definition pop_callback :: "'cb dispatch_queue \<Rightarrow> 'cb dispatch_queue" where
  "pop_callback q = q\<lparr>callbacksQueue := tl (callbacksQueue q)\<rparr>"

fun pop_all :: "'cb list \<Rightarrow> 'cb list" where
  "pop_all [] = []"
| "pop_all (cb # cbs) = pop_all cbs"

definition clear :: "'cb dispatch_queue \<Rightarrow> 'cb dispatch_queue" where
  "clear q = q\<lparr>callbacksQueue := pop_all (callbacksQueue q)\<rparr>"

definition isEmpty :: "'cb dispatch_queue \<Rightarrow> bool" where
  "isEmpty q \<longleftrightarrow> thread_cnt q = 0"

text \<open>One pass through the body of the \<open>do\<close> loop of \<open>DispatchQueued\<close>.\<close>

definition dispatch_one ::
    "('s \<Rightarrow> 'cb dispatch_queue) \<Rightarrow> (('cb dispatch_queue \<Rightarrow> 'cb dispatch_queue) \<Rightarrow> 's \<Rightarrow> 's) \<Rightarrow>
     ('cb \<Rightarrow> 's \<Rightarrow> 's result) \<Rightarrow> 's \<Rightarrow> 's result" where
  "dispatch_one get upd exec s =
     (if \<not> quit (get s) \<and> callbacksQueue (get s) \<noteq> []
      then exec (hd (callbacksQueue (get s))) (upd pop_callback s) else Inr s)"

partial_function (option) DispatchQueued ::
    "('s \<Rightarrow> 'cb dispatch_queue) \<Rightarrow> (('cb dispatch_queue \<Rightarrow> 'cb dispatch_queue) \<Rightarrow> 's \<Rightarrow> 's) \<Rightarrow>
     ('cb \<Rightarrow> 's \<Rightarrow> 's result) \<Rightarrow> 's \<Rightarrow> 's result option" where
  "DispatchQueued get upd exec s =
     (case dispatch_one get upd exec s of
        Inl e \<Rightarrow> Some (Inl e)
      | Inr s' \<Rightarrow>
          if callbacksQueue (get s') \<noteq> [] \<and> \<not> quit (get s')
          then DispatchQueued get upd exec s' else Some (Inr s'))"

section \<open>Worker threads\<close>

datatype 'cb worker = Ready | Sleeping | Running 'cb | Exited

text \<open>The logs \<open>dispatched\<close>, \<open>started\<close>, \<open>finished\<close> and \<open>dropped\<close> record the history.\<close>

record 'cb dq_system =
  dq :: "'cb dispatch_queue"
  workers :: "'cb worker list"
  notices :: nat
  dispatched :: "'cb list"
  started :: "'cb list"
  finished :: "'cb list"
  dropped :: "'cb list"

definition dq_init :: "string \<Rightarrow> nat \<Rightarrow> 'cb dq_system" where
  "dq_init nm cnt = \<lparr>dq = DispatchQueue nm cnt, workers = replicate cnt Ready, notices = 0,
     dispatched = [], started = [], finished = [], dropped = []\<rparr>"

fun wake :: "'cb worker \<Rightarrow> 'cb worker" where
  "wake Sleeping = Ready"
| "wake w = w"

text \<open>
  The steps of the pool itself: the body of \<open>dispatch_loop\<close>, and a \<open>notify_all\<close> that is due.
\<close>

inductive pool_step :: "'cb dq_system \<Rightarrow> 'cb dq_system \<Rightarrow> bool" where
  take: "i < length (workers s) \<Longrightarrow> workers s ! i = Ready \<Longrightarrow> \<not> quit (dq s) \<Longrightarrow>
    callbacksQueue (dq s) = cb # cbs \<Longrightarrow>
    pool_step s (s\<lparr>dq := pop_callback (dq s), workers := (workers s)[i := Running cb],
                   started := started s @ [cb]\<rparr>)"
| sleep: "i < length (workers s) \<Longrightarrow> workers s ! i = Ready \<Longrightarrow> \<not> quit (dq s) \<Longrightarrow>
    callbacksQueue (dq s) = [] \<Longrightarrow>
    pool_step s (s\<lparr>workers := (workers s)[i := Sleeping]\<rparr>)"
| leave: "i < length (workers s) \<Longrightarrow> workers s ! i = Ready \<Longrightarrow> quit (dq s) \<Longrightarrow>
    pool_step s (s\<lparr>workers := (workers s)[i := Exited]\<rparr>)"
| finish: "i < length (workers s) \<Longrightarrow> workers s ! i = Running cb \<Longrightarrow>
    pool_step s (s\<lparr>workers := (workers s)[i := if quit (dq s) then Exited else Ready],
                   finished := finished s @ [cb]\<rparr>)"
| notify: "notices s = Suc k \<Longrightarrow>
    pool_step s (s\<lparr>notices := k, workers := map wake (workers s)\<rparr>)"

text \<open>All steps: the pool, a spurious wake-up, and the callers of the object.\<close>

inductive dq_step :: "'cb dq_system \<Rightarrow> 'cb dq_system \<Rightarrow> bool" where
  pool: "pool_step s t \<Longrightarrow> dq_step s t"
| spurious: "i < length (workers s) \<Longrightarrow> workers s ! i = Sleeping \<Longrightarrow>
    dq_step s (s\<lparr>workers := (workers s)[i := Ready]\<rparr>)"
| dispatch_call: "dq_step s (s\<lparr>dq := dispatch op (dq s), notices := Suc (notices s),
    dispatched := dispatched s @ [op]\<rparr>)"
| clear_call: "dq_step s (s\<lparr>dq := clear (dq s), dropped := dropped s @ callbacksQueue (dq s)\<rparr>)"
| destructor: "\<not> quit (dq s) \<Longrightarrow>
    dq_step s (s\<lparr>dq := (dq s)\<lparr>quit := True\<rparr>, notices := Suc (notices s)\<rparr>)"

inductive dq_reachable :: "string \<Rightarrow> nat \<Rightarrow> 'cb dq_system \<Rightarrow> bool" for nm cnt where
  start: "dq_reachable nm cnt (dq_init nm cnt)"
| step: "dq_reachable nm cnt s \<Longrightarrow> dq_step s t \<Longrightarrow> dq_reachable nm cnt t"

fun running :: "'cb worker list \<Rightarrow> 'cb multiset" where
  "running [] = {#}"
| "running (Running cb # ws) = add_mset cb (running ws)"
| "running (_ # ws) = running ws"

definition dq_inv :: "nat \<Rightarrow> 'cb dq_system \<Rightarrow> bool" where
  "dq_inv cnt s \<longleftrightarrow>
     length (workers s) = cnt
   \<and> subseq (started s @ callbacksQueue (dq s)) (dispatched s)
   \<and> mset (dispatched s) = mset (started s) + mset (dropped s) + mset (callbacksQueue (dq s))
   \<and> mset (started s) = mset (finished s) + running (workers s)
   \<and> (Exited \<in> set (workers s) \<longrightarrow> quit (dq s))
   \<and> (Sleeping \<in> set (workers s) \<longrightarrow> callbacksQueue (dq s) = [] \<and> \<not> quit (dq s) \<or> 0 < notices s)"

text \<open>What is left to do for a pool that is told to quit.\<close>

fun worker_work :: "'cb worker \<Rightarrow> nat" where
  "worker_work Ready = 1"
| "worker_work Sleeping = 2"
| "worker_work (Running _) = 1"
| "worker_work Exited = 0"

definition shutdown_work :: "'cb dq_system \<Rightarrow> nat" where
  "shutdown_work s = notices s + sum_list (map worker_work (workers s))"

section \<open>Clients of the sequential loop\<close>

text \<open>
  The queue sits in the client's state, and running a callback does not change the queue: then
  the loop returns, after running the callbacks in the order they were dispatched.
\<close>

locale queue_client =
  fixes get :: "'s \<Rightarrow> 'cb dispatch_queue"
    and upd :: "('cb dispatch_queue \<Rightarrow> 'cb dispatch_queue) \<Rightarrow> 's \<Rightarrow> 's"
    and exec :: "'cb \<Rightarrow> 's \<Rightarrow> 's result"
    and ok :: "'s \<Rightarrow> bool"
  assumes get_upd: "ok s \<Longrightarrow> get (upd f s) = f (get s)"
    and ok_upd: "ok s \<Longrightarrow> ok (upd f s)"
    and exec_get: "ok s \<Longrightarrow> exec cb s = Inr s' \<Longrightarrow> get s' = get s"
    and exec_ok: "ok s \<Longrightarrow> exec cb s = Inr s' \<Longrightarrow> ok s'"
begin

definition run_all :: "'cb list \<Rightarrow> 's \<Rightarrow> 's result" where
  "run_all cbs s = foldM (\<lambda>cb s. exec cb (upd pop_callback s)) cbs s"

lemma dispatch_one_Cons:
  assumes "ok s" and "\<not> quit (get s)" and "callbacksQueue (get s) = cb # cbs"
    and "exec cb (upd pop_callback s) = Inr s'"
  shows "ok s' \<and> \<not> quit (get s') \<and> callbacksQueue (get s') = cbs"
  using assms exec_get [OF ok_upd [OF assms(1)] assms(4)] exec_ok [OF ok_upd [OF assms(1)] assms(4)]
  by (simp add: get_upd pop_callback_def)

lemma DispatchQueued_runs_all:
  assumes "ok s" and "\<not> quit (get s)"
  shows "DispatchQueued get upd exec s = Some (run_all (callbacksQueue (get s)) s)"
  using assms
proof (induction "callbacksQueue (get s)" arbitrary: s)
  case Nil
  then show ?case
    by (subst DispatchQueued.simps) (simp add: dispatch_one_def run_all_def)
next
  case (Cons cb cbs)
  show ?case
  proof (cases "exec cb (upd pop_callback s)")
    case (Inl e)
    with Cons.hyps(2) Cons.prems show ?thesis
      by (subst DispatchQueued.simps) (simp add: dispatch_one_def run_all_def flip: Cons.hyps(2))
  next
    case (Inr s')
    note s' = dispatch_one_Cons [OF Cons.prems Cons.hyps(2) [symmetric] Inr]
    have "DispatchQueued get upd exec s' = Some (run_all cbs s')"
      using Cons.hyps(1) [of s'] s' by simp
    moreover have "DispatchQueued get upd exec s' = Some (Inr s')" if "cbs = []"
      using that calculation by (simp add: run_all_def)
    ultimately show ?thesis
      using Inr s' Cons.prems
      by (subst DispatchQueued.simps) (simp add: dispatch_one_def run_all_def flip: Cons.hyps(2))
  qed
qed

lemma DispatchQueued_quit:
  assumes "quit (get s)"
  shows "DispatchQueued get upd exec s = Some (Inr s)"
  using assms by (subst DispatchQueued.simps) (simp add: dispatch_one_def)

lemma run_all_empties:
  assumes "ok s" and "\<not> quit (get s)" and "run_all (callbacksQueue (get s)) s = Inr s'"
  shows "ok s' \<and> callbacksQueue (get s') = []"
  using assms
proof (induction "callbacksQueue (get s)" arbitrary: s)
  case Nil
  then show ?case by (simp add: run_all_def)
next
  case (Cons cb cbs)
  then obtain s1 where s1: "exec cb (upd pop_callback s) = Inr s1" "run_all cbs s1 = Inr s'"
    by (auto simp: run_all_def rbind_Inr_conv simp flip: Cons.hyps(2))
  note s1' = dispatch_one_Cons [OF Cons.prems(1,2) Cons.hyps(2) [symmetric] s1(1)]
  show ?case using Cons.hyps(1) [of s1] s1' s1(2) by simp
qed

end

section \<open>Invariants of the worker threads\<close>

lemmas queue_ops = DispatchQueue_def dispatch_def pop_callback_def clear_def

lemma pop_all_Nil [simp]: "pop_all cbs = []"
  by (induction cbs) auto

lemma running_append [simp]: "running (ws @ ws') = running ws + running ws'"
  by (induction ws rule: running.induct) auto

lemma running_replicate [simp]: "running (replicate n Ready) = {#}"
  by (induction n) auto

lemma running_Cons: "running (w # ws) = running [w] + running ws"
  by (cases w) auto

lemma running_update:
  assumes "i < length ws"
  shows "running (ws[i := w]) + running [ws ! i] = running ws + running [w]"
proof -
  have "ws = take i ws @ ws ! i # drop (Suc i) ws" using assms by (rule id_take_nth_drop)
  then have "running ws = running (take i ws @ ws ! i # drop (Suc i) ws)" by simp
  then have "running ws = running (take i ws) + (running [ws ! i] + running (drop (Suc i) ws))"
    by (simp only: running_append running_Cons [of _ "drop (Suc i) ws"])
  moreover have "running (ws[i := w]) = running (take i ws) + (running [w] + running (drop (Suc i) ws))"
    using assms by (simp only: upd_conv_take_nth_drop running_append running_Cons [of _ "drop (Suc i) ws"])
  ultimately show ?thesis by simp
qed

lemma running_map_wake [simp]: "running (map wake ws) = running ws"
  by (induction ws rule: running.induct) auto

lemma set_map_wake:
  "Sleeping \<notin> set (map wake ws)" "Exited \<in> set (map wake ws) \<longleftrightarrow> Exited \<in> set ws"
  by (induction ws rule: running.induct) auto

lemma in_set_update: "x \<in> set (ws[i := w]) \<Longrightarrow> x = w \<or> x \<in> set ws"
  by (meson insertE set_update_subset_insert subsetD)

lemma pool_step_inv: "pool_step s t \<Longrightarrow> dq_inv cnt s \<Longrightarrow> dq_inv cnt t"
proof (induction rule: pool_step.induct)
  case (take i s cb cbs)
  then show ?case
    using running_update [of i "workers s" "Running cb"]
    by (auto simp: dq_inv_def queue_ops dest: in_set_update)
next
  case (sleep i s)
  then show ?case
    using running_update [of i "workers s" Sleeping]
    by (auto simp: dq_inv_def dest: in_set_update)
next
  case (leave i s)
  then show ?case
    using running_update [of i "workers s" Exited]
    by (auto simp: dq_inv_def dest: in_set_update)
next
  case (finish i s cb)
  then show ?case
    using running_update [of i "workers s" "if quit (dq s) then Exited else Ready"]
    by (auto simp: dq_inv_def dest: in_set_update split: if_splits)
next
  case (notify s k)
  then show ?case
    by (auto simp: dq_inv_def set_map_wake simp del: set_map)
qed

lemma subseq_drop_right: "subseq (xs @ ys) zs \<Longrightarrow> subseq xs zs"
  by (meson prefixI subseq_order.trans prefix_imp_subseq)

lemma dq_step_inv: "dq_step s t \<Longrightarrow> dq_inv cnt s \<Longrightarrow> dq_inv cnt t"
proof (induction rule: dq_step.induct)
  case (pool s t)
  then show ?case by (rule pool_step_inv)
next
  case (spurious i s)
  then show ?case
    using running_update [of i "workers s" Ready]
    by (auto simp: dq_inv_def dest: in_set_update)
next
  case (dispatch_call s op)
  then have "subseq ((started s @ callbacksQueue (dq s)) @ [op]) (dispatched s @ [op])"
    by (intro list_emb_append_mono) (auto simp: dq_inv_def)
  with dispatch_call show ?case by (auto simp: dq_inv_def queue_ops)
next
  case (clear_call s)
  then show ?case by (auto simp: dq_inv_def queue_ops dest: subseq_drop_right)
next
  case (destructor s)
  then show ?case by (auto simp: dq_inv_def)
qed

lemma dq_init_inv: "dq_inv cnt (dq_init nm cnt)"
  by (auto simp: dq_inv_def dq_init_def queue_ops)

lemma dq_reachable_inv: "dq_reachable nm cnt s \<Longrightarrow> dq_inv cnt s"
  by (induction rule: dq_reachable.induct) (auto intro: dq_init_inv dq_step_inv)

lemma dq_reachable_pool:
  "pool_step\<^sup>*\<^sup>* s t \<Longrightarrow> dq_reachable nm cnt s \<Longrightarrow> dq_reachable nm cnt t"
  by (induction rule: rtranclp_induct) (auto intro: dq_reachable.step dq_step.pool)

subsection \<open>Progress and shutdown\<close>

lemma sum_list_work_update:
  assumes "i < length ws"
  shows "sum_list (map worker_work (ws[i := w])) + worker_work (ws ! i) =
    sum_list (map worker_work ws) + worker_work w"
proof -
  have "ws = take i ws @ ws ! i # drop (Suc i) ws" using assms by (rule id_take_nth_drop)
  then have "sum_list (map worker_work ws) =
      sum_list (map worker_work (take i ws @ ws ! i # drop (Suc i) ws))" by simp
  then show ?thesis using assms by (simp add: upd_conv_take_nth_drop)
qed

lemma sum_list_work_wake:
  "sum_list (map worker_work (map wake ws)) \<le> sum_list (map worker_work ws)"
proof -
  have "worker_work (wake w) \<le> worker_work w" for w :: "'a worker" by (cases w) auto
  then show ?thesis by (simp add: sum_list_mono comp_def)
qed

lemma pool_step_quit:
  assumes "pool_step s t" and "quit (dq s)"
  shows "quit (dq t) \<and> started t = started s \<and> callbacksQueue (dq t) = callbacksQueue (dq s)
    \<and> shutdown_work t < shutdown_work s"
  using assms
proof (induction rule: pool_step.induct)
  case (leave i s)
  then show ?case
    using sum_list_work_update [of i "workers s" Exited] by (simp add: shutdown_work_def)
next
  case (finish i s cb)
  then show ?case
    using sum_list_work_update [of i "workers s" Exited] by (simp add: shutdown_work_def)
next
  case (notify s k)
  then show ?case
    using sum_list_work_wake [of "workers s"] by (simp add: shutdown_work_def)
qed auto

lemma pool_can_move:
  assumes "dq_inv cnt s" and "w \<in> set (workers s)" and "w \<noteq> Exited"
    and "callbacksQueue (dq s) \<noteq> [] \<or> quit (dq s)"
  shows "\<exists>t. pool_step s t"
proof -
  obtain i where i: "i < length (workers s)" "workers s ! i = w"
    using assms(2) by (auto simp: in_set_conv_nth)
  show ?thesis
  proof (cases w)
    case Ready
    show ?thesis
    proof (cases "quit (dq s)")
      case True
      with Ready i show ?thesis by (blast intro: pool_step.leave)
    next
      case False
      then obtain cb cbs where "callbacksQueue (dq s) = cb # cbs"
        using assms(4) by (cases "callbacksQueue (dq s)") auto
      with False Ready i show ?thesis by (blast intro: pool_step.take)
    qed
  next
    case Sleeping
    then have "0 < notices s" using assms by (auto simp: dq_inv_def)
    then obtain k where "notices s = Suc k" by (cases "notices s") auto
    then show ?thesis by (blast intro: pool_step.notify)
  next
    case (Running cb)
    then show ?thesis using i by (blast intro: pool_step.finish)
  qed (use assms in simp)
qed

lemma pool_shutdown:
  assumes "dq_inv cnt s" and "quit (dq s)"
  shows "\<exists>t. pool_step\<^sup>*\<^sup>* s t \<and> set (workers t) \<subseteq> {Exited} \<and> started t = started s"
  using assms
proof (induction "shutdown_work s" arbitrary: s rule: less_induct)
  case less
  show ?case
  proof (cases "set (workers s) \<subseteq> {Exited}")
    case True
    then show ?thesis by blast
  next
    case False
    then obtain t where t: "pool_step s t" using pool_can_move [OF less.prems(1)] less.prems(2) by blast
    note q = pool_step_quit [OF t less.prems(2)]
    then obtain u where "pool_step\<^sup>*\<^sup>* t u" "set (workers u) \<subseteq> {Exited}" "started u = started t"
      using less.hyps [of t] pool_step_inv [OF t less.prems(1)] by blast
    then show ?thesis using t q by (metis converse_rtranclp_into_rtranclp)
  qed
qed

lemma pool_run_bound:
  "(pool_step ^^ n) s t \<Longrightarrow> quit (dq s) \<Longrightarrow> quit (dq t) \<and> started t = started s
     \<and> n + shutdown_work t \<le> shutdown_work s"
proof (induction n arbitrary: t)
  case 0
  then show ?case by simp
next
  case (Suc n)
  then obtain u where "(pool_step ^^ n) s u" "pool_step u t" by auto
  with Suc pool_step_quit [of u t] show ?case by fastforce
qed

section \<open>Properties\<close>

text \<open>
  C12: in every interleaving of workers, dispatchers, \<open>clear\<close> and the destructor, callbacks are
  started in the order they were dispatched; every dispatched callback is in exactly one place,
  waiting in the queue, dropped by \<open>clear\<close>, or started, and a started one is either running in a
  worker or finished: none is lost and none runs twice.
\<close>

theorem dispatch_exactly_once_in_order:
  assumes "dq_reachable nm cnt s"
  shows "subseq (started s @ callbacksQueue (dq s)) (dispatched s)
    \<and> mset (dispatched s) = mset (finished s) + running (workers s) + mset (dropped s)
        + mset (callbacksQueue (dq s))"
  using dq_reachable_inv [OF assms] by (auto simp: dq_inv_def)

text \<open>A run used in the witnesses: one worker, one callback dispatched and started.\<close>

definition dq_example :: "nat dq_system" where
  "dq_example = \<lparr>dq = DispatchQueue ''q'' 1, workers = [Running 7], notices = 1,
     dispatched = [7], started = [7], finished = [], dropped = []\<rparr>"

lemma dq_example_reachable: "dq_reachable ''q'' 1 dq_example"
proof -
  let ?s = "(dq_init ''q'' 1 :: nat dq_system)\<lparr>dq := dispatch 7 (DispatchQueue ''q'' 1), notices := 1, dispatched := [7]\<rparr>"
  have "dq_reachable ''q'' 1 ?s"
    using dq_reachable.step [OF dq_reachable.start dq_step.dispatch_call, of "''q''" 1 "7 :: nat"]
    by (simp add: dq_init_def)
  moreover have "pool_step ?s dq_example"
    using pool_step.take [of 0 ?s "7 :: nat" "[]"]
    by (simp add: dq_init_def queue_ops dq_example_def)
  ultimately show ?thesis by (blast intro: dq_reachable.step dq_step.pool)
qed

theorem dispatch_exactly_once_in_order_witness:
  "mset (dispatched dq_example) = mset (finished dq_example) + running (workers dq_example)
     + mset (dropped dq_example) + mset (callbacksQueue (dq dq_example))"
  using dispatch_exactly_once_in_order [OF dq_example_reachable] by blast



text \<open>
  C23: after the destructor has set \<open>quit_\<close> no further callback is started, the workers need only
  finitely many steps (a bound is given), and they can always all leave their loops, so the joins
  of the destructor return; callbacks still in the queue are discarded unexecuted.
\<close>

theorem destructor_stops_pool:
  assumes "dq_reachable nm cnt s" and "quit (dq s)"
  shows "(\<exists>t. pool_step\<^sup>*\<^sup>* s t \<and> set (workers t) \<subseteq> {Exited} \<and> started t = started s)
    \<and> (\<forall>n t. (pool_step ^^ n) s t \<longrightarrow> started t = started s \<and> n \<le> shutdown_work s)"
  using pool_shutdown [OF dq_reachable_inv [OF assms(1)] assms(2)] pool_run_bound [OF _ assms(2)]
  by fastforce

theorem destructor_stops_pool_witness:
  "\<exists>t. pool_step\<^sup>*\<^sup>* (dq_example\<lparr>dq := (dq dq_example)\<lparr>quit := True\<rparr>, notices := 2\<rparr>) t
     \<and> set (workers t) \<subseteq> {Exited}"
proof -
  let ?s = "dq_example\<lparr>dq := (dq dq_example)\<lparr>quit := True\<rparr>, notices := 2\<rparr>"
  have "dq_reachable ''q'' 1 ?s"
    using dq_reachable.step [OF dq_example_reachable dq_step.destructor]
    by (simp add: dq_example_def queue_ops numeral_2_eq_2)
  from destructor_stops_pool [OF this] show ?thesis by auto
qed

text \<open>
  \<open>isEmpty\<close> looks at the threads and not at the callbacks: on a queue made with no threads
  it answers true whatever was dispatched, and on a queue with threads it answers false even when
  nothing waits.
\<close>

theorem isEmpty_ignores_callbacks:
  "isEmpty (fold dispatch cbs (DispatchQueue nm 0 :: 'cb dispatch_queue))
   \<and> (0 < cnt \<longrightarrow> \<not> isEmpty (clear (DispatchQueue nm cnt :: 'cb dispatch_queue)))
   \<and> callbacksQueue (fold dispatch cbs (DispatchQueue nm 0)) = cbs"
proof -
  have "thread_cnt (fold dispatch cbs q) = thread_cnt q
      \<and> callbacksQueue (fold dispatch cbs q) = callbacksQueue q @ cbs" for q :: "'cb dispatch_queue"
    by (induction cbs arbitrary: q) (auto simp: dispatch_def)
  then show ?thesis by (simp add: isEmpty_def queue_ops)
qed

theorem isEmpty_ignores_callbacks_witness:
  "isEmpty (dispatch (1 :: nat) (DispatchQueue ''q'' 0))
     \<and> \<not> isEmpty (clear (DispatchQueue ''q'' 2 :: nat dispatch_queue))"
  using isEmpty_ignores_callbacks [of "[1 :: nat]" "''q''" 0]
    isEmpty_ignores_callbacks [of "[] :: nat list" "''q''" 2]
  by simp

end
