(* ===== verification/Session_Registry.thy ===== *)
theory Session_Registry
  imports Server_Prelude "HOL-Library.AList"
begin

text \<open>
  \<open>net/SessionManagerBase.hpp\<close>: the table of sessions that the server keeps, from session
  identifiers to \<open>shared_ptr\<close>s. A pointer is an optional address \<open>'p\<close> (\<open>None\<close> is null). The
  \<open>std::unordered_map\<close> is an association list with distinct keys; the order in which it is
  traversed is not specified, so traversals take it as an argument \<open>order\<close>, of which only that it
  permutes the entries is used. Every operation takes the mutex for its whole body and is one
  step. The laws the server relies on are the locale \<open>session_table\<close>.
\<close>

section \<open>Operations\<close>

type_synonym 'p registry = "(string \<times> 'p option) list"

definition getSessionsCount :: "'p registry \<Rightarrow> nat" where
  "getSessionsCount r = length r"

definition getSessions :: "'p registry \<Rightarrow> 'p registry" where
  "getSessions r = r"

definition getSessById :: "'p registry \<Rightarrow> string \<Rightarrow> 'p option" where
  "getSessById r sessionID = (case map_of r sessionID of Some p \<Rightarrow> p | None \<Rightarrow> None)"

definition addSession :: "string \<Rightarrow> 'p option \<Rightarrow> 'p registry \<Rightarrow> 'p registry \<times> bool" where
  "addSession sessionID sess r =
     (case sess of None \<Rightarrow> (r, False) | Some p \<Rightarrow> (AList.update sessionID (Some p) r, True))"

definition removeSessById :: "string \<Rightarrow> 'p registry \<Rightarrow> 'p registry \<times> bool" where
  "removeSessById sessionID r =
     (if sessionID \<in> fst ` set r then (AList.delete sessionID r, True) else (r, False))"

text \<open>The body of the traversal: invalid sessions are skipped.\<close>

definition visit_session :: "(string \<Rightarrow> 'p \<Rightarrow> 's \<Rightarrow> 's result) \<Rightarrow> string \<times> 'p option \<Rightarrow> 's \<Rightarrow> 's result" where
  "visit_session func kv s =
     (case kv of (sessId, None) \<Rightarrow> Inr s | (sessId, Some p) \<Rightarrow> func sessId p s)"

definition doToAllSessions ::
    "('p registry \<Rightarrow> 'p registry) \<Rightarrow> (string \<Rightarrow> 'p \<Rightarrow> 's \<Rightarrow> 's result) \<Rightarrow> 'p registry \<Rightarrow> 's \<Rightarrow> 's result" where
  "doToAllSessions order func r s = foldM (visit_session func) (order (getSessions r)) s"

text \<open>The keys are distinct and no entry is null.\<close>

definition registry_ok :: "'p registry \<Rightarrow> bool" where
  "registry_ok r \<longleftrightarrow> distinct (map fst r) \<and> list_all (\<lambda>(_, p). p \<noteq> None) r"

section \<open>The interface of a session table\<close>

locale session_table =
  fixes empty :: "'t"
    and look :: "'t \<Rightarrow> 'k \<Rightarrow> 'p option"
    and add :: "'k \<Rightarrow> 'p option \<Rightarrow> 't \<Rightarrow> 't \<times> bool"
    and remove :: "'k \<Rightarrow> 't \<Rightarrow> 't \<times> bool"
    and count :: "'t \<Rightarrow> nat"
    and invar :: "'t \<Rightarrow> bool"
  assumes look_empty: "look empty k = None"
    and look_add: "invar t \<Longrightarrow> look (fst (add k (Some p) t)) k' = (if k' = k then Some p else look t k')"
    and add_null: "add k None t = (t, False)"
    and add_answer: "snd (add k (Some p) t)"
    and look_remove: "invar t \<Longrightarrow> look (fst (remove k t)) k' = (if k' = k then None else look t k')"
    and remove_answer: "invar t \<Longrightarrow> snd (remove k t) \<longleftrightarrow> look t k \<noteq> None"
    and count_dom: "invar t \<Longrightarrow> count t = card (dom (look t))"
    and finite_dom: "invar t \<Longrightarrow> finite (dom (look t))"
    and invar_empty: "invar empty"
    and invar_add: "invar t \<Longrightarrow> invar (fst (add k sess t))"
    and invar_remove: "invar t \<Longrightarrow> invar (fst (remove k t))"
begin

lemma count_add:
  assumes "invar t"
  shows "count (fst (add k (Some p) t)) = (if look t k = None then Suc (count t) else count t)"
proof -
  have "dom (look (fst (add k (Some p) t))) = insert k (dom (look t))"
    using assms by (auto simp: look_add dom_def)
  then show ?thesis
    using assms by (simp add: count_dom invar_add finite_dom card_insert_if domIff)
qed

lemma count_remove:
  assumes "invar t"
  shows "count (fst (remove k t)) = (if look t k = None then count t else count t - 1)"
proof -
  have "dom (look (fst (remove k t))) = dom (look t) - {k}"
    using assms by (auto simp: look_remove dom_def)
  then show ?thesis
    using assms by (simp add: count_dom invar_remove finite_dom card_Diff_singleton_if domIff)
qed

lemma add_remove:
  assumes "invar t"
  shows "look (fst (remove k (fst (add k (Some p) t)))) k' = (if k' = k then None else look t k')"
  using assms by (simp add: look_remove look_add invar_add)

lemma remove_twice:
  assumes "invar t"
  shows "\<not> snd (remove k (fst (remove k t)))"
  using assms by (simp add: remove_answer invar_remove look_remove)

end

section \<open>Lemmas\<close>

lemma getSessById_in:
  assumes "registry_ok r"
  shows "getSessById r k = Some p \<longleftrightarrow> (k, Some p) \<in> set r"
  using assms map_of_eq_Some_iff [of r k "Some p"]
  by (auto simp: registry_ok_def getSessById_def split: option.splits dest: eq_key_imp_eq_value)

lemma registry_dom: "registry_ok r \<Longrightarrow> dom (getSessById r) = fst ` set r"
proof (intro equalityI subsetI)
  fix k
  assume ok: "registry_ok r" and "k \<in> dom (getSessById r)"
  then show "k \<in> fst ` set r" by (auto simp: getSessById_in intro: rev_image_eqI)
next
  fix k
  assume ok: "registry_ok r" and "k \<in> fst ` set r"
  then obtain p where "(k, Some p) \<in> set r" by (auto simp: registry_ok_def list_all_iff)
  with ok show "k \<in> dom (getSessById r)" by (auto simp: getSessById_in domIff)
qed

lemma registry_ok_update: "registry_ok r \<Longrightarrow> registry_ok (AList.update k (Some p) r)"
proof -
  assume ok: "registry_ok r"
  then have "distinct (map fst (AList.update k (Some p) r))"
    by (simp add: registry_ok_def distinct_update)
  moreover have "\<forall>e \<in> set (AList.update k (Some p) r). snd e \<noteq> None"
    using ok by (induction r) (auto simp: registry_ok_def list_all_iff)
  ultimately show ?thesis by (auto simp: registry_ok_def list_all_iff)
qed

lemma set_update_subset: "set (AList.update k v r) \<subseteq> insert (k, v) (set r)"
  by (induction r) auto

lemma registry_ok_delete: "registry_ok r \<Longrightarrow> registry_ok (AList.delete k r)"
  by (auto simp: registry_ok_def list_all_iff AList.delete_eq distinct_map_filter)

lemma look_delete: "getSessById (AList.delete k r) k' = (if k' = k then None else getSessById r k')"
  by (simp add: getSessById_def delete_conv')

interpretation tbl: session_table "[] :: 'p registry" getSessById addSession removeSessById
    getSessionsCount registry_ok
proof (unfold_locales, goal_cases)
  case (1 k)
  show ?case by (simp add: getSessById_def)
next
  case (2 t k p k')
  show ?case by (simp add: getSessById_def addSession_def update_conv')
next
  case (3 k t)
  show ?case by (simp add: addSession_def)
next
  case (4 k p t)
  show ?case by (simp add: addSession_def)
next
  case (5 t k k')
  have "getSessById t k = None" if "k \<notin> fst ` set t"
    using that by (auto simp: getSessById_def split: option.split dest!: map_of_SomeD intro: rev_image_eqI)
  then show ?case by (auto simp: removeSessById_def look_delete)
next
  case (6 t k)
  then show ?case using registry_dom [OF 6] by (auto simp: removeSessById_def domIff)
next
  case (7 t)
  then show ?case
    using registry_dom [OF 7] distinct_card [of "map fst t"]
    by (simp add: getSessionsCount_def registry_ok_def)
next
  case (8 t)
  then show ?case by (simp add: registry_dom)
next
  case 9
  show ?case by (simp add: registry_ok_def)
next
  case (10 t k p)
  then show ?case by (auto simp: addSession_def registry_ok_update split: option.split)
next
  case (11 t k)
  then show ?case by (auto simp: removeSessById_def registry_ok_delete)
qed


lemma visit_session_simps [simp]:
  "visit_session func (k, None) s = Inr s"
  "visit_session func (k, Some p) s = func k p s"
  by (simp_all add: visit_session_def)

lemma visit_log:
  "foldM (visit_session (\<lambda>sessId p log. Inr (log @ [(sessId, Some p)]))) kvs log =
     Inr (log @ filter (\<lambda>(_, p). p \<noteq> None) kvs)"
  by (induction kvs arbitrary: log) (auto simp: visit_session_def split: option.split)

lemma doToAllSessions_invariant:
  assumes "doToAllSessions order func r s = Inr t" and "I s"
    and "set (order r) \<subseteq> set r"
    and "\<And>k p s s'. (k, Some p) \<in> set r \<Longrightarrow> I s \<Longrightarrow> func k p s = Inr s' \<Longrightarrow> I s'"
  shows "I t"
  using assms(1) unfolding doToAllSessions_def getSessions_def
proof (rule foldM_invariant [where I = I])
  fix kv s s'
  assume "kv \<in> set (order r)" "I s" "visit_session func kv s = Inr s'"
  with assms(3,4) show "I s'" by (cases kv; cases "snd kv") (auto simp: visit_session_def)
qed (rule assms(2))

section \<open>Properties\<close>

text \<open>
  The session table behaves as a finite map: after \<open>addSession\<close> the session is found under
  its identifier (a session registered before under the same one is replaced), a null session is
  refused, \<open>removeSessById\<close> removes exactly that entry and answers whether there was one, and the
  count goes up by one for a new identifier and down by one for a present one.
\<close>

theorem session_table_laws:
  assumes "registry_ok r"
  shows "getSessById (fst (addSession k (Some p) r)) k' = (if k' = k then Some p else getSessById r k')
    \<and> addSession k None r = (r, False)
    \<and> getSessById (fst (removeSessById k r)) k' = (if k' = k then None else getSessById r k')
    \<and> (snd (removeSessById k r) \<longleftrightarrow> getSessById r k \<noteq> None)
    \<and> getSessionsCount (fst (addSession k (Some p) r)) =
        (if getSessById r k = None then Suc (getSessionsCount r) else getSessionsCount r)
    \<and> getSessionsCount (fst (removeSessById k r)) =
        (if getSessById r k = None then getSessionsCount r else getSessionsCount r - 1)
    \<and> registry_ok (fst (addSession k sess r)) \<and> registry_ok (fst (removeSessById k r))"
  using tbl.look_add [OF assms] tbl.add_null tbl.look_remove [OF assms] tbl.remove_answer [OF assms]
    tbl.count_add [OF assms] tbl.count_remove [OF assms] tbl.invar_add [OF assms]
    tbl.invar_remove [OF assms]
  by blast

theorem session_table_laws_witness:
  "registry_ok [(''a'', Some (0::nat))]
   \<and> getSessById (fst (addSession ''b'' (Some 1) [(''a'', Some (0::nat))])) ''a'' = Some 0"
  using session_table_laws [of "[(''a'', Some (0::nat))]" "''b''" 1 "''a''"]
  by (simp add: registry_ok_def getSessById_def)

text \<open>
  \<open>doToAllSessions\<close> visits every valid session of the snapshot exactly once, whatever the
  order in which the hash table is traversed, and skips null entries.
\<close>

theorem doToAllSessions_visits_each_once:
  assumes "\<And>r. mset (order r) = mset r"
  shows "\<exists>log. doToAllSessions order (\<lambda>sessId p log. Inr (log @ [(sessId, Some p)])) r [] = Inr log
    \<and> mset log = filter_mset (\<lambda>(_, p). p \<noteq> None) (mset r)"
  using assms [of r] by (simp add: doToAllSessions_def getSessions_def visit_log)

theorem doToAllSessions_visits_each_once_witness:
  "\<exists>log. doToAllSessions rev (\<lambda>sessId p log. Inr (log @ [(sessId, Some p)]))
      [(''a'', Some (1::nat)), (''b'', None)] [] = Inr log \<and> mset log = {#(''a'', Some 1)#}"
  using doToAllSessions_visits_each_once [of rev "[(''a'', Some (1::nat)), (''b'', None)]"] by simp

end
