(* ===== verification/Net_State.thy ===== *)
theory Net_State
  imports Network_Operation Dispatch_Queue Session_Registry "HOL-Library.Multiset"
begin

text \<open>
  The state of the network layer: the data members of \<open>WsSession\<close>, \<open>SessionBase\<close>, \<open>WsListener\<close>
  and \<open>WSServer\<close>, with the part of the Boost objects they own that the code can observe. A
  session lives at an address of the \<open>heap\<close>; a \<open>shared_ptr\<close> to it is that address.

  Of a \<open>websocket::stream\<close> the code observes \<open>is_open()\<close>, the messages it reads, and the
  completions of the operations it started. An operation that was started and has not completed
  is an element of \<open>ops\<close>; \<open>wire\<close> lists the messages handed to the stream with \<open>async_write\<close>, in
  the order of the calls. A \<open>steady_timer\<close> is its expiry, \<open>None\<close> being \<open>time_point::max()\<close>.
  Clocks count nanoseconds.

  What completes when and with which \<open>error_code\<close> is up to Boost, the network and the peer; the
  theory \<open>Server_System\<close> leaves it open. The error codes the code distinguishes are
  \<open>operation_aborted\<close> and \<open>websocket::error::closed\<close>.
\<close>

section \<open>Data\<close>

datatype error_code = Success | Operation_Aborted | Ws_Closed | Other_Error nat

datatype ping_state = ALIVE | SENDING | SENT | TOTAL

datatype async_op =
    Op_Resolve | Op_Connect | Op_Handshake | Op_Accept | Op_Read | Op_Ping | Op_Timer
  | Op_Write string

datatype ws_callback = PingCallback | CsvAnalizeCallback | CsvAnswerCallback

text \<open>\<open>std::bind(callback, this, nm_, message)\<close>; both pointers can be null.\<close>

datatype bound_callback =
  Bind (callback: ws_callback) (clientSession: "nat option") (messageBuffer: "string option")

record ws_session =
  id_of :: string
  receivedMessagesQueue :: "bound_callback dispatch_queue option"
  isFullyCreated :: bool
  socket_open :: bool
  ws_open :: bool
  control_set :: bool
  recievedBuffer :: string
  timer_expiry :: "nat option"
  isSendBusy :: bool
  sendQueue :: "string list"
  pingState :: ping_state
  ops :: "async_op multiset"
  wire :: "string list"

record ws_listener =
  l_endpoint :: "string \<times> 16 word"
  doc_root :: string
  l_socket_open :: bool
  acceptor_open :: bool
  acceptor_bound :: bool
  acceptor_listening :: bool
  needClose :: bool
  accepts :: nat
  posted_stops :: nat

text \<open>A thread of \<open>wsThreads_\<close> runs \<open>ioc_.run()\<close> until it was joined.\<close>

datatype io_thread = Joinable | Joined

record world =
  heap :: "ws_session list"
  sessions :: "nat registry"
  operationCallbacks :: "ws_callback ws_input_callbacks"
  iocWsListener :: "ws_listener option"
  wsThreads :: "io_thread list"
  clock :: nat

definition sess :: "world \<Rightarrow> nat \<Rightarrow> ws_session" where
  "sess w a = heap w ! a"

definition upd_sess :: "nat \<Rightarrow> (ws_session \<Rightarrow> ws_session) \<Rightarrow> world \<Rightarrow> world" where
  "upd_sess a f w = w\<lparr>heap := (heap w)[a := f (sess w a)]\<rparr>"

definition upd_listener :: "(ws_listener \<Rightarrow> ws_listener) \<Rightarrow> world \<Rightarrow> world" where
  "upd_listener f w = w\<lparr>iocWsListener := map_option f (iocWsListener w)\<rparr>"

section \<open>The base class of sessions\<close>

definition getId :: "ws_session \<Rightarrow> string" where
  "getId s = id_of s"

definition getReceivedMessages :: "ws_session \<Rightarrow> bound_callback dispatch_queue option" where
  "getReceivedMessages s = receivedMessagesQueue s"

text \<open>
  The guard reads \<open>!receivedMessagesQueue_ && receivedMessagesQueue_.get()\<close>: a null pointer whose
  \<open>get()\<close> is not null, which never holds.
\<close>

definition invalid_queue_guard :: "ws_session \<Rightarrow> bool" where
  "invalid_queue_guard s \<longleftrightarrow> receivedMessagesQueue s = None \<and> receivedMessagesQueue s \<noteq> None"

definition hasReceivedMessages :: "ws_session \<Rightarrow> bool result" where
  "hasReceivedMessages s =
     (if invalid_queue_guard s then Inr True
      else case receivedMessagesQueue s of
        None \<Rightarrow> Inl Null_Dereference | Some q \<Rightarrow> Inr (isEmpty q))"

definition clearReceivedMessages :: "ws_session \<Rightarrow> ws_session result" where
  "clearReceivedMessages s =
     (if invalid_queue_guard s then Inr s
      else case receivedMessagesQueue s of
        None \<Rightarrow> Inl Null_Dereference
      | Some q \<Rightarrow> Inr (s\<lparr>receivedMessagesQueue := Some (clear q)\<rparr>))"

section \<open>Removing a session from the server\<close>

definition unregisterSession :: "string \<Rightarrow> world \<Rightarrow> world" where
  "unregisterSession k w =
     (let idCopy = k; p = getSessById (sessions w) idCopy;
          w' = w\<lparr>sessions := fst (removeSessById idCopy (sessions w))\<rparr> in
      case p of None \<Rightarrow> w' | Some _ \<Rightarrow> w')"

section \<open>Lemmas\<close>

lemma unregisterSession_eq:
  "unregisterSession k w = w\<lparr>sessions := fst (removeSessById k (sessions w))\<rparr>"
  by (simp add: unregisterSession_def Let_def split: option.split)

lemma unregisterSession_sel [simp]:
  "heap (unregisterSession k w) = heap w"
  "sess (unregisterSession k w) a = sess w a"
  "operationCallbacks (unregisterSession k w) = operationCallbacks w"
  "iocWsListener (unregisterSession k w) = iocWsListener w"
  "wsThreads (unregisterSession k w) = wsThreads w"
  "clock (unregisterSession k w) = clock w"
  "sessions (unregisterSession k w) = fst (removeSessById k (sessions w))"
  by (simp_all add: unregisterSession_eq sess_def)

lemma upd_sess_sel [simp]:
  "length (heap (upd_sess a f w)) = length (heap w)"
  "sessions (upd_sess a f w) = sessions w"
  "operationCallbacks (upd_sess a f w) = operationCallbacks w"
  "iocWsListener (upd_sess a f w) = iocWsListener w"
  "wsThreads (upd_sess a f w) = wsThreads w"
  "clock (upd_sess a f w) = clock w"
  by (simp_all add: upd_sess_def)

lemma upd_listener_sel [simp]:
  "heap (upd_listener g w) = heap w"
  "sess (upd_listener g w) a = sess w a"
  "sessions (upd_listener g w) = sessions w"
  "operationCallbacks (upd_listener g w) = operationCallbacks w"
  "iocWsListener (upd_listener g w) = map_option g (iocWsListener w)"
  "wsThreads (upd_listener g w) = wsThreads w"
  "clock (upd_listener g w) = clock w"
  by (simp_all add: upd_listener_def sess_def)

lemma sess_upd_sess:
  "sess (upd_sess a f w) b = (if a = b \<and> a < length (heap w) then f (sess w a) else sess w b)"
  by (cases "a = b"; cases "a < length (heap w)") (simp_all add: sess_def upd_sess_def list_update_beyond)

lemma sess_upd_same [simp]: "a < length (heap w) \<Longrightarrow> sess (upd_sess a f w) a = f (sess w a)"
  by (simp add: sess_upd_sess)

lemma sess_upd_other [simp]: "a \<noteq> b \<Longrightarrow> sess (upd_sess a f w) b = sess w b"
  by (simp add: sess_upd_sess)

lemma upd_sess_cong: "(\<And>s. f s = g s) \<Longrightarrow> upd_sess a f w = upd_sess a g w"
  by (simp add: upd_sess_def)

lemma upd_sess_twice: "upd_sess a f (upd_sess a g w) = upd_sess a (f \<circ> g) w"
  by (cases "a < length (heap w)") (simp_all add: upd_sess_def sess_def list_update_beyond)

lemma sess_world_update [simp]:
  "sess (w\<lparr>sessions := r\<rparr>) a = sess w a"
  "sess (w\<lparr>operationCallbacks := c\<rparr>) a = sess w a"
  "sess (w\<lparr>iocWsListener := l\<rparr>) a = sess w a"
  "sess (w\<lparr>wsThreads := t\<rparr>) a = sess w a"
  "sess (w\<lparr>clock := n\<rparr>) a = sess w a"
  by (simp_all add: sess_def)

lemma removeSessById_ok [simp]: "registry_ok r \<Longrightarrow> registry_ok (fst (removeSessById k r))"
  by (rule tbl.invar_remove)

lemma removeSessById_subset: "set (fst (removeSessById k r)) \<subseteq> set r"
  by (auto simp: removeSessById_def AList.delete_eq)

end
