(* ===== verification/Ws_Session.thy ===== *)
theory Ws_Session
  imports Net_State
begin

text \<open>
  \<open>net/websockets/WsSession\<close>: one function per member function, on the state of \<open>Net_State\<close>. The
  first argument of an operation is the address \<open>this\<close>. Handlers take the \<open>error_code\<close> they are
  called with; that the completed operation left \<open>ops\<close> and what the stream did to the buffer is
  part of the step that calls the handler (\<open>Server_System\<close>). Logging is left out.

  The sending side promises a first-in first-out channel: a message accepted by \<open>send\<close> is handed
  to the stream once, in the order of acceptance, one \<open>async_write\<close> at a time, and its bytes stay
  alive in \<open>sendQueue_\<close> while the write is in flight. That contract is the locale
  \<open>outgoing_channel\<close>; the session is its interpretation \<open>tx\<close>.
\<close>

section \<open>Construction and connection\<close>

definition WS_PING_FREQUENCY_SEC :: nat where "WS_PING_FREQUENCY_SEC = 15"
definition maxReceiveMsgSizebyte :: nat where "maxReceiveMsgSizebyte = 1024 * 1024 * 1024"
definition maxSendMsgSizebyte :: nat where "maxSendMsgSizebyte = 1024 * 1024 * 1024"

text \<open>The constructor: \<open>sock\<close> says whether the socket that is moved in is open.\<close>

definition WsSession :: "bool \<Rightarrow> string \<Rightarrow> ws_session" where
  "WsSession sock k =
     \<lparr>id_of = k,
      receivedMessagesQueue = Some (DispatchQueue ''WebSockets Server Dispatch Queue'' 0),
      isFullyCreated = False, socket_open = sock, ws_open = False, control_set = False,
      recievedBuffer = [], timer_expiry = None, isSendBusy = False, sendQueue = [],
      pingState = ALIVE, ops = {#}, wire = []\<rparr>"

definition destroy_session :: "ws_session \<Rightarrow> ws_session" where
  "destroy_session s = (case receivedMessagesQueue s of
     None \<Rightarrow> s | Some _ \<Rightarrow> s\<lparr>receivedMessagesQueue := None\<rparr>)"

definition isOpen :: "ws_session \<Rightarrow> bool" where
  "isOpen s \<longleftrightarrow> ws_open s"

definition fullyCreated :: "ws_session \<Rightarrow> bool" where
  "fullyCreated s \<longleftrightarrow> isFullyCreated s"

definition start_op :: "async_op \<Rightarrow> ws_session \<Rightarrow> ws_session" where
  "start_op op s = s\<lparr>ops := add_mset op (ops s)\<rparr>"

text \<open>\<open>timer_.expires_after(std::chrono::seconds(n))\<close>\<close>

definition expires_after :: "nat \<Rightarrow> nat \<Rightarrow> ws_session \<Rightarrow> ws_session" where
  "expires_after n now s = s\<lparr>timer_expiry := Some (now + n * 1000000000)\<rparr>"

definition timer_expired :: "nat \<Rightarrow> ws_session \<Rightarrow> bool" where
  "timer_expired now s = (case timer_expiry s of None \<Rightarrow> False | Some t \<Rightarrow> t \<le> now)"

text \<open>
  \<open>waitForConnect\<close> polls: \<open>is_open n\<close> is the answer of the \<open>n\<close>-th call of \<open>isOpen\<close> and \<open>now n\<close>
  the \<open>n\<close>-th reading of the clock. \<open>None\<close> is a loop that never ends.
\<close>

partial_function (option) wait_loop ::
    "(nat \<Rightarrow> bool) \<Rightarrow> (nat \<Rightarrow> nat) \<Rightarrow> nat \<Rightarrow> nat \<Rightarrow> nat \<Rightarrow> nat option" where
  "wait_loop is_open now end_time n current_time =
     (if \<not> is_open n \<and> current_time < end_time
      then wait_loop is_open now end_time (Suc n) (now (n + 2)) else Some (Suc n))"

definition waitForConnect :: "(nat \<Rightarrow> bool) \<Rightarrow> (nat \<Rightarrow> nat) \<Rightarrow> nat \<Rightarrow> bool option" where
  "waitForConnect is_open now maxWait_ms =
     map_option is_open (wait_loop is_open now (now 0 + maxWait_ms * 1000000) 0 (now 1))"

definition on_session_fail :: "nat \<Rightarrow> world \<Rightarrow> world" where
  "on_session_fail a w = unregisterSession (getId (sess w a)) w"

definition connectAsClient :: "nat \<Rightarrow> world \<Rightarrow> world" where
  "connectAsClient a w = upd_sess a (start_op Op_Resolve) w"

definition onResolve :: "nat \<Rightarrow> error_code \<Rightarrow> world \<Rightarrow> world" where
  "onResolve a ec w = (if ec \<noteq> Success then on_session_fail a w
     else upd_sess a (start_op Op_Connect) w)"

text \<open>
  \<open>local_endpoint()\<close> throws when the socket is not open.
\<close>

definition onConnect :: "nat \<Rightarrow> error_code \<Rightarrow> world \<Rightarrow> world result" where
  "onConnect a ec w = (if ec \<noteq> Success then Inr (on_session_fail a w)
     else if \<not> socket_open (sess w a) then Inl (Exception ''local_endpoint'')
     else Inr (upd_sess a (start_op Op_Handshake) w))"

definition onHandshake :: "nat \<Rightarrow> error_code \<Rightarrow> world \<Rightarrow> world" where
  "onHandshake a ec w = (if ec \<noteq> Success then on_session_fail a w else w)"

section \<open>The timer and the pings\<close>

definition close_socket :: "ws_session \<Rightarrow> ws_session" where
  "close_socket s = s\<lparr>socket_open := False\<rparr>"

definition on_timer :: "nat \<Rightarrow> error_code \<Rightarrow> world \<Rightarrow> world" where
  "on_timer a ec w =
     (if ec \<noteq> Success \<and> ec \<noteq> Operation_Aborted then on_session_fail a w
      else if timer_expired (clock w) (sess w a) then
        if isOpen (sess w a) \<and> pingState (sess w a) = ALIVE then
          let w1 = upd_sess a (\<lambda>s. s\<lparr>pingState := SENDING\<rparr>) w;
              w2 = upd_sess a (expires_after WS_PING_FREQUENCY_SEC (clock w)) w1;
              w3 = upd_sess a (start_op Op_Ping) w2 in
          upd_sess a (start_op Op_Timer) w3
        else unregisterSession (getId (sess w a)) (upd_sess a close_socket w)
      else upd_sess a (start_op Op_Timer) w)"

definition onRemoteActivity :: "nat \<Rightarrow> world \<Rightarrow> world" where
  "onRemoteActivity a w = upd_sess a (expires_after WS_PING_FREQUENCY_SEC (clock w))
     (upd_sess a (\<lambda>s. s\<lparr>pingState := ALIVE\<rparr>) w)"

definition on_control_callback :: "nat \<Rightarrow> world \<Rightarrow> world" where
  "on_control_callback a w = onRemoteActivity a w"

definition on_ping :: "nat \<Rightarrow> error_code \<Rightarrow> world \<Rightarrow> world result" where
  "on_ping a ec w =
     (if ec = Operation_Aborted then Inr w
      else if ec \<noteq> Success then Inr (on_session_fail a w)
      else if pingState (sess w a) = SENDING
        then Inr (upd_sess a (\<lambda>s. s\<lparr>pingState := SENT\<rparr>) w)
      else if pingState (sess w a) = ALIVE then Inr w else Inl Assertion_Failed)"

section \<open>Reading\<close>

definition do_read :: "nat \<Rightarrow> world \<Rightarrow> world" where
  "do_read a w = upd_sess a (start_op Op_Read) w"

definition handleIncomingData :: "nat \<Rightarrow> string option \<Rightarrow> world \<Rightarrow> world \<times> bool" where
  "handleIncomingData a message w =
     (case message of
        None \<Rightarrow> (w, False)
      | Some m \<Rightarrow>
          if length m < 2 then (w, False)
          else
            case findCallback (operationCallbacks w)
                   (WsNetworkOperation_code (wsOpcodeFromStr (c_str m))) of
              None \<Rightarrow> (w, False)
            | Some cb \<Rightarrow>
                (case receivedMessagesQueue (sess w a) of
                   None \<Rightarrow> (w, False)
                 | Some q \<Rightarrow>
                     (upd_sess a (\<lambda>s. s\<lparr>receivedMessagesQueue :=
                        Some (dispatch (Bind cb (Some a) message) q)\<rparr>) w, True)))"

text \<open>The part of \<open>on_read\<close> after the error codes were looked at.\<close>

definition process_buffer :: "nat \<Rightarrow> world \<Rightarrow> world" where
  "process_buffer a w =
     (if receivedMessagesQueue (sess w a) = None then w
      else if recievedBuffer (sess w a) = [] then w
      else if maxReceiveMsgSizebyte < length (recievedBuffer (sess w a)) then w
      else
        let w1 = fst (handleIncomingData a (Some (recievedBuffer (sess w a))) w);
            w2 = upd_sess a (\<lambda>s. s\<lparr>recievedBuffer := []\<rparr>) w1 in
        if \<not> isOpen (sess w2 a) then w2 else do_read a w2)"

definition on_read :: "nat \<Rightarrow> error_code \<Rightarrow> world \<Rightarrow> world" where
  "on_read a ec w =
     (if ec = Operation_Aborted then w
      else if ec = Ws_Closed then w
      else process_buffer a (if ec \<noteq> Success then on_session_fail a w else w))"

section \<open>Writing\<close>

text \<open>\<open>ws_.async_write(net::buffer(*dp), ...)\<close>\<close>

definition async_write :: "string \<Rightarrow> ws_session \<Rightarrow> ws_session" where
  "async_write dp s = start_op (Op_Write dp) (s\<lparr>wire := wire s @ [dp]\<rparr>)"

definition write_next :: "ws_session \<Rightarrow> ws_session" where
  "write_next s = (if sendQueue s \<noteq> [] then async_write (hd (sendQueue s)) s
     else s\<lparr>isSendBusy := False\<rparr>)"

definition written :: "ws_session \<Rightarrow> ws_session" where
  "written s =
     (if \<not> isOpen s then s
      else write_next (if sendQueue s \<noteq> [] then s\<lparr>sendQueue := tl (sendQueue s)\<rparr> else s))"

definition on_write :: "nat \<Rightarrow> error_code \<Rightarrow> world \<Rightarrow> world" where
  "on_write a ec w =
     (if ec = Operation_Aborted then w
      else if ec \<noteq> Success then on_session_fail a w
      else upd_sess a written w)"

text \<open>\<open>send(const std::string&)\<close> on the session itself, and through its address.\<close>

definition send_message :: "string \<Rightarrow> ws_session \<Rightarrow> ws_session" where
  "send_message ss s =
     (if ss = [] then s
      else if maxSendMsgSizebyte < length ss then s
      else
        let s1 = s\<lparr>sendQueue := sendQueue s @ [ss]\<rparr> in
        if \<not> isOpen s1 then s1
        else if \<not> isSendBusy s1 \<and> sendQueue s1 \<noteq> []
          then async_write (hd (sendQueue s1)) (s1\<lparr>isSendBusy := True\<rparr>)
        else s1)"

definition send :: "nat \<Rightarrow> string \<Rightarrow> world \<Rightarrow> world" where
  "send a ss w = upd_sess a (send_message ss) w"

text \<open>\<open>send(std::shared_ptr<std::string>)\<close> goes through \<open>c_str()\<close>.\<close>

definition send_shared :: "nat \<Rightarrow> string option \<Rightarrow> world \<Rightarrow> world" where
  "send_shared a ss w = (case ss of None \<Rightarrow> w | Some m \<Rightarrow> send a (c_str m) w)"

section \<open>Running a session\<close>

definition on_accept :: "nat \<Rightarrow> error_code \<Rightarrow> world \<Rightarrow> world" where
  "on_accept a ec w =
     (if ec = Operation_Aborted then w
      else if ec \<noteq> Success then on_session_fail a w
      else do_read a (upd_sess a (\<lambda>s. s\<lparr>isFullyCreated := True\<rparr>) w))"

definition runAsClient :: "nat \<Rightarrow> world \<Rightarrow> world" where
  "runAsClient a w =
     (let w1 = upd_sess a (\<lambda>s. s\<lparr>control_set := True\<rparr>) w;
          w2 = on_timer a Success w1;
          w3 = upd_sess a (expires_after WS_PING_FREQUENCY_SEC (clock w)) w2;
          w4 = upd_sess a (\<lambda>s. s\<lparr>isFullyCreated := True\<rparr>) w3 in
      do_read a w4)"

definition runAsServer :: "nat \<Rightarrow> world \<Rightarrow> world" where
  "runAsServer a w =
     (let w1 = upd_sess a (\<lambda>s. s\<lparr>control_set := True\<rparr>) w;
          w2 = on_timer a Success w1;
          w3 = upd_sess a (expires_after WS_PING_FREQUENCY_SEC (clock w)) w2 in
      upd_sess a (start_op Op_Accept) w3)"

section \<open>The contract of the sending side\<close>

text \<open>
  \<open>offer\<close> submits a message, \<open>complete\<close> is the successful completion of the write in flight and
  \<open>lose\<close> its failure. \<open>accepted\<close> is the abstract state of the channel, the list of all messages it
  took; \<open>handed\<close> are those that reached the transport and \<open>in_flight\<close> those that it is writing.
\<close>

datatype 'm channel_event = Offer 'm | Complete | Lose | Link bool

text \<open>A completion can only happen while a write is in flight.\<close>

fun channel_run ::
    "('m \<Rightarrow> 's \<Rightarrow> 's) \<Rightarrow> ('s \<Rightarrow> 's) \<Rightarrow> ('s \<Rightarrow> 's) \<Rightarrow> (bool \<Rightarrow> 's \<Rightarrow> 's) \<Rightarrow> ('s \<Rightarrow> 'm multiset) \<Rightarrow>
     'm channel_event list \<Rightarrow> 's \<Rightarrow> 's" where
  "channel_run offer complete lose link in_flight [] s = s"
| "channel_run offer complete lose link in_flight (e # es) s =
     channel_run offer complete lose link in_flight es
       (case e of
          Offer m \<Rightarrow> offer m s
        | Complete \<Rightarrow> if in_flight s = {#} then s else complete s
        | Lose \<Rightarrow> if in_flight s = {#} then s else lose s
        | Link b \<Rightarrow> link b s)"

fun offers :: "'m channel_event list \<Rightarrow> 'm list" where
  "offers [] = []"
| "offers (Offer m # es) = m # offers es"
| "offers (_ # es) = offers es"

locale outgoing_channel =
  fixes offer :: "'m \<Rightarrow> 's \<Rightarrow> 's"
    and complete :: "'s \<Rightarrow> 's"
    and lose :: "'s \<Rightarrow> 's"
    and link :: "bool \<Rightarrow> 's \<Rightarrow> 's"
    and acceptable :: "'m \<Rightarrow> bool"
    and accepted :: "'s \<Rightarrow> 'm list"
    and handed :: "'s \<Rightarrow> 'm list"
    and in_flight :: "'s \<Rightarrow> 'm multiset"
    and ok :: "'s \<Rightarrow> bool"
  assumes ok_offer: "ok s \<Longrightarrow> ok (offer m s)"
    and ok_complete: "ok s \<Longrightarrow> in_flight s \<noteq> {#} \<Longrightarrow> ok (complete s)"
    and ok_lose: "ok s \<Longrightarrow> in_flight s \<noteq> {#} \<Longrightarrow> ok (lose s)"
    and ok_link: "ok s \<Longrightarrow> ok (link b s)"
    and accepted_offer: "ok s \<Longrightarrow>
      accepted (offer m s) = accepted s @ (if acceptable m then [m] else [])"
    and accepted_complete: "ok s \<Longrightarrow> in_flight s \<noteq> {#} \<Longrightarrow> accepted (complete s) = accepted s"
    and accepted_lose: "ok s \<Longrightarrow> in_flight s \<noteq> {#} \<Longrightarrow> accepted (lose s) = accepted s"
    and accepted_link: "ok s \<Longrightarrow> accepted (link b s) = accepted s"
    and handed_prefix: "ok s \<Longrightarrow> prefix (handed s) (accepted s)"
    and one_in_flight: "ok s \<Longrightarrow> in_flight s \<noteq> {#} \<Longrightarrow>
      handed s \<noteq> [] \<and> in_flight s = {#last (handed s)#}"
begin

abbreviation run :: "'m channel_event list \<Rightarrow> 's \<Rightarrow> 's" where
  "run \<equiv> channel_run offer complete lose link in_flight"

lemma run_ok: "ok s \<Longrightarrow> ok (run es s)"
  by (induction es arbitrary: s)
    (auto simp: ok_offer ok_complete ok_lose ok_link split: channel_event.split)

lemma run_accepted: "ok s \<Longrightarrow> accepted (run es s) = accepted s @ filter acceptable (offers es)"
proof (induction es arbitrary: s)
  case Nil
  then show ?case by simp
next
  case (Cons e es)
  then show ?case
    by (cases e) (auto simp: ok_offer ok_complete ok_lose ok_link accepted_offer accepted_complete
        accepted_lose accepted_link)
qed

lemma run_fifo:
  assumes "ok s" and "accepted s = []"
  shows "accepted (run es s) = filter acceptable (offers es)
    \<and> prefix (handed (run es s)) (filter acceptable (offers es))
    \<and> size (in_flight (run es s)) \<le> 1"
  using run_accepted [OF assms(1), of es] assms(2) handed_prefix [OF run_ok [OF assms(1)], of es]
    one_in_flight [OF run_ok [OF assms(1)], of es]
  by (cases "in_flight (run es s) = {#}") auto

end

section \<open>The session as an outgoing channel\<close>

fun write_payload :: "async_op \<Rightarrow> string option" where
  "write_payload (Op_Write m) = Some m"
| "write_payload _ = None"

definition is_write :: "async_op \<Rightarrow> bool" where
  "is_write op \<longleftrightarrow> write_payload op \<noteq> None"

definition writes :: "ws_session \<Rightarrow> string multiset" where
  "writes s = image_mset (the \<circ> write_payload) (filter_mset is_write (ops s))"

definition pending :: "ws_session \<Rightarrow> string list" where
  "pending s = (if isSendBusy s then tl (sendQueue s) else sendQueue s)"

definition accepted_messages :: "ws_session \<Rightarrow> string list" where
  "accepted_messages s = wire s @ pending s"

definition sendable :: "string \<Rightarrow> bool" where
  "sendable m \<longleftrightarrow> m \<noteq> [] \<and> length m \<le> maxSendMsgSizebyte"

definition tx_ok :: "ws_session \<Rightarrow> bool" where
  "tx_ok s \<longleftrightarrow>
     (isSendBusy s \<longrightarrow> sendQueue s \<noteq> [] \<and> wire s \<noteq> [] \<and> last (wire s) = hd (sendQueue s))
   \<and> (writes s = {#} \<or> isSendBusy s \<and> writes s = {#hd (sendQueue s)#})"

text \<open>The completion of the write in flight: it leaves \<open>ops\<close>, and the handler runs on success.\<close>

definition end_op :: "async_op \<Rightarrow> ws_session \<Rightarrow> ws_session" where
  "end_op op s = s\<lparr>ops := ops s - {#op#}\<rparr>"

definition write_lost :: "ws_session \<Rightarrow> ws_session" where
  "write_lost s = end_op (Op_Write (hd (sendQueue s))) s"

definition set_open :: "bool \<Rightarrow> ws_session \<Rightarrow> ws_session" where
  "set_open b s = s\<lparr>ws_open := b\<rparr>"

definition write_completed :: "ws_session \<Rightarrow> ws_session" where
  "write_completed s = written (write_lost s)"

lemmas session_ops [simp] = start_op_def end_op_def expires_after_def close_socket_def

lemma is_write_simps [simp]:
  "is_write (Op_Write m)" "\<not> is_write Op_Resolve" "\<not> is_write Op_Connect" "\<not> is_write Op_Handshake"
  "\<not> is_write Op_Accept" "\<not> is_write Op_Read" "\<not> is_write Op_Ping" "\<not> is_write Op_Timer"
  by (simp_all add: is_write_def)

lemma is_write_iff: "is_write op \<longleftrightarrow> (\<exists>m. op = Op_Write m)"
  by (cases op) auto

lemma writes_in: "Op_Write m \<in># ops s \<Longrightarrow> m \<in># writes s"
  by (force simp: writes_def)

lemma writes_minus_write:
  assumes "Op_Write m \<in># ops s"
  shows "writes (s\<lparr>ops := ops s - {#Op_Write m#}\<rparr>) = writes s - {#m#}"
proof -
  obtain M where "ops s = add_mset (Op_Write m) M" using assms by (metis multi_member_split)
  then show ?thesis by (simp add: writes_def)
qed

lemma writes_member:
  assumes "m \<in># writes s"
  shows "Op_Write m \<in># ops s"
  using assms by (auto simp: writes_def is_write_iff)

lemma writes_empty: "writes s = {#} \<longleftrightarrow> (\<forall>m. Op_Write m \<notin># ops s)"
  by (metis empty_not_add_mset multi_member_split writes_in writes_member multiset_nonemptyE)

lemma tx_ok_written:
  assumes "tx_ok s" and "isSendBusy s" and "writes s = {#}"
  shows "tx_ok (written s) \<and> accepted_messages (written s) = accepted_messages s"
  using assms
  by (cases "tl (sendQueue s)")
    (auto simp: written_def write_next_def async_write_def tx_ok_def accepted_messages_def
      pending_def writes_def)

lemma tx_ok_send_message:
  assumes "tx_ok s"
  shows "tx_ok (send_message m s) \<and> accepted_messages (send_message m s) =
    accepted_messages s @ (if sendable m then [m] else [])"
  using assms
  by (cases "sendQueue s")
    (auto simp: send_message_def Let_def async_write_def tx_ok_def accepted_messages_def pending_def
      sendable_def writes_def isOpen_def)

lemma tx_ok_write_lost:
  assumes "tx_ok s" and "writes s \<noteq> {#}"
  shows "tx_ok (write_lost s) \<and> accepted_messages (write_lost s) = accepted_messages s
    \<and> isSendBusy (write_lost s) \<and> writes (write_lost s) = {#}"
proof -
  have w: "isSendBusy s" "writes s = {#hd (sendQueue s)#}" using assms by (auto simp: tx_ok_def)
  then have "Op_Write (hd (sendQueue s)) \<in># ops s" by (intro writes_member) simp
  from writes_minus_write [OF this] w(2) have "writes (write_lost s) = {#}"
    by (simp add: write_lost_def)
  with assms(1) w(1) show ?thesis
    by (simp add: tx_ok_def write_lost_def accepted_messages_def pending_def)
qed

lemma tx_ok_set_open: "tx_ok s \<Longrightarrow> tx_ok (set_open b s)"
  "accepted_messages (set_open b s) = accepted_messages s"
  by (simp_all add: tx_ok_def writes_def set_open_def accepted_messages_def pending_def)

lemma tx_ok_completed:
  assumes "tx_ok s" and "writes s \<noteq> {#}"
  shows "tx_ok (write_completed s) \<and> accepted_messages (write_completed s) = accepted_messages s"
  using tx_ok_write_lost [OF assms] tx_ok_written [of "write_lost s"]
  by (simp add: write_completed_def)

interpretation tx: outgoing_channel send_message write_completed write_lost set_open sendable
    accepted_messages wire writes tx_ok
proof (unfold_locales, goal_cases)
  case (9 s)
  then show ?case by (simp add: accepted_messages_def)
next
  case (10 s)
  then show ?case by (auto simp: tx_ok_def)
qed (simp_all add: tx_ok_send_message tx_ok_completed tx_ok_write_lost tx_ok_set_open)

lemma tx_ok_new [simp]: "tx_ok (WsSession sock k)" "accepted_messages (WsSession sock k) = []"
  by (simp_all add: tx_ok_def WsSession_def writes_def accepted_messages_def pending_def)

lemma write_completed_step:
  assumes "tx_ok s" and "writes s \<noteq> {#}" and "isOpen s"
  shows "isOpen (write_completed s) \<and> sendQueue (write_completed s) = tl (sendQueue s)
    \<and> (if tl (sendQueue s) = [] then \<not> isSendBusy (write_completed s)
       else writes (write_completed s) \<noteq> {#})"
  using assms tx_ok_write_lost [OF assms(1,2)]
  by (auto simp: write_completed_def written_def write_next_def async_write_def write_lost_def
      isOpen_def writes_def tx_ok_def)

lemma write_completed_drains:
  assumes "tx_ok s" and "writes s \<noteq> {#}" and "isOpen s"
  shows "(let t = (write_completed ^^ length (sendQueue s)) s in
    sendQueue t = [] \<and> \<not> isSendBusy t \<and> wire t = accepted_messages s)"
  using assms
proof (induction "length (sendQueue s)" arbitrary: s)
  case 0
  then show ?case by (auto simp: tx_ok_def)
next
  case (Suc n)
  let ?t = "write_completed s"
  note step = write_completed_step [OF Suc.prems] tx_ok_completed [OF Suc.prems(1,2)]
  have n: "n = length (sendQueue ?t)" using Suc.hyps(2) step(1) by simp
  have eq: "(write_completed ^^ length (sendQueue s)) s = (write_completed ^^ n) ?t"
    using Suc.hyps(2) by (simp flip: Suc.hyps(2) add: funpow_swap1)
  show ?case
  proof (cases n)
    case 0
    with Suc.hyps(2) have "tl (sendQueue s) = []" by (cases "sendQueue s") simp_all
    with step Suc.prems(1,2) have "wire ?t = accepted_messages s" "sendQueue ?t = []" "\<not> isSendBusy ?t"
      by (auto simp: tx_ok_def accepted_messages_def pending_def)
    with 0 show ?thesis by (simp add: eq Let_def)
  next
    case (Suc k)
    with step n have "writes ?t \<noteq> {#}" by (cases "tl (sendQueue s)") auto
    from Suc.hyps(1) [OF n _ this] show ?thesis using step n eq by (simp add: Let_def)
  qed
qed

section \<open>Properties of sending\<close>

text \<open>
  C6: the sending side of a session refines a first-in first-out channel. Whatever sequence of
  \<open>send\<close> calls, write completions, write failures and changes of the stream's state a new session
  goes through: the messages it accepted are exactly the sendable ones (not empty, at most 1 GiB)
  in the order of the calls; those handed to the stream are a prefix of them, so nothing is
  reordered, duplicated or skipped; at most one write is in flight.
\<close>

theorem send_refines_fifo:
  "accepted_messages (channel_run send_message write_completed write_lost set_open writes es
     (WsSession sock k)) = filter sendable (offers es)
   \<and> prefix (wire (channel_run send_message write_completed write_lost set_open writes es
       (WsSession sock k))) (filter sendable (offers es))
   \<and> size (writes (channel_run send_message write_completed write_lost set_open writes es
       (WsSession sock k))) \<le> 1"
  by (rule tx.run_fifo) simp_all

text \<open>
  C15: a message handed to the stream stays alive and at the front of \<open>sendQueue_\<close> while its write
  is in flight (the stream only holds a reference to its bytes), and when every write succeeds on
  an open stream, the queue drains: after as many completions as there are queued messages,
  everything accepted was handed over and the session is ready to send again.
\<close>

theorem send_queue_drains:
  assumes "s = channel_run send_message write_completed write_lost set_open writes es
      (WsSession sock k)"
    and "writes s \<noteq> {#}" and "isOpen s"
  shows "writes s = {#hd (sendQueue s)#} \<and> sendQueue s \<noteq> []
    \<and> (let t = (write_completed ^^ length (sendQueue s)) s in
        sendQueue t = [] \<and> \<not> isSendBusy t \<and> wire t = filter sendable (offers es))"
proof -
  have ok: "tx_ok s" unfolding assms(1) by (rule tx.run_ok) simp
  have "accepted_messages s = filter sendable (offers es)"
    unfolding assms(1) using tx.run_fifo by simp
  with write_completed_drains [OF ok assms(2,3)] ok assms(2) show ?thesis
    by (auto simp: tx_ok_def)
qed

theorem send_queue_drains_witness:
  "let s = channel_run send_message write_completed write_lost set_open writes
       [Link True, Offer ''a'', Offer [], Offer ''b''] (WsSession True ''id'');
     t = (write_completed ^^ length (sendQueue s)) s in
   writes s = {#''a''#} \<and> sendQueue s = [''a'', ''b''] \<and> wire t = [''a'', ''b''] \<and> sendQueue t = []"
proof -
  let ?es = "[Link True, Offer ''a'', Offer [], Offer ''b'']"
  let ?s = "channel_run send_message write_completed write_lost set_open writes ?es
      (WsSession True ''id'')"
  have s: "writes ?s = {#''a''#}" "isOpen ?s" "sendQueue ?s = [''a'', ''b'']"
    by (simp_all add: send_message_def async_write_def WsSession_def set_open_def isOpen_def
        maxSendMsgSizebyte_def writes_def)
  have "let t = (write_completed ^^ length (sendQueue ?s)) ?s in
      sendQueue t = [] \<and> \<not> isSendBusy t \<and> wire t = filter sendable (offers ?es)"
    using send_queue_drains [of ?s ?es True "''id''"] s(1,2) by simp
  with s show ?thesis
    unfolding Let_def by (simp add: sendable_def maxSendMsgSizebyte_def)
qed

end
