(* ===== verification/Ws_Timer.thy ===== *)
theory Ws_Timer
  imports Ws_Session
begin

text \<open>
  The keep-alive protocol of a session: \<open>on_timer\<close>, \<open>on_ping\<close> and \<open>on_control_callback\<close> of
  \<open>net/websockets/WsSession\<close> as they follow each other in time, and the polling loop of
  \<open>waitForConnect\<close>. A timed run is a list of events with the reading of the clock at which the
  handler of each is called; the timer wait or ping that completes leaves \<open>ops\<close> first.
\<close>

datatype peer_event = Control | Timer error_code | Ping_Done error_code

definition peer_step :: "nat \<Rightarrow> nat \<times> peer_event \<Rightarrow> world \<Rightarrow> world result" where
  "peer_step a te w =
     (case te of (t, e) \<Rightarrow>
        let w' = w\<lparr>clock := t\<rparr> in
        case e of
          Control \<Rightarrow> Inr (on_control_callback a w')
        | Timer ec \<Rightarrow> Inr (on_timer a ec (upd_sess a (end_op Op_Timer) w'))
        | Ping_Done ec \<Rightarrow> on_ping a ec (upd_sess a (end_op Op_Ping) w'))"

definition peer_run :: "nat \<Rightarrow> (nat \<times> peer_event) list \<Rightarrow> world \<Rightarrow> world result" where
  "peer_run a tes w = foldM (peer_step a) tes w"

definition ping_period :: nat where
  "ping_period = WS_PING_FREQUENCY_SEC * 1000000000"

definition registered :: "nat \<Rightarrow> world \<Rightarrow> bool" where
  "registered a w \<longleftrightarrow> getSessById (sessions w) (getId (sess w a)) = Some a"

text \<open>Every timer event comes less than a ping period after the last control frame.\<close>

fun chatty :: "nat \<Rightarrow> (nat \<times> peer_event) list \<Rightarrow> bool" where
  "chatty last_frame [] = True"
| "chatty last_frame ((t, Control) # tes) = chatty t tes"
| "chatty last_frame ((t, Timer ec) # tes) =
     ((ec = Success \<or> ec = Operation_Aborted) \<and> t < last_frame + ping_period \<and> chatty last_frame tes)"
| "chatty last_frame ((t, Ping_Done ec) # tes) =
     ((ec = Success \<or> ec = Operation_Aborted) \<and> chatty last_frame tes)"

lemma ping_period_eq: "WS_PING_FREQUENCY_SEC * 1000000000 = ping_period"
  by (simp add: ping_period_def)

lemmas timer_defs = peer_step_def on_control_callback_def onRemoteActivity_def on_timer_def on_ping_def
  on_session_fail_def timer_expired_def getId_def isOpen_def Let_def ping_period_eq

lemma getSessById_remove:
  assumes "registry_ok r"
  shows "getSessById (fst (removeSessById k r)) k' = (if k' = k then None else getSessById r k')"
  using assms by (rule tbl.look_remove)

section \<open>Live peers\<close>

lemma peer_step_chatty:
  assumes "a < length (heap w)" and "timer_expiry (sess w a) = Some (l + ping_period)"
    and "pingState (sess w a) = ALIVE" and "chatty l (te # tes)"
  shows "\<exists>w' l'. peer_step a te w = Inr w' \<and> length (heap w') = length (heap w)
    \<and> timer_expiry (sess w' a) = Some (l' + ping_period) \<and> pingState (sess w' a) = ALIVE
    \<and> chatty l' tes \<and> sessions w' = sessions w \<and> id_of (sess w' a) = id_of (sess w a)
    \<and> count (ops (sess w' a)) Op_Ping \<le> count (ops (sess w a)) Op_Ping"
proof -
  obtain t e where te: "te = (t, e)" by (cases te)
  show ?thesis using assms unfolding te
    by (cases e) (auto simp: timer_defs)
qed

lemma peer_run_chatty:
  assumes "a < length (heap w)" and "timer_expiry (sess w a) = Some (l + ping_period)"
    and "pingState (sess w a) = ALIVE" and "chatty l tes"
  shows "\<exists>w'. peer_run a tes w = Inr w' \<and> sessions w' = sessions w
    \<and> id_of (sess w' a) = id_of (sess w a) \<and> pingState (sess w' a) = ALIVE
    \<and> count (ops (sess w' a)) Op_Ping \<le> count (ops (sess w a)) Op_Ping"
  using assms
proof (induction tes arbitrary: w l)
  case Nil
  then show ?case by (simp add: peer_run_def)
next
  case (Cons te tes)
  from peer_step_chatty [OF Cons.prems] obtain w1 l1 where
    w1: "peer_step a te w = Inr w1" "length (heap w1) = length (heap w)"
      "timer_expiry (sess w1 a) = Some (l1 + ping_period)" "pingState (sess w1 a) = ALIVE"
      "chatty l1 tes" "sessions w1 = sessions w" "id_of (sess w1 a) = id_of (sess w a)"
      "count (ops (sess w1 a)) Op_Ping \<le> count (ops (sess w a)) Op_Ping"
    by blast
  with Cons.IH [of w1 l1] Cons.prems(1) show ?case by (fastforce simp: peer_run_def)
qed

section \<open>The polling loop\<close>

lemma wait_loop_returns:
  assumes "\<And>n. 0 < n \<Longrightarrow> now n + 1000000 \<le> now (Suc n)"
  shows "\<exists>m > n. wait_loop is_open now end_time n (now (Suc n)) = Some m
    \<and> (\<forall>i. n \<le> i \<and> i < m - 1 \<longrightarrow> \<not> is_open i \<and> now (Suc i) < end_time)
    \<and> (is_open (m - 1) \<or> end_time \<le> now m)"
proof (induction "end_time - now (Suc n)" arbitrary: n rule: less_induct)
  case less
  show ?case
  proof (cases "\<not> is_open n \<and> now (Suc n) < end_time")
    case True
    have "end_time - now (Suc (Suc n)) < end_time - now (Suc n)"
      using assms [of "Suc n", OF zero_less_Suc] True by linarith
    from less [OF this] obtain m where m: "m > Suc n"
      "wait_loop is_open now end_time (Suc n) (now (Suc (Suc n))) = Some m"
      "\<forall>i. Suc n \<le> i \<and> i < m - 1 \<longrightarrow> \<not> is_open i \<and> now (Suc i) < end_time"
      "is_open (m - 1) \<or> end_time \<le> now m"
      by blast
    have "wait_loop is_open now end_time n (now (Suc n)) = Some m"
      using True m(2) by (subst wait_loop.simps) simp
    moreover have "\<not> is_open i \<and> now (Suc i) < end_time" if "n \<le> i" "i < m - 1" for i
      using m(3) True that by (cases "i = n") auto
    ultimately show ?thesis using m(1,4) by (intro exI [of _ m]) auto
  next
    case False
    then have "wait_loop is_open now end_time n (now (Suc n)) = Some (Suc n)"
      by (subst wait_loop.simps) auto
    with False show ?thesis by (intro exI [of _ "Suc n"]) auto
  qed
qed

section \<open>Properties\<close>

text \<open>
  C20: a peer that sends control frames is never evicted by the timer: if every expiry check comes
  less than 15 seconds after the last control frame, then through any sequence of control frames,
  timer events (real or cancelled) and ping completions no handler fails, the server's table of
  sessions does not change, the session stays \<open>ALIVE\<close> and no new ping is started.
\<close>

theorem live_peer_kept:
  assumes "a < length (heap w)"
    and "chatty (clock w) tes"
  shows "\<exists>w'. peer_run a tes (on_control_callback a w) = Inr w' \<and> sessions w' = sessions w
    \<and> pingState (sess w' a) = ALIVE
    \<and> count (ops (sess w' a)) Op_Ping \<le> count (ops (sess w a)) Op_Ping"
proof -
  have "timer_expiry (sess (on_control_callback a w) a) = Some (clock w + ping_period)"
    "pingState (sess (on_control_callback a w) a) = ALIVE"
    "sessions (on_control_callback a w) = sessions w"
    "ops (sess (on_control_callback a w) a) = ops (sess w a)"
    "length (heap (on_control_callback a w)) = length (heap w)"
    using assms(1) by (simp_all add: timer_defs)
  with peer_run_chatty [of a "on_control_callback a w" "clock w" tes] assms show ?thesis by auto
qed

definition timer_example :: world where
  "timer_example = \<lparr>heap = [(WsSession True ''s'')\<lparr>ws_open := True, timer_expiry := Some 5\<rparr>],
     sessions = [(''s'', Some 0)], operationCallbacks = [], iocWsListener = None, wsThreads = [],
     clock = 7\<rparr>"

theorem live_peer_kept_witness:
  "\<exists>w'. peer_run 0 [(9, Timer Operation_Aborted), (10, Control), (15000000009, Timer Success)]
      (on_control_callback 0 timer_example) = Inr w' \<and> sessions w' = [(''s'', Some 0)]"
  using live_peer_kept [of 0 timer_example
      "[(9, Timer Operation_Aborted), (10, Control), (15000000009, Timer Success)]"]
  by (auto simp: timer_example_def ping_period_def WS_PING_FREQUENCY_SEC_def)

text \<open>
  C18: a dead peer is evicted. When the timer of an open session expires, one ping is sent and the
  session stays registered; if no control frame follows, then whether or not the ping itself was
  written, the next expiry, 15 seconds later, closes the socket, removes the session from the
  server's table and does not restart the timer. A session whose handshake is not complete when
  the timer expires is evicted at once.
\<close>

theorem dead_peer_evicted:
  assumes "a < length (heap w)" and "registry_ok (sessions w)" and "registered a w"
    and "timer_expiry (sess w a) = Some t0" and "t0 \<le> t1" and "t1 + ping_period \<le> t2"
    and "{ec1, ec2} \<subseteq> {Success, Operation_Aborted}"
    and "pings = [] \<or> pings = [(tp, Ping_Done Success)] \<or> pings = [(tp, Ping_Done Operation_Aborted)]"
    and "pingState (sess w a) = ALIVE" and "count (ops (sess w a)) Op_Timer = 1"
  shows "(isOpen (sess w a) \<longrightarrow>
      (\<exists>w1. peer_run a [(t1, Timer ec1)] w = Inr w1 \<and> registered a w1
         \<and> count (ops (sess w1 a)) Op_Ping = count (ops (sess w a)) Op_Ping + 1)
    \<and> (\<exists>w2. peer_run a ((t1, Timer ec1) # pings @ [(t2, Timer ec2)]) w = Inr w2
         \<and> getSessById (sessions w2) (id_of (sess w a)) = None
         \<and> \<not> socket_open (sess w2 a) \<and> count (ops (sess w2 a)) Op_Timer = 0))
    \<and> (\<not> isOpen (sess w a) \<longrightarrow>
      (\<exists>w1. peer_run a [(t1, Timer ec1)] w = Inr w1
         \<and> getSessById (sessions w1) (id_of (sess w a)) = None
         \<and> \<not> socket_open (sess w1 a) \<and> count (ops (sess w1 a)) Op_Timer = 0))"
proof -
  have ec: "ec1 = Success \<or> ec1 = Operation_Aborted" "ec2 = Success \<or> ec2 = Operation_Aborted"
    using assms(7) by auto
  have t: "\<not> t2 < t1 + ping_period" using assms(6) by simp
  note evict = peer_run_def timer_defs registered_def getSessById_remove
  show ?thesis
  proof (cases "isOpen (sess w a)")
    case True
    with assms ec t show ?thesis by (auto simp: evict)
  next
    case False
    with assms ec show ?thesis by (auto simp: evict)
  qed
qed

theorem dead_peer_evicted_witness:
  "let w = upd_sess 0 (start_op Op_Timer) timer_example in
   \<exists>w2. peer_run 0 [(7, Timer Success), (8, Ping_Done Success), (15000000007, Timer Success)] w = Inr w2
     \<and> getSessById (sessions w2) ''s'' = None"
proof -
  let ?w = "upd_sess 0 (start_op Op_Timer) timer_example"
  have w: "sess ?w 0 = start_op Op_Timer ((WsSession True ''s'')\<lparr>ws_open := True, timer_expiry := Some 5\<rparr>)"
    "length (heap ?w) = 1" "sessions timer_example = [(''s'', Some 0)]"
    by (simp_all add: timer_example_def sess_def upd_sess_def)
  show ?thesis
    using dead_peer_evicted [of 0 ?w 5 7 15000000007 Success Success "[(8, Ping_Done Success)]" 8]
    unfolding w
    by (auto simp: WsSession_def w registry_ok_def registered_def getSessById_def getId_def
        ping_period_def WS_PING_FREQUENCY_SEC_def isOpen_def)
qed

text \<open>
  C34: the assertion in \<open>on_ping\<close> can fail: when a control frame arrives while a ping is still
  being written and the timer then expires again, a second ping is started; if both writes then
  complete, the second completion finds \<open>SENT\<close> and not \<open>ALIVE\<close>.
\<close>

theorem two_pings_fail_assertion:
  assumes "a < length (heap w)" and "timer_expired t1 (sess w a)" and "isOpen (sess w a)"
    and "pingState (sess w a) = ALIVE" and "t2 + ping_period \<le> t3"
  shows "peer_run a [(t1, Timer Success), (t2, Control), (t3, Timer Success),
     (t4, Ping_Done Success), (t5, Ping_Done Success)] w = Inl Assertion_Failed"
  using assms by (auto simp: peer_run_def timer_defs split: option.splits)

theorem two_pings_fail_assertion_witness:
  "peer_run 0 [(7, Timer Success), (8, Control), (15000000008, Timer Success),
     (15000000009, Ping_Done Success), (15000000009, Ping_Done Success)] timer_example
     = Inl Assertion_Failed"
  using two_pings_fail_assertion [of 0 timer_example 7 8 15000000008 15000000009 15000000009]
  by (simp add: timer_example_def sess_def WsSession_def timer_expired_def isOpen_def ping_period_def
      WS_PING_FREQUENCY_SEC_def)

text \<open>
  C36: \<open>waitForConnect\<close> returns on a clock that is not set back: the second reading, which follows the
  first at once, is not before it, and each later reading, which follows a sleep of a millisecond, is
  at least a millisecond after the one before. The answer is that of \<open>isOpen\<close> read after the loop;
  the loop was left because the session was open or the deadline had passed; and it polls at most
  \<open>maxWait_ms + 1\<close> times.
\<close>

theorem waitForConnect_returns:
  assumes "now 0 \<le> now 1" and "\<And>n. 0 < n \<Longrightarrow> now n + 1000000 \<le> now (Suc n)"
  shows "\<exists>m. waitForConnect is_open now maxWait_ms = Some (is_open (Suc m))
    \<and> (is_open m \<or> now 0 + maxWait_ms * 1000000 \<le> now (Suc m))
    \<and> (\<forall>i < m. \<not> is_open i) \<and> m \<le> maxWait_ms"
proof -
  let ?deadline = "now 0 + maxWait_ms * 1000000"
  have inc: "now 0 + i * 1000000 \<le> now (Suc i)" for i
  proof (induction i)
    case 0
    then show ?case using assms(1) by simp
  next
    case (Suc i)
    then show ?case using assms(2) [of "Suc i"] by simp
  qed
  from wait_loop_returns [of now 0 is_open ?deadline] assms(2) obtain m where
    m: "m > 0" "wait_loop is_open now ?deadline 0 (now 1) = Some m"
      "\<forall>i. i < m - 1 \<longrightarrow> \<not> is_open i \<and> now (Suc i) < ?deadline" "is_open (m - 1) \<or> ?deadline \<le> now m"
    by auto
  have "m - 1 \<le> maxWait_ms"
  proof (rule ccontr)
    assume "\<not> m - 1 \<le> maxWait_ms"
    then have "now (Suc maxWait_ms) < ?deadline" using m(3) by auto
    with inc [of maxWait_ms] show False by simp
  qed
  with m show ?thesis by (intro exI [of _ "m - 1"]) (auto simp: waitForConnect_def)
qed

text \<open>A clock whose second reading equals the first; the session opens at the fourth poll.\<close>

theorem waitForConnect_returns_witness:
  "\<exists>m. waitForConnect (\<lambda>n. 3 \<le> n) (\<lambda>n. (n - 1) * 1000000) 1000 = Some True \<and> 3 \<le> m \<and> m \<le> (1000 :: nat)"
proof -
  have "(n - 1) * 1000000 + 1000000 \<le> (Suc n - 1) * (1000000 :: nat)" if "0 < n" for n
    using that by (cases n) simp_all
  from waitForConnect_returns [of "\<lambda>n. (n - 1) * 1000000" "\<lambda>n. 3 \<le> n" 1000, OF _ this]
  obtain m where m: "waitForConnect (\<lambda>n. 3 \<le> n) (\<lambda>n. (n - 1) * 1000000) 1000 = Some (3 \<le> Suc m)"
    "3 \<le> m \<or> (0 - 1) * 1000000 + 1000 * 1000000 \<le> (Suc m - 1) * (1000000 :: nat)" "m \<le> 1000"
    by fastforce
  then have "3 \<le> m" by auto
  with m show ?thesis by (intro exI [of _ m]) simp
qed

end
