(* ===== verification/Send_Race.thy ===== *)
theory Send_Race
  imports Ws_Session
begin

text \<open>
  \<open>WsSession::send\<close> runs on the main thread (a callback in a tick calls it) and \<open>WsSession::on_write\<close>
  on an I/O thread, and nothing orders the two: \<open>send\<close> does not go through the strand and neither
  takes a lock. Here both are cut into their accesses to \<open>sendQueue_\<close> and \<open>isSendBusy_\<close>, and the
  pieces interleave. Each piece is still atomic, so this is weaker than what C++ allows for such a
  data race. One thread sends; at most one completion is handled at a time, by the strand.
\<close>

section \<open>Interleaved steps\<close>

datatype send_pc = S_Idle | S_Pushed | S_Claimed

datatype write_pc = W_Idle | W_Erased | W_Empty

record race_state =
  rs :: ws_session
  spc :: send_pc
  wpc :: write_pc

definition race_init :: "ws_session \<Rightarrow> race_state" where
  "race_init s = \<lparr>rs = s, spc = S_Idle, wpc = W_Idle\<rparr>"

inductive race_step :: "race_state \<Rightarrow> race_state \<Rightarrow> bool" where
  push: "spc t = S_Idle \<Longrightarrow> sendable m \<Longrightarrow>
    race_step t (t\<lparr>rs := (rs t)\<lparr>sendQueue := sendQueue (rs t) @ [m]\<rparr>, spc := S_Pushed\<rparr>)"
| skip: "spc t = S_Pushed \<Longrightarrow> \<not> isOpen (rs t) \<or> isSendBusy (rs t) \<Longrightarrow> race_step t (t\<lparr>spc := S_Idle\<rparr>)"
| claim: "spc t = S_Pushed \<Longrightarrow> isOpen (rs t) \<Longrightarrow> \<not> isSendBusy (rs t) \<Longrightarrow> sendQueue (rs t) \<noteq> [] \<Longrightarrow>
    race_step t (t\<lparr>rs := (rs t)\<lparr>isSendBusy := True\<rparr>, spc := S_Claimed\<rparr>)"
| launch: "spc t = S_Claimed \<Longrightarrow> sendQueue (rs t) \<noteq> [] \<Longrightarrow>
    race_step t (t\<lparr>rs := async_write (hd (sendQueue (rs t))) (rs t), spc := S_Idle\<rparr>)"
| erase: "wpc t = W_Idle \<Longrightarrow> Op_Write m \<in># ops (rs t) \<Longrightarrow> isOpen (rs t) \<Longrightarrow> sendQueue (rs t) \<noteq> [] \<Longrightarrow>
    race_step t (t\<lparr>rs := (end_op (Op_Write m) (rs t))\<lparr>sendQueue := tl (sendQueue (rs t))\<rparr>, wpc := W_Erased\<rparr>)"
| relaunch: "wpc t = W_Erased \<Longrightarrow> sendQueue (rs t) \<noteq> [] \<Longrightarrow>
    race_step t (t\<lparr>rs := async_write (hd (sendQueue (rs t))) (rs t), wpc := W_Idle\<rparr>)"
| drained: "wpc t = W_Erased \<Longrightarrow> sendQueue (rs t) = [] \<Longrightarrow> race_step t (t\<lparr>wpc := W_Empty\<rparr>)"
| release: "wpc t = W_Empty \<Longrightarrow>
    race_step t (t\<lparr>rs := (rs t)\<lparr>isSendBusy := False\<rparr>, wpc := W_Idle\<rparr>)"

inductive_cases race_stepE: "race_step t t'"

section \<open>Without overlap the pieces are the handlers\<close>

lemma send_pieces:
  assumes "sendable m" and "tx_ok s"
  shows "race_step\<^sup>*\<^sup>* (race_init s) (race_init (send_message m s))"
proof -
  let ?s1 = "s\<lparr>sendQueue := sendQueue s @ [m]\<rparr>"
  let ?t1 = "\<lparr>rs = ?s1, spc = S_Pushed, wpc = W_Idle\<rparr>"
  have m: "m \<noteq> []" "\<not> maxSendMsgSizebyte < length m" using assms(1) by (auto simp: sendable_def)
  have "race_step (race_init s) ?t1"
    using race_step.push [of "race_init s" m] assms(1) by (simp add: race_init_def)
  moreover have "race_step\<^sup>*\<^sup>* ?t1 (race_init (send_message m s))"
  proof (cases "isOpen s \<and> \<not> isSendBusy s")
    case True
    let ?t2 = "\<lparr>rs = ?s1\<lparr>isSendBusy := True\<rparr>, spc = S_Claimed, wpc = W_Idle\<rparr>"
    have "race_step ?t1 ?t2" using race_step.claim [of ?t1] True by (simp add: isOpen_def)
    moreover have "race_step ?t2 (race_init (send_message m s))"
      using race_step.launch [of ?t2] True m
      by (simp add: race_init_def send_message_def Let_def isOpen_def)
    ultimately show ?thesis by (meson converse_rtranclp_into_rtranclp rtranclp.rtrancl_refl)
  next
    case False
    then have "race_step ?t1 (race_init ?s1)" using race_step.skip [of ?t1] by (simp add: race_init_def isOpen_def)
    moreover have "send_message m s = ?s1" using False m by (auto simp: send_message_def Let_def isOpen_def)
    ultimately show ?thesis by simp
  qed
  ultimately show ?thesis by (rule converse_rtranclp_into_rtranclp)
qed

lemma write_pieces:
  assumes "tx_ok s" and "writes s \<noteq> {#}" and "isOpen s"
  shows "race_step\<^sup>*\<^sup>* (race_init s) (race_init (write_completed s))"
proof -
  let ?m = "hd (sendQueue s)"
  have s: "isSendBusy s" "writes s = {#?m#}" "sendQueue s \<noteq> []" using assms by (auto simp: tx_ok_def)
  then have m: "Op_Write ?m \<in># ops s" by (intro writes_member) simp
  let ?s1 = "(write_lost s)\<lparr>sendQueue := tl (sendQueue s)\<rparr>"
  let ?t1 = "\<lparr>rs = ?s1, spc = S_Idle, wpc = W_Erased\<rparr>"
  have "race_step (race_init s) ?t1"
    using race_step.erase [of "race_init s" ?m] m s(3) assms(3) by (simp add: race_init_def write_lost_def)
  moreover have "race_step\<^sup>*\<^sup>* ?t1 (race_init (write_completed s))"
  proof (cases "tl (sendQueue s) = []")
    case False
    then have "race_step ?t1 (race_init (write_completed s))"
      using race_step.relaunch [of ?t1] s(3) assms(3)
      by (simp add: race_init_def write_completed_def written_def write_next_def isOpen_def write_lost_def)
    then show ?thesis by simp
  next
    case True
    let ?t2 = "\<lparr>rs = ?s1, spc = S_Idle, wpc = W_Empty\<rparr>"
    have "race_step ?t1 ?t2" using race_step.drained [of ?t1] True by simp
    moreover have "race_step ?t2 (race_init (write_completed s))"
      using race_step.release [of ?t2] True s(3) assms(3)
      by (simp add: race_init_def write_completed_def written_def write_next_def isOpen_def write_lost_def)
    ultimately show ?thesis by (meson converse_rtranclp_into_rtranclp rtranclp.rtrancl_refl)
  qed
  ultimately show ?thesis by (rule converse_rtranclp_into_rtranclp)
qed

section \<open>Properties\<close>

text \<open>The events of a stream that stays open and never fails.\<close>

definition healthy :: "'m channel_event \<Rightarrow> bool" where
  "healthy e \<longleftrightarrow> (case e of Offer _ \<Rightarrow> True | Complete \<Rightarrow> True | _ \<Rightarrow> False)"

definition attended :: "ws_session \<Rightarrow> bool" where
  "attended s \<longleftrightarrow> tx_ok s \<and> isOpen s \<and> (sendQueue s \<noteq> [] \<longrightarrow> writes s \<noteq> {#})"

lemma attended_send: "attended s \<Longrightarrow> attended (send_message m s)"
  using tx_ok_send_message [of s m]
  by (auto simp: attended_def send_message_def async_write_def isOpen_def Let_def tx_ok_def writes_def)

lemma attended_completed: "attended s \<Longrightarrow> writes s \<noteq> {#} \<Longrightarrow> attended (write_completed s)"
  using write_completed_step [of s] tx_ok_completed [of s]
  by (cases "tl (sendQueue s) = []") (auto simp: attended_def)

text \<open>
  C28: while handlers do not overlap, no message is left behind: on a session whose stream is open
  before the first message is sent, stays open, and whose writes all succeed, after every sequence of
  \<open>send\<close> calls and write completions a queue that is not empty has exactly one write in flight, that
  of its front. (A message sent before the stream is open, or after a failed write, can wait with no
  write in flight.)
\<close>

theorem no_message_left_behind:
  assumes "list_all healthy es" and "s = channel_run send_message write_completed write_lost set_open writes
      es (set_open True (WsSession sock k))"
  shows "sendQueue s \<noteq> [] \<longrightarrow> (\<exists>m. writes s = {#m#} \<and> m = hd (sendQueue s))"
proof -
  have "attended (channel_run send_message write_completed write_lost set_open writes es s0)"
    if "attended s0" for s0
    using assms(1) that
  proof (induction es arbitrary: s0)
    case (Cons e es)
    then show ?case
      by (cases e) (auto simp: healthy_def attended_send attended_completed)
  qed simp
  moreover have "attended (set_open True (WsSession sock k))"
    using tx_ok_set_open(1) [OF tx_ok_new(1)] by (simp add: attended_def set_open_def isOpen_def WsSession_def)
  ultimately have "attended s" unfolding assms(2) by blast
  then show ?thesis by (auto simp: attended_def tx_ok_def)
qed

theorem no_message_left_behind_witness:
  "writes (channel_run send_message write_completed write_lost set_open writes
     [Offer ''a'', Offer ''b'', Complete] (set_open True (WsSession True ''id''))) = {#''b''#}"
proof -
  let ?s = "channel_run send_message write_completed write_lost set_open writes
     [Offer ''a'', Offer ''b'', Complete] (set_open True (WsSession True ''id''))"
  have "sendQueue ?s = [''b'']"
    by (simp add: send_message_def async_write_def WsSession_def set_open_def isOpen_def
        maxSendMsgSizebyte_def writes_def write_completed_def write_lost_def written_def write_next_def)
  with no_message_left_behind [of "[Offer ''a'', Offer ''b'', Complete]" ?s True "''id''"]
  show ?thesis by (simp add: healthy_def)
qed

text \<open>
  C27: when \<open>send\<close> overlaps with \<open>on_write\<close>, a message can be left behind. From a session whose last
  write is in flight there is an interleaving after which the new message is in the queue, the busy
  flag is clear, no write is in flight and neither thread has anything left to do: no step is
  possible but a further \<open>send\<close>.
\<close>

theorem overlap_leaves_message_behind:
  assumes "sendable m" and "isOpen s" and "isSendBusy s" and "sendQueue s = [m0]"
    and "ops s = {#Op_Write m0#}"
  shows "\<exists>t. race_step\<^sup>*\<^sup>* (race_init s) t
    \<and> sendQueue (rs t) = [m] \<and> \<not> isSendBusy (rs t) \<and> ops (rs t) = {#} \<and> wire (rs t) = wire s
    \<and> (\<forall>t'. race_step t t' \<longrightarrow> (\<exists>m'. sendQueue (rs t') = [m, m'] \<and> spc t' = S_Pushed))"
proof -
  let ?s1 = "s\<lparr>ops := {#}, sendQueue := []\<rparr>"
  let ?s2 = "s\<lparr>ops := {#}, sendQueue := [m]\<rparr>"
  let ?t1 = "\<lparr>rs = ?s1, spc = S_Idle, wpc = W_Erased\<rparr>"
  let ?t2 = "\<lparr>rs = ?s1, spc = S_Idle, wpc = W_Empty\<rparr>"
  let ?t3 = "\<lparr>rs = ?s2, spc = S_Pushed, wpc = W_Empty\<rparr>"
  let ?t4 = "\<lparr>rs = ?s2, spc = S_Idle, wpc = W_Empty\<rparr>"
  let ?t5 = "\<lparr>rs = ?s2\<lparr>isSendBusy := False\<rparr>, spc = S_Idle, wpc = W_Idle\<rparr>"
  have "race_step (race_init s) ?t1"
    using race_step.erase [of "race_init s" m0] assms by (simp add: race_init_def)
  moreover have "race_step ?t1 ?t2" using race_step.drained [of ?t1] by simp
  moreover have "race_step ?t2 ?t3" using race_step.push [of ?t2 m] assms(1) by simp
  moreover have "race_step ?t3 ?t4" using race_step.skip [of ?t3] assms(3) by simp
  moreover have "race_step ?t4 ?t5" using race_step.release [of ?t4] by simp
  ultimately have "race_step\<^sup>*\<^sup>* (race_init s) ?t5"
    by (meson converse_rtranclp_into_rtranclp rtranclp.rtrancl_refl)
  moreover have "\<exists>m'. sendQueue (rs t') = [m, m'] \<and> spc t' = S_Pushed" if "race_step ?t5 t'" for t'
    using that by (auto elim!: race_stepE)
  ultimately show ?thesis by (intro exI [of _ ?t5]) auto
qed

theorem overlap_leaves_message_behind_witness:
  "\<exists>t. race_step\<^sup>*\<^sup>* (race_init (send_message ''a'' (set_open True (WsSession True ''id'')))) t
     \<and> sendQueue (rs t) = [''b''] \<and> wire (rs t) = [''a''] \<and> ops (rs t) = {#}"
proof -
  let ?s = "send_message ''a'' (set_open True (WsSession True ''id''))"
  have s: "isOpen ?s" "isSendBusy ?s" "sendQueue ?s = [''a'']" "ops ?s = {#Op_Write ''a''#}" "wire ?s = [''a'']"
    by (simp_all add: send_message_def async_write_def WsSession_def set_open_def isOpen_def
        maxSendMsgSizebyte_def)
  from overlap_leaves_message_behind [OF _ s(1-4), of "''b''"] s(5) show ?thesis
    by (auto simp: sendable_def maxSendMsgSizebyte_def)
qed

end
