(* ===== verification/Ws_Listener.thy ===== *)
theory Ws_Listener
  imports Ws_Session
begin

text \<open>
  \<open>net/websockets/WsListener\<close>: the acceptor, the socket a connection is accepted into, and the
  creation of sessions. The error codes that the operating system gives for \<open>open\<close>, \<open>set_option\<close>,
  \<open>bind\<close> and \<open>listen\<close> are the record \<open>acceptor_env\<close>; a new session identifier (\<open>genGuid\<close>, a random
  UUID from Boost) is an argument.
\<close>

section \<open>Operations\<close>

record acceptor_env =
  ec_open :: error_code
  ec_set_option :: error_code
  ec_bind :: error_code
  ec_listen :: error_code

definition configureAcceptor :: "acceptor_env \<Rightarrow> ws_listener \<Rightarrow> ws_listener" where
  "configureAcceptor ae l =
     (if ec_open ae \<noteq> Success then l
      else let l1 = l\<lparr>acceptor_open := True\<rparr> in
        if ec_set_option ae \<noteq> Success then l1
        else if ec_bind ae \<noteq> Success then l1
        else let l2 = l1\<lparr>acceptor_bound := True\<rparr> in
          if ec_listen ae \<noteq> Success then l2
          else l2\<lparr>acceptor_listening := True\<rparr>)"

definition WsListener :: "acceptor_env \<Rightarrow> string \<times> 16 word \<Rightarrow> string \<Rightarrow> ws_listener" where
  "WsListener ae ep root =
     configureAcceptor ae
       \<lparr>l_endpoint = ep, doc_root = root, l_socket_open = False, acceptor_open = False,
        acceptor_bound = False, acceptor_listening = False, needClose = False, accepts = 0,
        posted_stops = 0\<rparr>"

definition isAccepting :: "ws_listener \<Rightarrow> bool" where
  "isAccepting l \<longleftrightarrow> acceptor_open l"

definition do_accept :: "ws_listener \<Rightarrow> ws_listener" where
  "do_accept l = (if needClose l then l else l\<lparr>accepts := Suc (accepts l)\<rparr>)"

definition run_listener :: "ws_listener \<Rightarrow> ws_listener" where
  "run_listener l = (if \<not> isAccepting l \<or> needClose l then l else do_accept l)"

text \<open>\<open>stop\<close> only posts its work to the strand; \<open>perform_stop\<close> is the posted function.\<close>

definition stop :: "ws_listener \<Rightarrow> ws_listener" where
  "stop l = l\<lparr>posted_stops := Suc (posted_stops l)\<rparr>"

definition perform_stop :: "ws_listener \<Rightarrow> ws_listener" where
  "perform_stop l =
     (let l1 = (if l_socket_open l then l\<lparr>l_socket_open := False\<rparr> else l);
          l2 = (if acceptor_open l1
                then l1\<lparr>acceptor_open := False, acceptor_listening := False\<rparr> else l1) in
      l2\<lparr>needClose := True\<rparr>)"

text \<open>
  \<open>std::make_shared<WsSession>(std::move(socket_), nm_, newSessId)\<close> followed by \<open>addSession\<close>: the
  new object is at the next free address, and the moved-from socket is closed.
\<close>

definition new_session :: "ws_listener \<Rightarrow> string \<Rightarrow> world \<Rightarrow> world" where
  "new_session l newSessId w =
     (let a = length (heap w);
          w1 = w\<lparr>heap := heap w @ [WsSession (l_socket_open l) newSessId]\<rparr>;
          w2 = upd_listener (\<lambda>l. l\<lparr>l_socket_open := False\<rparr>) w1 in
      w2\<lparr>sessions := fst (addSession newSessId (Some a) (sessions w2))\<rparr>)"

definition addClientSession :: "ws_listener \<Rightarrow> string \<Rightarrow> world \<Rightarrow> world \<times> nat option" where
  "addClientSession l newSessId w =
     (if needClose l then (w, None) else (new_session l newSessId w, Some (length (heap w))))"

definition listener_on_accept :: "ws_listener \<Rightarrow> error_code \<Rightarrow> string \<Rightarrow> world \<Rightarrow> world" where
  "listener_on_accept l ec newSessId w =
     (if \<not> isAccepting l \<or> \<not> l_socket_open l \<or> needClose l then w
      else
        let w1 = (if ec \<noteq> Success then w
                  else runAsServer (length (heap w)) (new_session l newSessId w)) in
        upd_listener do_accept w1)"

section \<open>The listener in the server\<close>

text \<open>
  The completion of an \<open>async_accept\<close>: on success the connection is in \<open>socket_\<close>, which a failed
  accept leaves closed.
\<close>

definition accept_completes :: "error_code \<Rightarrow> string \<Rightarrow> world \<Rightarrow> world" where
  "accept_completes ec newSessId w =
     (case iocWsListener w of
        None \<Rightarrow> w
      | Some l \<Rightarrow>
          let l1 = l\<lparr>accepts := accepts l - 1,
                     l_socket_open := (ec = Success \<or> l_socket_open l)\<rparr> in
          listener_on_accept l1 ec newSessId (w\<lparr>iocWsListener := Some l1\<rparr>))"

definition stop_runs :: "world \<Rightarrow> world" where
  "stop_runs w = upd_listener (\<lambda>l. perform_stop (l\<lparr>posted_stops := posted_stops l - 1\<rparr>)) w"

text \<open>
  The socket is empty between completions unless the listener was stopped, and at most one accept
  is pending.
\<close>

definition listener_ok :: "ws_listener \<Rightarrow> bool" where
  "listener_ok l \<longleftrightarrow> (l_socket_open l \<longrightarrow> needClose l) \<and> accepts l \<le> 1
     \<and> (acceptor_listening l \<longrightarrow> acceptor_bound l \<and> acceptor_open l)
     \<and> (needClose l \<longrightarrow> \<not> acceptor_open l) \<and> (0 < accepts l \<longrightarrow> acceptor_open l \<or> needClose l)"

section \<open>Lemmas\<close>

lemma new_session_sel [simp]:
  "heap (new_session l k w) = heap w @ [WsSession (l_socket_open l) k]"
  "sessions (new_session l k w) = AList.update k (Some (length (heap w))) (sessions w)"
  "operationCallbacks (new_session l k w) = operationCallbacks w"
  "iocWsListener (new_session l k w) = map_option (\<lambda>l. l\<lparr>l_socket_open := False\<rparr>) (iocWsListener w)"
  "wsThreads (new_session l k w) = wsThreads w"
  "clock (new_session l k w) = clock w"
  by (simp_all add: new_session_def Let_def addSession_def)

lemma sess_new_session:
  "sess (new_session l k w) a =
     (if a < length (heap w) then sess w a
      else if a = length (heap w) then WsSession (l_socket_open l) k else heap (new_session l k w) ! a)"
  by (auto simp: sess_def nth_append simp del: new_session_sel(1)) (simp_all add: nth_append)

lemma runAsServer_sel [simp]:
  "operationCallbacks (runAsServer a w) = operationCallbacks w"
  "iocWsListener (runAsServer a w) = iocWsListener w"
  "wsThreads (runAsServer a w) = wsThreads w"
  "clock (runAsServer a w) = clock w"
  "length (heap (runAsServer a w)) = length (heap w)"
  by (simp_all add: runAsServer_def on_timer_def on_session_fail_def Let_def)

lemma WsListener_ok: "listener_ok (run_listener (WsListener ae ep root))"
  by (simp add: listener_ok_def run_listener_def WsListener_def configureAcceptor_def do_accept_def
      isAccepting_def Let_def)

lemma WsSession_sel [simp]:
  "id_of (WsSession b k) = k" "ops (WsSession b k) = {#}" "timer_expiry (WsSession b k) = None"
  "socket_open (WsSession b k) = b" "pingState (WsSession b k) = ALIVE"
  by (simp_all add: WsSession_def)

lemma runAsServer_new:
  assumes "a < length (heap w)" and "timer_expiry (sess w a) = None"
  shows "runAsServer a w = upd_sess a (\<lambda>s. s\<lparr>control_set := True,
      timer_expiry := Some (clock w + WS_PING_FREQUENCY_SEC * 1000000000),
      ops := add_mset Op_Accept (add_mset Op_Timer (ops s))\<rparr>) w"
  using assms
  by (simp add: runAsServer_def on_timer_def timer_expired_def upd_sess_twice comp_def)

lemma accept_success:
  assumes "iocWsListener w = Some l" and "listener_ok l" and "acceptor_open l" and "0 < accepts l"
  shows "accept_completes Success k w =
    (let w' = w\<lparr>heap := heap w @ [(WsSession True k)\<lparr>control_set := True,
        timer_expiry := Some (clock w + WS_PING_FREQUENCY_SEC * 1000000000),
        ops := {#Op_Accept, Op_Timer#}\<rparr>]\<rparr> in
     w'\<lparr>sessions := AList.update k (Some (length (heap w))) (sessions w)\<rparr>)"
  using assms
  by (simp add: accept_completes_def listener_on_accept_def isAccepting_def listener_ok_def Let_def
      runAsServer_new sess_new_session)
    (auto simp: upd_sess_def upd_listener_def new_session_def sess_def nth_append do_accept_def Let_def
      addSession_def list_update_append)

lemma accept_failure:
  assumes "iocWsListener w = Some l" and "listener_ok l" and "ec \<noteq> Success"
  shows "accept_completes ec k w = w\<lparr>iocWsListener := Some (l\<lparr>accepts := accepts l - 1\<rparr>)\<rparr>"
  using assms
  by (auto simp: accept_completes_def listener_on_accept_def isAccepting_def listener_ok_def)

lemma accept_closed:
  assumes "iocWsListener w = Some l" and "\<not> acceptor_open l"
  shows "accept_completes ec k w = w\<lparr>iocWsListener := Some (l\<lparr>accepts := accepts l - 1,
    l_socket_open := (ec = Success \<or> l_socket_open l)\<rparr>)\<rparr>"
  using assms by (simp add: accept_completes_def listener_on_accept_def isAccepting_def)

section \<open>Properties\<close>

text \<open>
  C30: accepting a connection creates exactly one session: it is the new object at the next free
  address, is found in the server's table under its identifier while every other identifier keeps
  its session, has its timer and its handshake in flight with a deadline of 15 seconds, owns the
  open socket, and the listener waits for the next connection again.
\<close>

theorem accept_creates_session:
  assumes "iocWsListener w = Some l" and "listener_ok l" and "acceptor_open l" and "0 < accepts l"
    and "registry_ok (sessions w)"
  shows "let w' = accept_completes Success k w; a = length (heap w) in
    length (heap w') = Suc a \<and> (\<forall>b < a. sess w' b = sess w b)
    \<and> getSessById (sessions w') = (getSessById (sessions w))(k \<mapsto> a)
    \<and> id_of (sess w' a) = k \<and> socket_open (sess w' a) \<and> \<not> isOpen (sess w' a)
    \<and> ops (sess w' a) = {#Op_Accept, Op_Timer#}
    \<and> timer_expiry (sess w' a) = Some (clock w + 15 * 1000000000)
    \<and> iocWsListener w' = Some l"
proof -
  have "getSessById (AList.update k (Some (length (heap w))) (sessions w)) =
      (getSessById (sessions w))(k \<mapsto> length (heap w))"
    using tbl.look_add [OF assms(5), of k "length (heap w)"] by (auto simp: addSession_def)
  then show ?thesis
    unfolding Let_def accept_success [OF assms(1-4), unfolded Let_def]
    using assms(1)
    by (auto simp: sess_def nth_append isOpen_def WsSession_def WS_PING_FREQUENCY_SEC_def)
qed

definition listener_example :: world where
  "listener_example = \<lparr>heap = [], sessions = [], operationCallbacks = [],
     iocWsListener = Some (run_listener (WsListener \<lparr>ec_open = Success, ec_set_option = Success,
       ec_bind = Success, ec_listen = Success\<rparr> (''127.0.0.1'', 8080) ''/'')),
     wsThreads = [], clock = 3\<rparr>"

lemma listener_example_ok:
  obtains l where "iocWsListener listener_example = Some l" "listener_ok l" "acceptor_open l"
    "accepts l = 1" "\<not> needClose l"
proof
  let ?l = "run_listener (WsListener \<lparr>ec_open = Success, ec_set_option = Success,
       ec_bind = Success, ec_listen = Success\<rparr> (''127.0.0.1'', 8080) ''/'')"
  show "iocWsListener listener_example = Some ?l" by (simp add: listener_example_def)
  show "listener_ok ?l" by (rule WsListener_ok)
  show "acceptor_open ?l" "accepts ?l = 1" "\<not> needClose ?l"
    by (simp_all add: run_listener_def WsListener_def configureAcceptor_def do_accept_def
        isAccepting_def)
qed

theorem accept_creates_session_witness:
  "getSessById (sessions (accept_completes Success ''guid'' listener_example)) ''guid'' = Some 0
   \<and> ops (sess (accept_completes Success ''guid'' listener_example) 0) = {#Op_Accept, Op_Timer#}"
proof -
  obtain l where l: "iocWsListener listener_example = Some l" "listener_ok l" "acceptor_open l"
    "accepts l = 1" by (rule listener_example_ok)
  have w: "sessions listener_example = []" "heap listener_example = []"
    by (simp_all add: listener_example_def)
  show ?thesis
    using accept_creates_session [OF l(1-3), of "''guid''"] l(4)
    by (simp add: w Let_def registry_ok_def)
qed

text \<open>
  One failed accept silences the listener for good: the handler returns because \<open>socket_\<close> is
  not open, before it reaches the branch for the error, and does not wait for a connection again,
  while \<open>isAccepting\<close> still answers true. Likewise, when \<open>bind\<close> or \<open>listen\<close> fails at start-up the
  acceptor is open, so \<open>isAccepting\<close> answers true although nothing listens.
\<close>

theorem failed_accept_silences_listener:
  "(iocWsListener w = Some l \<and> listener_ok l \<and> acceptor_open l \<and> accepts l = 1 \<and> ec \<noteq> Success \<longrightarrow>
      accept_completes ec k w = w\<lparr>iocWsListener := Some (l\<lparr>accepts := 0\<rparr>)\<rparr>
      \<and> isAccepting (l\<lparr>accepts := 0\<rparr>))
   \<and> (ec_open ae = Success \<and> (ec_bind ae \<noteq> Success \<or> ec_listen ae \<noteq> Success) \<longrightarrow>
      isAccepting (WsListener ae ep root) \<and> \<not> acceptor_listening (WsListener ae ep root))"
  using accept_failure [of w l ec k]
  by (auto simp: isAccepting_def WsListener_def configureAcceptor_def Let_def)

theorem failed_accept_silences_listener_witness:
  "(\<exists>l. accept_completes (Other_Error 24) ''guid'' listener_example
      = listener_example\<lparr>iocWsListener := Some (l\<lparr>accepts := 0\<rparr>)\<rparr> \<and> isAccepting (l\<lparr>accepts := 0\<rparr>))
   \<and> isAccepting (WsListener \<lparr>ec_open = Success, ec_set_option = Success,
       ec_bind = Other_Error 98, ec_listen = Success\<rparr> (''127.0.0.1'', 8080) ''/'')"
proof -
  obtain l where l: "iocWsListener listener_example = Some l" "listener_ok l" "acceptor_open l"
    "accepts l = 1" by (rule listener_example_ok)
  then show ?thesis
    using failed_accept_silences_listener [of listener_example l "Other_Error 24" "''guid''"
        "\<lparr>ec_open = Success, ec_set_option = Success, ec_bind = Other_Error 98, ec_listen = Success\<rparr>"
        "(''127.0.0.1'', 8080)" "''/''"]
    by auto
qed

end
