(* ===== verification/Csv_Analysis.thy ===== *)
theory Csv_Analysis
  imports Csv_Table String_Utils
begin

text \<open>
  The analysis of an uploaded table, the loop of \<open>csvAnalizeCallback\<close> in
  \<open>net/websockets/WsServer.cpp\<close>: the latest date in the first column, and the quotient of the
  second and third column. \<open>boost::lexical_cast<double>\<close> and the floating-point operations are
  parameters (record \<open>float_env\<close>); \<open>None\<close> of the cast is the exception \<open>bad_lexical_cast\<close>.
\<close>

section \<open>The loop\<close>

record 'd float_env =
  gmtoff :: int
  lexical_cast_double :: "string \<Rightarrow> 'd option"
  isinf :: "'d \<Rightarrow> bool"
  is_zero :: "'d \<Rightarrow> bool"
  fdiv :: "'d \<Rightarrow> 'd \<Rightarrow> 'd"
  fzero :: 'd

definition cast_field :: "('d, 'x) float_env_scheme \<Rightarrow> csv \<Rightarrow> u32 \<Rightarrow> u32 \<Rightarrow> 'd result" where
  "cast_field env csv i j =
     rbind (getAt csv i j) (\<lambda>f. case lexical_cast_double env f of
       None \<Rightarrow> Inl (Exception ''bad_lexical_cast'') | Some d \<Rightarrow> Inr d)"

definition analize_row ::
    "('d, 'x) float_env_scheme \<Rightarrow> csv \<Rightarrow> u32 \<Rightarrow> time_point \<times> 'd \<Rightarrow> (time_point \<times> 'd) result" where
  "analize_row env csv i acc =
     (case acc of (maxDate, delim) \<Rightarrow>
        rbind (getAt csv i 0) (\<lambda>f.
        rbind (dateTimeFromStr (gmtoff env) f default_format) (\<lambda>dt.
          if maxDate < dt then
            rbind (cast_field env csv i 1) (\<lambda>d1.
            rbind (cast_field env csv i 2) (\<lambda>d2.
              Inr (dt, if \<not> isinf env d2 \<and> \<not> is_zero env d2 then fdiv env d1 d2 else delim)))
          else Inr (maxDate, delim))))"

definition analize_rows ::
    "('d, 'x) float_env_scheme \<Rightarrow> csv \<Rightarrow> (time_point \<times> 'd) result" where
  "analize_rows env csv =
     foldM (analize_row env csv) (map word_of_nat [0..<unat (getRowsCount csv)]) (0, fzero env)"

section \<open>What the rows say\<close>

text \<open>The values in a row, when it has three fields that can be read.\<close>

definition row_values :: "('d, 'x) float_env_scheme \<Rightarrow> row \<Rightarrow> (time_point \<times> 'd \<times> 'd) option" where
  "row_values env r =
     (case r of
        f0 # f1 # f2 # _ \<Rightarrow>
          (case (dateTimeFromStr (gmtoff env) f0 default_format, lexical_cast_double env f1,
                 lexical_cast_double env f2) of
             (Inr dt, Some d1, Some d2) \<Rightarrow> Some (dt, d1, d2)
           | _ \<Rightarrow> None)
      | _ \<Rightarrow> None)"

fun note_values :: "('d, 'x) float_env_scheme \<Rightarrow> time_point \<times> 'd \<times> 'd \<Rightarrow> time_point \<times> 'd \<Rightarrow> time_point \<times> 'd" where
  "note_values env (dt, d1, d2) (maxDate, delim) =
     (if maxDate < dt
      then (dt, if \<not> isinf env d2 \<and> \<not> is_zero env d2 then fdiv env d1 d2 else delim)
      else (maxDate, delim))"

lemma row_values_Some:
  assumes "row_values env r = Some (dt, d1, d2)"
  obtains f0 f1 f2 fs where "r = f0 # f1 # f2 # fs"
    "dateTimeFromStr (gmtoff env) f0 default_format = Inr dt"
    "lexical_cast_double env f1 = Some d1" "lexical_cast_double env f2 = Some d2"
  using assms by (auto simp: row_values_def split: list.splits sum.splits option.splits)

text \<open>An access to a row that exists, for every column.\<close>

lemma getAt_row:
  assumes "unat (rowsCount csv) = length (rowsDeque csv)" and "i < length (rowsDeque csv)"
  shows "getAt csv (word_of_nat i) c =
    (if colsCount csv \<le> c then Inl Terminate
     else if length (rowsDeque csv ! i) \<le> unat c then Inl Out_Of_Bounds
     else Inr (rowsDeque csv ! i ! unat c))"
proof -
  have i: "i < 2 ^ LENGTH(32)"
  proof -
    have "unat (rowsCount csv) < 2 ^ LENGTH(32)" by (rule unsigned_less)
    with assms(1,2) show ?thesis by simp
  qed
  then have u: "unat (word_of_nat i :: u32) = i" by (simp add: unsigned_of_nat take_bit_nat_eq_self)
  then have "word_of_nat i < rowsCount csv" using assms(1,2) by (simp add: word_less_nat_alt)
  with assms u show ?thesis
    by (auto simp: getAt_def getAtRef_def getRowRef_def not_le)
qed

lemma getAt_loaded:
  assumes "unat (rowsCount csv) = length (rowsDeque csv)" and "i < length (rowsDeque csv)"
    and "c < colsCount csv" and "unat c < length (rowsDeque csv ! i)"
  shows "getAt csv (word_of_nat i) c = Inr (rowsDeque csv ! i ! unat c)"
  using assms by (simp add: getAt_row)

text \<open>A row that fails ends the loop.\<close>

lemma analize_rows_row:
  assumes "unat (rowsCount csv) = length (rowsDeque csv)" and "i < length (rowsDeque csv)"
    and "foldM (analize_row env csv) (map word_of_nat [0..<i]) (0, fzero env) = Inr acc"
    and "analize_row env csv (word_of_nat i) acc = Inl e"
  shows "analize_rows env csv = Inl e"
proof -
  have "[0..<unat (rowsCount csv)] = [0..<i] @ i # [Suc i..<unat (rowsCount csv)]"
    using assms(1,2) by (metis less_imp_add_positive upt_add_eq_append upt_conv_Cons zero_le)
  then show ?thesis using assms(3,4) by (simp add: analize_rows_def getRowsCount_def foldM_append)
qed

lemma analize_row_values:
  assumes "unat (rowsCount csv) = length (rowsDeque csv)" and "i < length (rowsDeque csv)"
    and "3 \<le> colsCount csv" and "row_values env (rowsDeque csv ! i) = Some v"
  shows "analize_row env csv (word_of_nat i) acc = Inr (note_values env v acc)"
proof -
  obtain dt d1 d2 m d where v: "v = (dt, d1, d2)" and acc: "acc = (m, d)"
    by (cases v; cases acc)
  from assms(4) v obtain f0 f1 f2 fs where f: "rowsDeque csv ! i = f0 # f1 # f2 # fs"
    "dateTimeFromStr (gmtoff env) f0 default_format = Inr dt"
    "lexical_cast_double env f1 = Some d1" "lexical_cast_double env f2 = Some d2"
    by (auto elim: row_values_Some)
  have c: "0 < colsCount csv" "1 < colsCount csv" "2 < colsCount csv"
    using assms(3) by (simp_all add: word_le_nat_alt word_less_nat_alt)
  note g = getAt_loaded [OF assms(1,2)]
  show ?thesis using f
    by (simp add: analize_row_def cast_field_def g c v acc)
qed

lemma analize_rows_fold:
  assumes "unat (rowsCount csv) = length (rowsDeque csv)" and "3 \<le> colsCount csv"
    and "map (row_values env) (rowsDeque csv) = map Some vs"
  shows "analize_rows env csv = Inr (fold (note_values env) vs (0, fzero env))"
proof -
  have len: "length vs = length (rowsDeque csv)" using assms(3) by (metis length_map)
  have "row_values env (rowsDeque csv ! i) = Some (vs ! i)" if "i < length (rowsDeque csv)" for i
    using assms(3) that len by (metis nth_map)
  then have row: "analize_row env csv (word_of_nat i) acc = Inr (note_values env (vs ! i) acc)"
    if "i < length (rowsDeque csv)" for i acc
    using that analize_row_values assms(1,2) by blast
  have "foldM (analize_row env csv) (map word_of_nat is) s = Inr (fold (note_values env) (map ((!) vs) is) s)"
    if "set is \<subseteq> {..<length (rowsDeque csv)}" for "is" s
    using that by (induction "is" arbitrary: s) (simp_all add: row)
  from this [of "[0..<length vs]"] map_nth [of vs] show ?thesis
    using assms(1) len by (simp add: analize_rows_def getRowsCount_def atLeast0LessThan)
qed




text \<open>The table that the parser makes of a text whose rows can all be read.\<close>

lemma length_csv_row:
  assumes "r \<in> set (csv_rows d s)"
  shows "length r \<le> Suc (length s)"
proof -
  obtain line where "line \<in> set (split_on (is_eol d) s)" and r: "r = fields_of d line"
    using assms by (auto simp: csv_rows_def nonempty_def dest: in_set_butlastD)
  then have "length line \<le> length s" by (simp add: length_split_on_piece)
  moreover have "length r \<le> Suc (length line)"
    unfolding r fields_of_def nonempty_def
    by (rule order_trans [OF length_filter_le]) (simp add: length_split_on)
  ultimately show ?thesis by simp
qed

lemma analize_loaded:
  assumes "length s < 2 ^ 32 - 1" and "map (row_values env) (csv_rows (CHR '','') s) = map Some vs"
  shows "\<exists>r. analize_rows env (loaded_csv default_CSV s) = Inr r"
proof -
  let ?csv = "loaded_csv default_CSV s" and ?R = "csv_rows (CHR '','') s"
  have d: "delimiter default_CSV = CHR '',''" by (simp add: default_CSV_def CSV_def)
  have n: "unat (rowsCount ?csv) = length (rowsDeque ?csv)"
    using rowsCount_loaded [of s default_CSV] assms(1) by simp
  show ?thesis
  proof (cases ?R)
    case Nil
    with n show ?thesis by (simp add: analize_rows_def getRowsCount_def d)
  next
    case (Cons r R)
    then obtain v where "row_values env r = Some v" using assms(2) by auto
    then have "3 \<le> length r" by (cases v) (auto elim: row_values_Some)
    moreover have "length r < 2 ^ 32" using length_csv_row [of r "CHR '',''" s] Cons assms(1) by simp
    moreover have "0 < rowsCount ?csv" using n Cons d by (simp add: word_less_nat_alt)
    then have "colsCount ?csv = word_of_nat (length r)"
      using Cons d by (simp add: loaded_csv_def Let_def)
    ultimately have "3 \<le> colsCount ?csv"
      by (simp add: word_le_nat_alt unat_of_nat)
    from analize_rows_fold [OF n this, of env vs] assms(2) show ?thesis by (simp add: d)
  qed
qed

section \<open>Properties\<close>


text \<open>An instance in which numbers are digit strings: it shows the hypotheses can hold.\<close>

definition digits_env :: "nat float_env" where
  "digits_env = \<lparr>gmtoff = 0,
     lexical_cast_double = (\<lambda>s. if s \<noteq> [] \<and> list_all is_digit s then Some (string_to_nat s) else None),
     isinf = (\<lambda>_. False), is_zero = (\<lambda>n. n = 0), fdiv = (div), fzero = 0\<rparr>"

definition dates_csv :: csv where
  "dates_csv = \<lparr>rowsCount = 2, colsCount = 3,
     rowsDeque = [[''02.01.1970 00:00:00'', ''8'', ''2''], [''01.01.1970 00:00:01'', ''9'', ''3'']],
     delimiter = CHR '',''\<rparr>"

lemma digits_row_values:
  "row_values digits_env [''02.01.1970 00:00:00'', ''8'', ''2''] = Some (86400000000000, 8, 2)"
  "row_values digits_env [''01.01.1970 00:00:01'', ''9'', ''3''] = Some (1000000000, 9, 3)"
  by code_simp+


text \<open>
  C37: what ends the analysis. Take any row, reached with the latest date \<open>maxDate\<close> after the rows
  before it. A date that no time point can represent ends the analysis with the failure of the date
  parser. When the date is later than \<open>maxDate\<close>, the second field and then the third one are read: a
  column that the table does not have terminates the program, a column that the table has and the row
  does not have is read outside the row, and a field that is not a number raises \<open>bad_lexical_cast\<close>.
\<close>

theorem analize_rows_fails:
  assumes "unat (rowsCount csv) = length (rowsDeque csv)" and "i < length (rowsDeque csv)"
    and "rowsDeque csv ! i = f0 # fs" and "0 < colsCount csv"
    and "foldM (analize_row env csv) (map word_of_nat [0..<i]) (0, fzero env) = Inr (maxDate, delim)"
  shows "(\<forall>e. dateTimeFromStr (gmtoff env) f0 default_format = Inl e \<longrightarrow> analize_rows env csv = Inl e)
    \<and> (\<forall>dt. dateTimeFromStr (gmtoff env) f0 default_format = Inr dt \<and> maxDate < dt \<longrightarrow>
        (colsCount csv = 1 \<longrightarrow> analize_rows env csv = Inl Terminate)
      \<and> (1 < colsCount csv \<and> fs = [] \<longrightarrow> analize_rows env csv = Inl Out_Of_Bounds)
      \<and> (\<forall>f1 gs. 1 < colsCount csv \<and> fs = f1 # gs \<and> lexical_cast_double env f1 = None \<longrightarrow>
           analize_rows env csv = Inl (Exception ''bad_lexical_cast''))
      \<and> (\<forall>f1 gs d1. fs = f1 # gs \<and> lexical_cast_double env f1 = Some d1 \<longrightarrow>
           (colsCount csv = 2 \<longrightarrow> analize_rows env csv = Inl Terminate)
         \<and> (2 < colsCount csv \<and> gs = [] \<longrightarrow> analize_rows env csv = Inl Out_Of_Bounds)
         \<and> (\<forall>f2 hs. 2 < colsCount csv \<and> gs = f2 # hs \<and> lexical_cast_double env f2 = None \<longrightarrow>
              analize_rows env csv = Inl (Exception ''bad_lexical_cast''))))"
proof -
  note fail = analize_rows_row [OF assms(1,2,5)]
  note row = analize_row_def cast_field_def getAt_row [OF assms(1,2)] assms(3)
  have c: "\<not> colsCount csv \<le> 0" "1 < colsCount csv \<Longrightarrow> \<not> colsCount csv \<le> 1"
    "2 < colsCount csv \<Longrightarrow> \<not> colsCount csv \<le> 1 \<and> \<not> colsCount csv \<le> 2"
    using assms(4) by (auto simp: word_le_nat_alt word_less_nat_alt)
  have two: "\<not> (2 :: u32) \<le> 1" by (simp add: word_le_nat_alt)
  show ?thesis using c two by (intro conjI allI impI; intro fail) (auto simp: row)
qed

text \<open>The second row of the table has no third field.\<close>

theorem analize_rows_fails_witness:
  "analize_rows digits_env (dates_csv\<lparr>rowsDeque := [[''02.01.1970 00:00:00'', ''8'', ''2''],
     [''03.01.1970 00:00:00'', ''9'']]\<rparr>) = Inl Out_Of_Bounds"
proof -
  let ?r0 = "[''02.01.1970 00:00:00'', ''8'', ''2'']" and ?r1 = "[''03.01.1970 00:00:00'', ''9'']"
  let ?csv = "dates_csv\<lparr>rowsDeque := [?r0, ?r1]\<rparr>"
  have n: "unat (rowsCount ?csv) = length (rowsDeque ?csv)" "1 < length (rowsDeque ?csv)"
    "rowsDeque ?csv ! 1 = ''03.01.1970 00:00:00'' # [''9'']" "0 < colsCount ?csv"
    by (simp_all add: dates_csv_def)
  have "analize_row digits_env ?csv (word_of_nat 0) (0, fzero digits_env)
      = Inr (note_values digits_env (86400000000000, 8, 2) (0, fzero digits_env))"
    by (rule analize_row_values) (simp_all add: dates_csv_def digits_row_values)
  then have r0: "foldM (analize_row digits_env ?csv) (map word_of_nat [0..<1]) (0, fzero digits_env)
      = Inr (86400000000000, 4)"
    by (simp add: digits_env_def)
  have "dateTimeFromStr (gmtoff digits_env) ''03.01.1970 00:00:00'' default_format = Inr 172800000000000"
    "lexical_cast_double digits_env ''9'' = Some 9"
    by code_simp+
  with analize_rows_fails [OF n r0] show ?thesis by (simp add: dates_csv_def)
qed

end
