(* ===== verification/Ws_Server.thy ===== *)
theory Ws_Server
  imports Ws_Listener Csv_Analysis
begin

text \<open>
  \<open>net/websockets/WsServer\<close> with \<open>net/NetworkManager\<close> and \<open>config/ServerConfig\<close>: the callbacks of
  the three operations, the server object, broadcasting, the tick that runs the queued callbacks
  of every session, start-up and shut-down. The record \<open>env\<close> adds to the parameters of the
  analysis the order in which the hash table of sessions is traversed.

  An error result is a failure that leaves the operation: for the tick it means the end of the
  process, because nothing in \<open>main\<close> catches it.
\<close>

section \<open>Callbacks\<close>

record 'd env = "'d float_env" +
  iter_order :: "nat registry \<Rightarrow> nat registry"

definition pingCallback :: "nat option \<Rightarrow> string option \<Rightarrow> world \<Rightarrow> world result" where
  "pingCallback cs mb w =
     (case mb of None \<Rightarrow> Inr w | Some m \<Rightarrow>
      case cs of None \<Rightarrow> Inr w | Some a \<Rightarrow> Inr (send_shared a (Some m) w))"

definition csv_response :: "csv \<Rightarrow> string" where
  "csv_response csv = opcodeToStr CSV_ANSWER @ nat_to_string (unat (getRowsCount csv))"

definition csvAnalizeCallback :: "'d env \<Rightarrow> nat option \<Rightarrow> string option \<Rightarrow> world \<Rightarrow> world result" where
  "csvAnalizeCallback env cs mb w =
     (case mb of None \<Rightarrow> Inr w | Some m \<Rightarrow>
      case cs of None \<Rightarrow> Inr w | Some a \<Rightarrow>
        rbind (substr m 1 (length m - 1)) (\<lambda>payload.
          case loadFromMemory default_CSV payload of
            None \<Rightarrow> Inl Hang
          | Some r \<Rightarrow>
              rbind r (\<lambda>csv.
              rbind (analize_rows env csv) (\<lambda>_.
                Inr (send a (csv_response csv) w)))))"

definition csvAnswerCallback :: "nat option \<Rightarrow> string option \<Rightarrow> world \<Rightarrow> world result" where
  "csvAnswerCallback cs mb w =
     (case mb of None \<Rightarrow> Inr w | Some m \<Rightarrow>
      case cs of None \<Rightarrow> Inr w | Some a \<Rightarrow>
        rbind (substr m 1 (length m - 1)) (\<lambda>_. Inr w))"

definition exec_callback :: "'d env \<Rightarrow> bound_callback \<Rightarrow> world \<Rightarrow> world result" where
  "exec_callback env b w =
     (case callback b of
        PingCallback \<Rightarrow> pingCallback (clientSession b) (messageBuffer b) w
      | CsvAnalizeCallback \<Rightarrow> csvAnalizeCallback env (clientSession b) (messageBuffer b) w
      | CsvAnswerCallback \<Rightarrow> csvAnswerCallback (clientSession b) (messageBuffer b) w)"

section \<open>The server object\<close>

definition server_callbacks :: "ws_callback ws_input_callbacks" where
  "server_callbacks =
     addCallback (WsNetworkOperation CSV_ANSWER (opcodeToStr CSV_ANSWER)) CsvAnswerCallback
      (addCallback (WsNetworkOperation CSV_ANALIZE (opcodeToStr CSV_ANALIZE)) CsvAnalizeCallback
        (addCallback (WsNetworkOperation PING (opcodeToStr PING)) PingCallback WSInputCallbacks))"

definition WSServer :: "nat \<Rightarrow> world" where
  "WSServer now = \<lparr>heap = [], sessions = [], operationCallbacks = server_callbacks,
     iocWsListener = None, wsThreads = [], clock = now\<rparr>"

definition sendToAll :: "'d env \<Rightarrow> string \<Rightarrow> world \<Rightarrow> world" where
  "sendToAll env message w =
     fold (\<lambda>(_, p) w. case p of None \<Rightarrow> w | Some a \<Rightarrow> send a message w)
       (iter_order env (getSessions (sessions w))) w"

definition sendTo :: "string \<Rightarrow> string \<Rightarrow> world \<Rightarrow> world" where
  "sendTo sessionID message w =
     (case map_of (getSessions (sessions w)) sessionID of
        None \<Rightarrow> w
      | Some None \<Rightarrow> w
      | Some (Some a) \<Rightarrow> send a message w)"

text \<open>
  The queue of a session as a part of the world, for \<open>DispatchQueued\<close>.
\<close>

definition queue_at :: "nat \<Rightarrow> world \<Rightarrow> bound_callback dispatch_queue" where
  "queue_at a w = the (receivedMessagesQueue (sess w a))"

definition upd_queue_at ::
    "nat \<Rightarrow> (bound_callback dispatch_queue \<Rightarrow> bound_callback dispatch_queue) \<Rightarrow> world \<Rightarrow> world" where
  "upd_queue_at a f w =
     upd_sess a (\<lambda>s. s\<lparr>receivedMessagesQueue := map_option f (receivedMessagesQueue s)\<rparr>) w"

text \<open>
  The function that \<open>handleIncomingMessages\<close> passes to \<open>doToAllSessions\<close>. Its guard against a null
  session never fires, because \<open>doToAllSessions\<close> skips those.
\<close>

definition handle_session :: "'d env \<Rightarrow> string \<Rightarrow> nat \<Rightarrow> world \<Rightarrow> world result" where
  "handle_session env sessId a w =
     (case getReceivedMessages (sess w a) of
        None \<Rightarrow> Inr w
      | Some msgs \<Rightarrow>
          (case DispatchQueued (queue_at a) (upd_queue_at a) (exec_callback env) w of
             None \<Rightarrow> Inl Hang | Some r \<Rightarrow> r))"

definition handleIncomingMessages :: "'d env \<Rightarrow> world \<Rightarrow> world result" where
  "handleIncomingMessages env w =
     doToAllSessions (iter_order env) (handle_session env) (sessions w) w"

section \<open>Configuration, start-up and shut-down\<close>

record server_config =
  workdir :: string
  address :: string
  wsPort :: "16 word"
  threads :: "32 word"

definition loadConf :: "server_config \<Rightarrow> server_config" where
  "loadConf c = c\<lparr>address := ''127.0.0.1'', wsPort := 8080, threads := 1\<rparr>"

definition ServerConfig :: "string \<Rightarrow> server_config" where
  "ServerConfig dir = loadConf \<lparr>workdir = dir, address = '''', wsPort = 0, threads = 0\<rparr>"

text \<open>\<open>threads_\<close> is a signed 32-bit integer; \<open>reserve\<close> throws on a negative one.\<close>

fun spawn :: "nat \<Rightarrow> io_thread list \<Rightarrow> io_thread list" where
  "spawn 0 ts = ts"
| "spawn (Suc i) ts = spawn i (ts @ [Joinable])"

definition runThreads :: "server_config \<Rightarrow> world \<Rightarrow> world result" where
  "runThreads c w =
     (if sint (threads c) < 0 then Inl (Exception ''length_error'')
      else Inr (w\<lparr>wsThreads := spawn (nat (sint (threads c))) (wsThreads w)\<rparr>))"

text \<open>
  Joining a thread blocks until \<open>ioc_.run()\<close> returns; \<open>drain\<close> is what the other threads do until
  then, \<open>None\<close> if they never finish and \<open>Inl\<close> if the process ends with the failure of a handler.
\<close>

definition finishThreads :: "(world \<Rightarrow> world result option) \<Rightarrow> world \<Rightarrow> world result option" where
  "finishThreads drain w =
     foldl (\<lambda>acc i. case acc of
          Some (Inr w) \<Rightarrow>
            if wsThreads w ! i = Joinable
            then map_option (\<lambda>r. rbind r (\<lambda>w. Inr (w\<lparr>wsThreads := (wsThreads w)[i := Joined]\<rparr>))) (drain w)
            else Some (Inr w)
        | _ \<Rightarrow> acc) (Some (Inr w)) [0..<length (wsThreads w)]"

definition runIocWsListener :: "acceptor_env \<Rightarrow> server_config \<Rightarrow> world \<Rightarrow> world" where
  "runIocWsListener ae c w =
     (let l = WsListener ae (address c, wsPort c) (workdir c) in
      w\<lparr>iocWsListener := Some (run_listener l)\<rparr>)"

text \<open>\<open>NetworkManager\<close>: a pointer to the server, null until \<open>run\<close>.\<close>

record network_manager =
  wsServer :: "world option"

definition NetworkManager :: network_manager where
  "NetworkManager = \<lparr>wsServer = None\<rparr>"

definition getWS :: "network_manager \<Rightarrow> world option" where
  "getWS nm = wsServer nm"

definition nm_handleIncomingMessages :: "'d env \<Rightarrow> network_manager \<Rightarrow> network_manager result" where
  "nm_handleIncomingMessages env nm =
     (case wsServer nm of
        None \<Rightarrow> Inl Null_Dereference
      | Some w \<Rightarrow>
          (case iocWsListener w of
             None \<Rightarrow> Inl Null_Dereference
           | Some l \<Rightarrow> rbind (handleIncomingMessages env w) (\<lambda>w'. Inr (nm\<lparr>wsServer := Some w'\<rparr>))))"

definition nm_run :: "acceptor_env \<Rightarrow> server_config \<Rightarrow> nat \<Rightarrow> network_manager \<Rightarrow> network_manager result" where
  "nm_run ae c now nm =
     rbind (runThreads c (runIocWsListener ae c (WSServer now)))
       (\<lambda>w. Inr (nm\<lparr>wsServer := Some w\<rparr>))"

definition nm_finish ::
    "(world \<Rightarrow> world result option) \<Rightarrow> network_manager \<Rightarrow> network_manager result option" where
  "nm_finish drain nm =
     (case wsServer nm of
        None \<Rightarrow> Some (Inl Null_Dereference)
      | Some w \<Rightarrow>
          (case iocWsListener w of
             None \<Rightarrow> Some (Inl Null_Dereference)
           | Some l \<Rightarrow>
               map_option (\<lambda>r. rbind r (\<lambda>w'. Inr (nm\<lparr>wsServer := Some w'\<rparr>)))
                 (finishThreads drain (upd_listener stop w))))"

section \<open>Lemmas on routing\<close>

lemma server_callbacks_ok: "callbacks_ok server_callbacks"
  unfolding server_callbacks_def by (intro cbs.invar_add cbs.invar_empty)

lemma find_server_callback:
  "findCallback server_callbacks (WsNetworkOperation_code code) =
     (if code = CSV_ANSWER then Some CsvAnswerCallback
      else if code = CSV_ANALIZE then Some CsvAnalizeCallback
      else if code = PING then Some PingCallback else None)"
  unfolding server_callbacks_def
  by (simp add: cbs.find_add cbs.invar_add cbs.invar_empty cbs.find_empty)

text \<open>The callback that the first byte of a message selects.\<close>

definition route :: "string \<Rightarrow> ws_callback option" where
  "route m = (case m of
     c # _ # _ \<Rightarrow>
       if c = CHR ''0'' then Some PingCallback
       else if c = CHR ''1'' then Some CsvAnalizeCallback
       else if c = CHR ''2'' then Some CsvAnswerCallback else None
   | _ \<Rightarrow> None)"

lemma wsOpcode_c_str: "wsOpcodeFromStr (c_str (c # m)) = char_to_u32 c"
  by (cases "c = CHR 0x00") (simp_all add: c_str_def wsOpcodeFromStr_def)

lemma find_route:
  "2 \<le> length m \<Longrightarrow>
     findCallback server_callbacks (WsNetworkOperation_code (wsOpcodeFromStr (c_str m))) = route m"
  by (cases m; cases "tl m")
    (auto simp: find_server_callback wsOpcode_c_str route_def char_to_u32_inj simp flip: opcode_chars)

lemma handleIncomingData_route:
  assumes "operationCallbacks w = server_callbacks"
  shows "handleIncomingData a (Some m) w =
    (case (route m, receivedMessagesQueue (sess w a)) of
       (Some cb, Some q) \<Rightarrow>
         (upd_sess a (\<lambda>s. s\<lparr>receivedMessagesQueue :=
            Some (dispatch (Bind cb (Some a) (Some m)) q)\<rparr>) w, True)
     | _ \<Rightarrow> (w, False))"
proof (cases "length m < 2")
  case True
  then have "route m = None" by (cases m; cases "tl m") (auto simp: route_def)
  with True show ?thesis by (simp add: handleIncomingData_def split: option.split)
next
  case False
  then show ?thesis
    using find_route [of m] assms
    by (simp add: handleIncomingData_def split: option.split)
qed

section \<open>The queue of a session as a client of the dispatch loop\<close>

lemma send_message_frame [simp]:
  "receivedMessagesQueue (send_message m s) = receivedMessagesQueue s"
  "id_of (send_message m s) = id_of s"
  "ws_open (send_message m s) = ws_open s"
  "socket_open (send_message m s) = socket_open s"
  "timer_expiry (send_message m s) = timer_expiry s"
  "pingState (send_message m s) = pingState s"
  "recievedBuffer (send_message m s) = recievedBuffer s"
  by (simp_all add: send_message_def async_write_def Let_def)

lemma send_sel [simp]:
  "length (heap (send a m w)) = length (heap w)"
  "sessions (send a m w) = sessions w"
  "operationCallbacks (send a m w) = operationCallbacks w"
  "iocWsListener (send a m w) = iocWsListener w"
  "wsThreads (send a m w) = wsThreads w"
  "clock (send a m w) = clock w"
  "receivedMessagesQueue (sess (send a m w) b) = receivedMessagesQueue (sess w b)"
  by (simp_all add: send_def sess_upd_sess)

text \<open>Running a callback is at most one \<open>send\<close>.\<close>

lemma exec_callback_cases:
  assumes "exec_callback env b w = Inr w'"
  obtains "w' = w" | a m where "clientSession b = Some a" "w' = send a m w"
  using assms
  by (auto simp: exec_callback_def pingCallback_def csvAnalizeCallback_def csvAnswerCallback_def
      send_shared_def rbind_Inr_conv split: ws_callback.splits option.splits)

definition has_queue :: "nat \<Rightarrow> world \<Rightarrow> bool" where
  "has_queue a w \<longleftrightarrow> a < length (heap w) \<and> receivedMessagesQueue (sess w a) \<noteq> None"

interpretation rq: queue_client "queue_at a" "upd_queue_at a" "exec_callback env" "has_queue a"
  for a env
proof (unfold_locales, goal_cases)
  case (1 s f)
  then show ?case by (auto simp: has_queue_def queue_at_def upd_queue_at_def)
next
  case (2 s f)
  then show ?case by (auto simp: has_queue_def upd_queue_at_def)
next
  case (3 s cb s')
  then show ?case by (auto simp: queue_at_def elim: exec_callback_cases)
next
  case (4 s cb s')
  then show ?case by (auto simp: has_queue_def elim: exec_callback_cases)
qed

section \<open>The tick\<close>

text \<open>What the tick does for one session: run the queued callbacks in order, each after it is popped.\<close>

definition run_queued :: "'d env \<Rightarrow> nat \<Rightarrow> world \<Rightarrow> world result" where
  "run_queued env a w =
     foldM (\<lambda>cb w. exec_callback env cb (upd_queue_at a pop_callback w)) (callbacksQueue (queue_at a w)) w"

definition queue_ready :: "world \<Rightarrow> nat \<Rightarrow> bool" where
  "queue_ready w a \<longleftrightarrow> has_queue a w \<and> \<not> quit (queue_at a w)"

definition queues_ready :: "world \<Rightarrow> bool" where
  "queues_ready w \<longleftrightarrow> (\<forall>(k, p) \<in> set (sessions w). \<forall>a. p = Some a \<longrightarrow> queue_ready w a)"

lemma handle_session_runs:
  assumes "queue_ready w a"
  shows "handle_session env k a w = run_queued env a w"
proof -
  have "has_queue a w" "\<not> quit (queue_at a w)" using assms by (auto simp: queue_ready_def)
  from rq.DispatchQueued_runs_all [OF this, of env] show ?thesis
    using \<open>has_queue a w\<close>
    by (auto simp: handle_session_def getReceivedMessages_def has_queue_def run_queued_def
        rq.run_all_def)
qed

lemma run_queued_empties:
  assumes "queue_ready w a" and "run_queued env a w = Inr w'"
  shows "callbacksQueue (queue_at a w') = []"
  using rq.run_all_empties [of a w env w'] assms
  by (simp add: queue_ready_def run_queued_def rq.run_all_def)

lemma queue_at_send [simp]: "queue_at a (send b m w) = queue_at a w" "has_queue a (send b m w) = has_queue a w"
  by (simp_all add: queue_at_def has_queue_def)

lemma queue_at_upd:
  "has_queue a w \<Longrightarrow> queue_at b (upd_queue_at a f w) = (if b = a then f (queue_at a w) else queue_at b w)"
  "has_queue b (upd_queue_at a f w) = has_queue b w"
  by (auto simp: queue_at_def has_queue_def upd_queue_at_def sess_upd_sess)

text \<open>Running the queue of one session leaves everything but the queues and the sending sides alone.\<close>

lemma run_queued_frame:
  assumes "run_queued env a w = Inr w'" and "has_queue a w"
  shows "sessions w' = sessions w \<and> length (heap w') = length (heap w)
    \<and> operationCallbacks w' = operationCallbacks w \<and> iocWsListener w' = iocWsListener w
    \<and> clock w' = clock w \<and> wsThreads w' = wsThreads w
    \<and> (\<forall>b. has_queue b w' = has_queue b w)
    \<and> (\<forall>b. quit (queue_at b w') = quit (queue_at b w))
    \<and> (\<forall>b. b \<noteq> a \<longrightarrow> queue_at b w' = queue_at b w)"
  using assms(1) unfolding run_queued_def
proof (rule foldM_invariant [where I = "\<lambda>v. sessions v = sessions w \<and> length (heap v) = length (heap w)
    \<and> operationCallbacks v = operationCallbacks w \<and> iocWsListener v = iocWsListener w
    \<and> clock v = clock w \<and> wsThreads v = wsThreads w
    \<and> (\<forall>b. has_queue b v = has_queue b w)
    \<and> (\<forall>b. quit (queue_at b v) = quit (queue_at b w))
    \<and> (\<forall>b. b \<noteq> a \<longrightarrow> queue_at b v = queue_at b w)"], goal_cases)
  case 1
  then show ?case by simp
next
  case (2 cb v v')
  have up: "sessions (upd_queue_at a f v) = sessions v \<and> length (heap (upd_queue_at a f v)) = length (heap v)
      \<and> operationCallbacks (upd_queue_at a f v) = operationCallbacks v
      \<and> iocWsListener (upd_queue_at a f v) = iocWsListener v
      \<and> clock (upd_queue_at a f v) = clock v \<and> wsThreads (upd_queue_at a f v) = wsThreads v" for f
    by (simp add: upd_queue_at_def)
  have "has_queue a v" using 2(2) assms(2) by blast
  note q = queue_at_upd(1) [OF this] queue_at_upd(2)
  from 2(3) show ?case
    by (rule exec_callback_cases) (use 2(2) up q in \<open>auto simp: pop_callback_def\<close>)
qed

lemma queues_ready_run:
  assumes "run_queued env a w = Inr w'" and "has_queue a w" and "queues_ready w"
  shows "queues_ready w'"
  using run_queued_frame [OF assms(1,2)] assms(3) by (auto simp: queues_ready_def queue_ready_def)

lemma handleIncomingMessages_eq:
  assumes "queues_ready w" and "set (iter_order env (sessions w)) \<subseteq> set (sessions w)"
  shows "handleIncomingMessages env w =
    foldM (visit_session (\<lambda>_. run_queued env)) (iter_order env (sessions w)) w"
proof -
  have "foldM (visit_session (handle_session env)) kvs v = foldM (visit_session (\<lambda>_. run_queued env)) kvs v"
    if "set kvs \<subseteq> set (sessions v)" "queues_ready v" for kvs v
    using that
  proof (induction kvs arbitrary: v)
    case (Cons kv kvs)
    obtain k p where kv: "kv = (k, p)" by (cases kv)
    show ?case
    proof (cases p)
      case None
      with Cons kv show ?thesis by simp
    next
      case (Some a)
      with Cons.prems kv have a: "queue_ready v a" by (auto simp: queues_ready_def)
      then have eq: "handle_session env k a v = run_queued env a v" by (rule handle_session_runs)
      show ?thesis
      proof (cases "run_queued env a v")
        case (Inr v')
        have "has_queue a v" using a by (simp add: queue_ready_def)
        then have "sessions v' = sessions v" "queues_ready v'"
          using run_queued_frame [OF Inr] queues_ready_run [OF Inr] Cons.prems(2) by auto
        with Cons.IH [of v'] Cons.prems Some kv eq Inr show ?thesis by simp
      qed (simp add: kv Some eq)
    qed
  qed simp
  from this [OF assms(2,1)] show ?thesis
    by (simp add: handleIncomingMessages_def doToAllSessions_def getSessions_def)
qed

lemma tick_invariant:
  assumes "foldM (visit_session (\<lambda>_. run_queued env)) kvs v = Inr v'"
    and "queues_ready v" and "set kvs \<subseteq> set (sessions v)"
    and "\<forall>b \<in> B. callbacksQueue (queue_at b v) = []"
  shows "sessions v' = sessions v \<and> queues_ready v' \<and> length (heap v') = length (heap v)
    \<and> (\<forall>b. b \<in> B \<or> Some b \<in> snd ` set kvs \<longrightarrow> callbacksQueue (queue_at b v') = [])"
  using assms
proof (induction kvs arbitrary: v B)
  case Nil
  then show ?case by simp
next
  case (Cons kv kvs)
  obtain k p where kv: "kv = (k, p)" by (cases kv)
  show ?case
  proof (cases p)
    case None
    with Cons kv show ?thesis by auto
  next
    case (Some a)
    with Cons.prems kv have a: "queue_ready v a" "has_queue a v"
      by (auto simp: queues_ready_def queue_ready_def)
    from Cons.prems(1) kv Some obtain v1 where v1: "run_queued env a v = Inr v1"
      "foldM (visit_session (\<lambda>_. run_queued env)) kvs v1 = Inr v'"
      by (auto simp: rbind_Inr_conv)
    note fr = run_queued_frame [OF v1(1) a(2)]
    have "callbacksQueue (queue_at b v1) = []" if "b \<in> insert a B" for b
      using that run_queued_empties [OF a(1) v1(1)] fr Cons.prems(4) by (cases "b = a") auto
    with Cons.IH [OF v1(2) queues_ready_run [OF v1(1) a(2) Cons.prems(2)], of "insert a B"]
      Cons.prems(3) fr kv Some
    show ?thesis by auto
  qed
qed

lemma run_queued_idle: "callbacksQueue (queue_at a w) = [] \<Longrightarrow> run_queued env a w = Inr w"
  by (simp add: run_queued_def)

lemma tick_idle:
  assumes "\<And>k b. (k, Some b) \<in> set kvs \<Longrightarrow> callbacksQueue (queue_at b w) = []"
  shows "foldM (visit_session (\<lambda>_. run_queued env)) kvs w = Inr w"
  using assms
proof (induction kvs)
  case (Cons kv kvs)
  obtain k p where kv: "kv = (k, p)" by (cases kv)
  show ?case
  proof (cases p)
    case (Some b)
    with kv Cons.prems [of k b] have "run_queued env b w = Inr w" by (simp add: run_queued_idle)
    moreover have "foldM (visit_session (\<lambda>_. run_queued env)) kvs w = Inr w"
      using Cons.prems by (intro Cons.IH) auto
    ultimately show ?thesis by (simp add: kv Some)
  qed (use Cons kv in auto)
qed simp

lemma tick_single:
  assumes "queue_ready w a"
    and "\<And>k b. (k, Some b) \<in> set kvs \<Longrightarrow> b \<noteq> a \<Longrightarrow> callbacksQueue (queue_at b w) = []"
    and "(k, Some a) \<in> set kvs"
  shows "foldM (visit_session (\<lambda>_. run_queued env)) kvs w = run_queued env a w"
  using assms(2,3)
proof (induction kvs)
  case (Cons kv kvs)
  obtain k' p where kv: "kv = (k', p)" by (cases kv)
  have after: "foldM (visit_session (\<lambda>_. run_queued env)) kvs w' = Inr w'"
    if "run_queued env a w = Inr w'" for w'
  proof (rule tick_idle)
    fix k'' b
    assume b: "(k'', Some b) \<in> set kvs"
    show "callbacksQueue (queue_at b w') = []"
    proof (cases "b = a")
      case True
      with run_queued_empties [OF assms(1) that] show ?thesis by simp
    next
      case False
      moreover have "has_queue a w" using assms(1) by (simp add: queue_ready_def)
      ultimately show ?thesis using run_queued_frame [OF that] Cons.prems(1) [of k'' b] b by auto
    qed
  qed
  consider "p = None" | "p = Some a" | b where "p = Some b" "b \<noteq> a" by (cases p) auto
  then show ?case
  proof cases
    case 1
    with Cons kv show ?thesis by auto
  next
    case 2
    then show ?thesis using after kv by (cases "run_queued env a w") simp_all
  next
    case 3
    with Cons.prems(1) [of k' b] kv have "run_queued env b w = Inr w" by (simp add: run_queued_idle)
    with 3 Cons kv show ?thesis by auto
  qed
qed simp

section \<open>From the wire to the answer\<close>

lemma on_read_message:
  assumes "operationCallbacks w = server_callbacks" and "has_queue a w"
    and "recievedBuffer (sess w a) = m" and "m \<noteq> []" and "length m \<le> maxReceiveMsgSizebyte"
  shows "on_read a Success w = upd_sess a (\<lambda>s. s\<lparr>
      receivedMessagesQueue := map_option (\<lambda>q. case route m of
          None \<Rightarrow> q | Some cb \<Rightarrow> dispatch (Bind cb (Some a) (Some m)) q) (receivedMessagesQueue s),
      recievedBuffer := [], ops := (if ws_open s then add_mset Op_Read (ops s) else ops s)\<rparr>) w"
proof -
  have a: "a < length (heap w)" using assms(2) by (simp add: has_queue_def)
  obtain q where q: "receivedMessagesQueue (sess w a) = Some q" using assms(2) by (auto simp: has_queue_def)
  show ?thesis
  proof (cases "route m")
    case None
    with assms q a show ?thesis
      by (cases "heap w ! a") (auto simp: on_read_def process_buffer_def handleIncomingData_route do_read_def isOpen_def
          upd_sess_def sess_def Let_def)
  next
    case (Some cb)
    with assms q a show ?thesis
      by (auto simp: on_read_def process_buffer_def handleIncomingData_route do_read_def isOpen_def upd_sess_def
          sess_def Let_def)
  qed
qed

lemma csvAnalizeCallback_answers:
  assumes "length payload \<le> maxReceiveMsgSizebyte" and "fields_fit (CHR '','') payload"
    and "map (row_values env) (csv_rows (CHR '','') payload) = map Some vs"
  shows "csvAnalizeCallback env (Some a) (Some (c # payload)) w =
    Inr (send a (''2'' @ nat_to_string (length (csv_rows (CHR '','') payload))) w)"
proof -
  have d: "delimiter default_CSV = CHR '',''" "fresh_csv default_CSV"
    by (simp_all add: default_CSV_def CSV_def fresh_csv_def)
  have len: "length payload \<le> 2 ^ 32 - 2048" "length payload < 2 ^ 32 - 1" "length payload < 2 ^ 32"
    using assms(1) by (simp_all add: maxReceiveMsgSizebyte_def)
  obtain r where r: "analize_rows env (loaded_csv default_CSV payload) = Inr r"
    using analize_loaded [OF len(2) assms(3)] by auto
  show ?thesis
    using loadFromMemory_fresh [OF d(2) len(1)] assms(2) r rowsCount_loaded [OF len(3), of default_CSV]
    by (simp add: csvAnalizeCallback_def substr_def csv_response_def getRowsCount_def d opcode_strings)
qed

text \<open>One request in an otherwise idle server: reading it and the next tick amount to its callback.\<close>

lemma request_response:
  assumes "operationCallbacks w = server_callbacks" and "queue_ready w a"
    and "recievedBuffer (sess w a) = m" and "length m \<le> maxReceiveMsgSizebyte"
    and "route m = Some cb" and "(k, Some a) \<in> set (sessions w)" and "queues_ready w"
    and "\<And>k b. (k, Some b) \<in> set (sessions w) \<Longrightarrow> callbacksQueue (queue_at b w) = []"
    and "set (iter_order env (sessions w)) = set (sessions w)"
  shows "handleIncomingMessages env (on_read a Success w) =
    exec_callback env (Bind cb (Some a) (Some m)) (upd_sess a (\<lambda>s. s\<lparr>recievedBuffer := [],
      ops := (if ws_open s then add_mset Op_Read (ops s) else ops s)\<rparr>) w)"
proof -
  let ?w1 = "on_read a Success w"
  let ?w0 = "upd_sess a (\<lambda>s. s\<lparr>recievedBuffer := [],
      ops := (if ws_open s then add_mset Op_Read (ops s) else ops s)\<rparr>) w"
  have hq: "has_queue a w" "a < length (heap w)" using assms(2) by (auto simp: queue_ready_def has_queue_def)
  then obtain q where q: "receivedMessagesQueue (sess w a) = Some q" by (auto simp: has_queue_def)
  have qe: "callbacksQueue q = []" using assms(6,8) q by (force simp: queue_at_def)
  have m: "m \<noteq> []" using assms(5) by (auto simp: route_def)
  note rd = on_read_message [OF assms(1) hq(1) assms(3) m assms(4), unfolded assms(5)]
  have w1: "sessions ?w1 = sessions w" by (simp add: rd)
  have ready: "queue_ready ?w1 b = queue_ready w b" for b
    using q hq by (auto simp: rd queue_ready_def has_queue_def queue_at_def sess_upd_sess dispatch_def)
  then have "queues_ready ?w1" using assms(7) w1 by (simp add: queues_ready_def)
  moreover have other: "queue_at b ?w1 = queue_at b w" if "b \<noteq> a" for b
    using that by (simp add: rd queue_at_def sess_upd_sess)
  moreover have "queue_at a ?w1 = dispatch (Bind cb (Some a) (Some m)) q"
    using q hq by (simp add: rd queue_at_def)
  moreover have pop: "upd_queue_at a pop_callback ?w1 = ?w0"
  proof -
    have idle: "q\<lparr>callbacksQueue := []\<rparr> = q" using qe by simp
    show ?thesis using q hq qe
      by (simp add: rd upd_queue_at_def upd_sess_twice comp_def)
        (cases "sess w a", simp add: upd_sess_def dispatch_def pop_callback_def idle)
  qed
  ultimately have "run_queued env a ?w1 = exec_callback env (Bind cb (Some a) (Some m)) ?w0"
    using qe by (simp add: run_queued_def dispatch_def)
  moreover have "callbacksQueue (queue_at b ?w1) = []"
    if "(k, Some b) \<in> set (iter_order env (sessions w))" "b \<noteq> a" for k b
    using that assms(8,9) other by auto
  ultimately show ?thesis
    using tick_single [of ?w1 a "iter_order env (sessions w)" k env]
      handleIncomingMessages_eq [of ?w1 env] \<open>queues_ready ?w1\<close> assms(2,6,9) ready w1
    by simp
qed

end
