(* ===== verification/Server_Protocol.thy ===== *)
theory Server_Protocol
  imports Ws_Server
begin

text \<open>
  What a client can rely on: how a message is routed, what the server answers and when, what the
  tick does with the queued work, who receives a broadcast, and which messages end the process.
  These properties put \<open>WsSession\<close>, \<open>WSServer\<close>, the dispatch queue, the session table, the parser
  and the analysis together.
\<close>

section \<open>Instances for the examples\<close>

definition example_env :: "nat env" where
  "example_env = float_env.extend digits_env \<lparr>iter_order = rev\<rparr>"

definition example_world :: "string \<Rightarrow> world" where
  "example_world m = \<lparr>heap = [(WsSession True ''a'')\<lparr>ws_open := True, recievedBuffer := m\<rparr>, WsSession True ''b''],
     sessions = [(''a'', Some 0), (''b'', Some 1)], operationCallbacks = server_callbacks,
     iocWsListener = None, wsThreads = [], clock = 0\<rparr>"

lemma example_env_sel [simp]:
  "gmtoff example_env = 0" "iter_order example_env = rev"
  "row_values example_env = row_values digits_env"
  "lexical_cast_double example_env = lexical_cast_double digits_env"
  by (auto simp: example_env_def digits_env_def float_env.defs row_values_def fun_eq_iff
      split: list.split)

lemma example_world_sel [simp]:
  "operationCallbacks (example_world m) = server_callbacks"
  "sessions (example_world m) = [(''a'', Some 0), (''b'', Some 1)]"
  "recievedBuffer (sess (example_world m) 0) = m"
  "isOpen (sess (example_world m) 0)"
  "length (heap (example_world m)) = 2"
  "accepted_messages (sess (example_world m) 0) = []"
  "tx_ok (sess (example_world m) 0)"
  by (simp_all add: example_world_def sess_def isOpen_def accepted_messages_def pending_def WsSession_def
      tx_ok_def writes_def)

lemma example_world_queues [simp]:
  "queue_ready (example_world m) 0" "queues_ready (example_world m)"
  "a < 2 \<Longrightarrow> callbacksQueue (queue_at a (example_world m)) = []"
  by (auto simp: example_world_def sess_def queue_ready_def queues_ready_def has_queue_def queue_at_def
      WsSession_def DispatchQueue_def less_2_cases_iff)

section \<open>Routing\<close>

text \<open>
  C29: a message is routed by its first byte. A message of at least two bytes that starts with
  \<open>0\<close>, \<open>1\<close> or \<open>2\<close> is put at the end of the session's queue exactly once, with the callback of its
  operation, a pointer to the session and the whole message; the function answers true. Any other
  message leaves the whole server unchanged and the answer is false.
\<close>

theorem message_routing:
  assumes "operationCallbacks w = server_callbacks" and "has_queue a w"
  shows "handleIncomingData a (Some m) w =
    (case route m of
       None \<Rightarrow> (w, False)
     | Some cb \<Rightarrow> (upd_queue_at a (dispatch (Bind cb (Some a) (Some m))) w, True))"
proof -
  obtain q where q: "receivedMessagesQueue (sess w a) = Some q" "a < length (heap w)"
    using assms(2) by (auto simp: has_queue_def)
  then show ?thesis
    using handleIncomingData_route [OF assms(1), of a m]
    by (cases "route m") (simp_all add: upd_queue_at_def upd_sess_def)
qed

theorem message_routing_witness:
  "snd (handleIncomingData 0 (Some ''0hello'') (example_world ''0hello''))
   \<and> \<not> snd (handleIncomingData 0 (Some ''3hello'') (example_world ''3hello''))
   \<and> \<not> snd (handleIncomingData 0 (Some ''0'') (example_world ''0''))"
proof -
  have "has_queue 0 (example_world m)" for m
    using example_world_queues(1) [of m] by (simp add: queue_ready_def)
  from message_routing [OF example_world_sel(1) this] show ?thesis by (simp add: route_def)
qed

section \<open>Requests and answers\<close>

text \<open>
  C5: an upload of a well-formed table is answered. When a session of an otherwise idle server
  reads a message \<open>1\<close> followed by a CSV text whose fields fit the parser's buffer and whose rows
  all have three readable fields, then the next tick succeeds, and the session has accepted for
  sending exactly one new message: \<open>2\<close> followed by the number of terminated, non-empty rows in
  decimal. The session has started to read the next message, and the other sessions are untouched.
\<close>

theorem csv_request_answered:
  assumes "operationCallbacks w = server_callbacks" and "queue_ready w a" and "queues_ready w"
    and "recievedBuffer (sess w a) = ''1'' @ payload" and "payload \<noteq> []"
    and "length payload < maxReceiveMsgSizebyte"
    and "(k, Some a) \<in> set (sessions w)" and "tx_ok (sess w a)" and "isOpen (sess w a)"
    and "\<And>k b. (k, Some b) \<in> set (sessions w) \<Longrightarrow> callbacksQueue (queue_at b w) = []"
    and "set (iter_order env (sessions w)) = set (sessions w)"
    and "fields_fit (CHR '','') payload"
    and "map (row_values env) (csv_rows (CHR '','') payload) = map Some vs"
  shows "\<exists>w'. handleIncomingMessages env (on_read a Success w) = Inr w'
    \<and> accepted_messages (sess w' a) =
        accepted_messages (sess w a) @ [''2'' @ nat_to_string (length (csv_rows (CHR '','') payload))]
    \<and> count (ops (sess w' a)) Op_Read = Suc (count (ops (sess w a)) Op_Read)
    \<and> sessions w' = sessions w \<and> (\<forall>b. b \<noteq> a \<longrightarrow> sess w' b = sess w b)"
proof -
  let ?answer = "''2'' @ nat_to_string (length (csv_rows (CHR '','') payload))"
  let ?w0 = "upd_sess a (\<lambda>s. s\<lparr>recievedBuffer := [],
      ops := (if ws_open s then add_mset Op_Read (ops s) else ops s)\<rparr>) w"
  have a: "a < length (heap w)" using assms(2) by (simp add: queue_ready_def has_queue_def)
  have route: "route (''1'' @ payload) = Some CsvAnalizeCallback"
    using assms(5) by (cases payload) (simp_all add: route_def)
  have len: "length (''1'' @ payload) \<le> maxReceiveMsgSizebyte" using assms(6) by simp
  have "handleIncomingMessages env (on_read a Success w) =
      exec_callback env (Bind CsvAnalizeCallback (Some a) (Some (''1'' @ payload))) ?w0"
    by (rule request_response [OF assms(1,2,4) len route assms(7,3,10,11)])
  also have "\<dots> = Inr (send a ?answer ?w0)"
    using csvAnalizeCallback_answers [OF _ assms(12,13)] assms(6) by (simp add: exec_callback_def)
  finally have eq: "handleIncomingMessages env (on_read a Success w) = Inr (send a ?answer ?w0)" .
  have "length (nat_to_string (length (csv_rows (CHR '','') payload))) < maxSendMsgSizebyte"
  proof -
    have "length (csv_rows (CHR '','') payload) \<le> length payload"
      using length_csv_rows [of "CHR '',''" payload] length_filter_le [of "is_eol (CHR '','')" payload]
      by (rule order_trans)
    then show ?thesis
      using length_nat_to_string [of "length (csv_rows (CHR '','') payload)"] assms(6)
      by (simp add: maxReceiveMsgSizebyte_def maxSendMsgSizebyte_def)
  qed
  then have "sendable ?answer" by (simp add: sendable_def)
  moreover have "tx_ok (sess ?w0 a)" "accepted_messages (sess ?w0 a) = accepted_messages (sess w a)"
    using assms(8) a by (simp_all add: tx_ok_def writes_def accepted_messages_def pending_def)
  ultimately have "accepted_messages (sess (send a ?answer ?w0) a) = accepted_messages (sess w a) @ [?answer]"
    using tx_ok_send_message [of "sess ?w0 a" ?answer] a by (simp add: send_def)
  moreover have "count (ops (sess (send a ?answer ?w0) a)) Op_Read = Suc (count (ops (sess w a)) Op_Read)"
    using assms(9) a by (simp add: send_def send_message_def async_write_def Let_def isOpen_def)
  ultimately show ?thesis unfolding eq by (auto simp: send_def sess_upd_sess)
qed

definition example_payload :: string where
  "example_payload = ''02.01.1970 00:00:00,8,2'' @ [CHR 0x0A] @ ''01.01.1970 00:00:01,9,3'' @ [CHR 0x0A]"

lemma example_payload_rows:
  "csv_rows (CHR '','') example_payload =
     [[''02.01.1970 00:00:00'', ''8'', ''2''], [''01.01.1970 00:00:01'', ''9'', ''3'']]"
  "fields_fit (CHR '','') example_payload"
  "map (row_values digits_env) (csv_rows (CHR '','') example_payload) =
     map Some [(86400000000000, 8, 2), (1000000000, 9, 3)]"
proof -
  show rows: "csv_rows (CHR '','') example_payload =
      [[''02.01.1970 00:00:00'', ''8'', ''2''], [''01.01.1970 00:00:01'', ''9'', ''3'']]"
    by code_simp
  have "split_on (is_sep (CHR '','')) example_payload =
      [''02.01.1970 00:00:00'', ''8'', ''2'', ''01.01.1970 00:00:01'', ''9'', ''3'', []]"
    by code_simp
  then show "fields_fit (CHR '','') example_payload"
    by (simp add: fields_fit_def MAX_FIELD_SIZE_def)
  show "map (row_values digits_env) (csv_rows (CHR '','') example_payload) =
      map Some [(86400000000000, 8, 2), (1000000000, 9, 3)]"
    by (simp add: rows digits_row_values)
qed

lemma example_world_idle: "(k, Some b) \<in> set (sessions (example_world m)) \<Longrightarrow>
    callbacksQueue (queue_at b (example_world m)) = []"
  by auto

theorem csv_request_answered_witness:
  "\<exists>w'. handleIncomingMessages example_env
        (on_read 0 Success (example_world (''1'' @ example_payload))) = Inr w'
     \<and> accepted_messages (sess w' 0) = [''22'']"
proof -
  let ?w = "example_world (''1'' @ example_payload)"
  have "nat_to_string (Suc (Suc 0)) = ''2''" by code_simp
  moreover have "example_payload \<noteq> []" "length example_payload < maxReceiveMsgSizebyte"
    by (simp_all add: example_payload_def maxReceiveMsgSizebyte_def)
  ultimately show ?thesis
    using csv_request_answered [of ?w 0 example_payload "''a''" example_env
        "[(86400000000000, 8, 2), (1000000000, 9, 3)]"] example_payload_rows example_world_idle
    by (auto simp: insert_commute)
qed

text \<open>
  C33: a ping is echoed up to its first NUL byte. When a session of an otherwise idle server reads
  a message that starts with \<open>0\<close> and has at least two bytes, the next tick makes the session accept
  exactly one message for sending, the one received if it has no NUL byte, and otherwise its part
  before the first one.
\<close>

theorem ping_echoed:
  assumes "operationCallbacks w = server_callbacks" and "queue_ready w a" and "queues_ready w"
    and "recievedBuffer (sess w a) = ''0'' @ payload" and "payload \<noteq> []"
    and "length payload < maxReceiveMsgSizebyte"
    and "(k, Some a) \<in> set (sessions w)" and "tx_ok (sess w a)"
    and "\<And>k b. (k, Some b) \<in> set (sessions w) \<Longrightarrow> callbacksQueue (queue_at b w) = []"
    and "set (iter_order env (sessions w)) = set (sessions w)"
  shows "\<exists>w'. handleIncomingMessages env (on_read a Success w) = Inr w'
    \<and> accepted_messages (sess w' a) = accepted_messages (sess w a) @ [''0'' @ c_str payload]
    \<and> (CHR 0x00 \<notin> set payload \<longrightarrow> ''0'' @ c_str payload = ''0'' @ payload)"
proof -
  let ?w0 = "upd_sess a (\<lambda>s. s\<lparr>recievedBuffer := [],
      ops := (if ws_open s then add_mset Op_Read (ops s) else ops s)\<rparr>) w"
  have a: "a < length (heap w)" using assms(2) by (simp add: queue_ready_def has_queue_def)
  have route: "route (''0'' @ payload) = Some PingCallback"
    using assms(5) by (cases payload) (simp_all add: route_def)
  have len: "length (''0'' @ payload) \<le> maxReceiveMsgSizebyte" using assms(6) by simp
  have c: "c_str (''0'' @ payload) = ''0'' @ c_str payload" by (simp add: c_str_def)
  have "handleIncomingMessages env (on_read a Success w) =
      exec_callback env (Bind PingCallback (Some a) (Some (''0'' @ payload))) ?w0"
    by (rule request_response [OF assms(1,2,4) len route assms(7,3,9,10)])
  then have eq: "handleIncomingMessages env (on_read a Success w) = Inr (send a (''0'' @ c_str payload) ?w0)"
    using c by (simp add: exec_callback_def pingCallback_def send_shared_def)
  have "length (c_str payload) \<le> length payload" by (simp add: c_str_def length_takeWhile_le)
  with assms(6) have "sendable (''0'' @ c_str payload)"
    by (simp add: sendable_def maxReceiveMsgSizebyte_def maxSendMsgSizebyte_def)
  moreover have "tx_ok (sess ?w0 a)" "accepted_messages (sess ?w0 a) = accepted_messages (sess w a)"
    using assms(8) a by (simp_all add: tx_ok_def writes_def accepted_messages_def pending_def)
  ultimately show ?thesis
    using tx_ok_send_message [of "sess ?w0 a" "''0'' @ c_str payload"] a eq by (simp add: send_def)
qed

theorem ping_echoed_witness:
  "\<exists>w'. handleIncomingMessages example_env (on_read 0 Success (example_world ''0hello'')) = Inr w'
     \<and> accepted_messages (sess w' 0) = [''0hello'']"
  using ping_echoed [of "example_world ''0hello''" 0 "''hello''" "''a''" example_env] example_world_idle
  by (auto simp: maxReceiveMsgSizebyte_def insert_commute)

text \<open>
  C25: one short message ends the server. A message \<open>1\<close> followed by a line that holds nothing but a
  date after 1970 makes the analysis ask for a second column that the table does not have; the
  tick terminates, and with it the process, for every state of the other sessions' queues being
  idle.
\<close>

theorem date_line_ends_server:
  assumes "operationCallbacks w = server_callbacks" and "queue_ready w a" and "queues_ready w"
    and "recievedBuffer (sess w a) = ''1'' @ date @ [CHR 0x0A]"
    and "length date \<le> 1024" and "date \<noteq> []" and "\<forall>c \<in> set date. \<not> is_sep (CHR '','') c"
    and "dateTimeFromStr (gmtoff env) date default_format = Inr dt" and "0 < dt"
    and "(k, Some a) \<in> set (sessions w)"
    and "\<And>k b. (k, Some b) \<in> set (sessions w) \<Longrightarrow> callbacksQueue (queue_at b w) = []"
    and "set (iter_order env (sessions w)) = set (sessions w)"
  shows "handleIncomingMessages env (on_read a Success w) = Inl Terminate"
proof -
  let ?p = "date @ [CHR 0x0A]" and ?csv = "loaded_csv default_CSV (date @ [CHR 0x0A])"
  have d: "delimiter default_CSV = CHR '',''" "fresh_csv default_CSV"
    by (simp_all add: default_CSV_def CSV_def fresh_csv_def)
  have "\<forall>c \<in> set date. \<not> is_eol (CHR '','') c" using assms(7) is_eol_is_sep by blast
  then have sp: "split_on (is_eol (CHR '','')) ?p = [date, []]" "split_on (is_sep (CHR '','')) ?p = [date, []]"
    "split_on (is_sep (CHR '','')) date = [date]"
    using assms(7) by (auto simp: split_on_snoc split_on_none is_eol_def is_sep_def)
  then have rows: "csv_rows (CHR '','') ?p = [[date]]" and fit: "fields_fit (CHR '','') ?p"
    using assms(5,6) by (auto simp: csv_rows_def fields_of_def fields_fit_def MAX_FIELD_SIZE_def)
  have load: "loadFromMemory default_CSV ?p = Some (Inr ?csv)"
    using loadFromMemory_fresh [OF d(2), of ?p] assms(5) fit d by simp
  have n: "unat (rowsCount ?csv) = length (rowsDeque ?csv)"
    using rowsCount_loaded [of ?p default_CSV] assms(5) by simp
  have "0 < rowsCount ?csv" using n rows d by (simp add: word_less_nat_alt)
  then have "colsCount ?csv = 1" using rows d by (simp add: loaded_csv_def Let_def)
  moreover have "getAt ?csv 0 0 = Inr date" using getAt_loaded [OF n, of 0 0] rows d calculation by simp
  moreover have "cast_field env ?csv 0 1 = Inl Terminate"
    using n rows d calculation \<open>0 < rowsCount ?csv\<close>
    by (simp add: cast_field_def getAt_def getAtRef_def getRowRef_def)
  ultimately have bad: "analize_rows env ?csv = Inl Terminate"
    using n rows d assms(8,9) by (simp add: analize_rows_def getRowsCount_def analize_row_def)
  have route: "route (''1'' @ ?p) = Some CsvAnalizeCallback"
    using assms(6) by (cases date) (simp_all add: route_def)
  have len: "length (''1'' @ ?p) \<le> maxReceiveMsgSizebyte"
    using assms(5) by (simp add: maxReceiveMsgSizebyte_def)
  from request_response [OF assms(1,2,4) len route assms(10,3,11,12)] load bad show ?thesis
    by (simp add: exec_callback_def csvAnalizeCallback_def substr_def)
qed

theorem date_line_ends_server_witness:
  "handleIncomingMessages example_env
     (on_read 0 Success (example_world (''1'' @ ''28.01.2019 01:21:58'' @ [CHR 0x0A]))) = Inl Terminate"
proof -
  have "dateTimeFromStr 0 ''28.01.2019 01:21:58'' default_format = Inr 1548638518000000000" by code_simp
  then show ?thesis
    using date_line_ends_server [of "example_world (''1'' @ ''28.01.2019 01:21:58'' @ [CHR 0x0A])" 0
        "''28.01.2019 01:21:58''" example_env 1548638518000000000 "''a''"] example_world_idle
    by (auto simp: is_sep_def insert_commute)
qed

section \<open>The tick, broadcasts and start-up\<close>

text \<open>
  C22: a tick runs everything that was queued. Whatever the order in which the hash table is
  traversed, the loop of every session's queue ends; the tick equals running, session by session,
  the queued callbacks in the order of their arrival; and when no callback fails, every registered
  session's queue is empty afterwards and the table of sessions is unchanged.
\<close>

theorem tick_runs_everything:
  assumes "queues_ready w" and "mset (iter_order env (sessions w)) = mset (sessions w)"
  shows "handleIncomingMessages env w =
      foldM (visit_session (\<lambda>_. run_queued env)) (iter_order env (sessions w)) w
    \<and> (\<forall>w'. handleIncomingMessages env w = Inr w' \<longrightarrow> sessions w' = sessions w
        \<and> (\<forall>k a. (k, Some a) \<in> set (sessions w) \<longrightarrow> callbacksQueue (queue_at a w') = []))"
proof -
  have set: "set (iter_order env (sessions w)) = set (sessions w)" using assms(2) by (rule mset_eq_setD)
  then have eq: "handleIncomingMessages env w =
      foldM (visit_session (\<lambda>_. run_queued env)) (iter_order env (sessions w)) w"
    using assms(1) by (intro handleIncomingMessages_eq) auto
  have "sessions w' = sessions w
      \<and> (\<forall>k a. (k, Some a) \<in> set (sessions w) \<longrightarrow> callbacksQueue (queue_at a w') = [])"
    if "handleIncomingMessages env w = Inr w'" for w'
    using tick_invariant [OF that [unfolded eq] assms(1), of "{}"] set by force
  with eq show ?thesis by blast
qed

theorem tick_runs_everything_witness:
  "handleIncomingMessages example_env (fst (handleIncomingData 0 (Some ''0x'') (example_world []))) =
     foldM (visit_session (\<lambda>_. run_queued example_env)) [(''b'', Some 1), (''a'', Some 0)]
       (fst (handleIncomingData 0 (Some ''0x'') (example_world [])))"
proof -
  let ?w = "fst (handleIncomingData 0 (Some ''0x'') (example_world []))"
  have "receivedMessagesQueue (sess (example_world []) 0) =
      Some (DispatchQueue ''WebSockets Server Dispatch Queue'' 0)"
    by (simp add: example_world_def sess_def WsSession_def)
  then have w: "?w = upd_sess 0 (\<lambda>s. s\<lparr>receivedMessagesQueue := Some (dispatch
      (Bind PingCallback (Some 0) (Some ''0x''))
      (DispatchQueue ''WebSockets Server Dispatch Queue'' 0))\<rparr>) (example_world [])"
    by (simp add: handleIncomingData_route route_def)
  have "queues_ready ?w"
    using example_world_queues(2) [of "[]"] unfolding w
    by (auto simp: queues_ready_def queue_ready_def has_queue_def queue_at_def sess_upd_sess dispatch_def
        DispatchQueue_def)
  then show ?thesis using tick_runs_everything [of ?w example_env] by (simp add: w)
qed

lemma sendToAll_fold:
  assumes "distinct (map snd kvs)" and "\<And>k p. (k, p) \<in> set kvs \<Longrightarrow> \<exists>a. p = Some a \<and> a < length (heap w)"
  shows "sess (fold (\<lambda>(_, p) w. case p of None \<Rightarrow> w | Some a \<Rightarrow> send a m w) kvs w) b =
    (if Some b \<in> snd ` set kvs then send_message m (sess w b) else sess w b)"
  using assms
proof (induction kvs arbitrary: w)
  case (Cons kv kvs)
  obtain k p where kv: "kv = (k, p)" by (cases kv)
  with Cons.prems(2) obtain a where a: "p = Some a" "a < length (heap w)" by auto
  have "\<exists>c. q = Some c \<and> c < length (heap (send a m w))" if "(l, q) \<in> set kvs" for l q
    using Cons.prems(2) [of l q] that by auto
  with Cons.IH [of "send a m w"] Cons.prems(1) kv a show ?case
    by (cases "b = a") (auto simp: send_def)
qed simp

text \<open>
  A broadcast reaches every registered session exactly once and nobody else. Every session in
  the server's table has accepted the message for sending, at the end of what it had accepted
  before (an empty or oversized message is dropped), and sessions that are not registered are
  untouched. \<open>sendTo\<close> does the same for the one session it names.
\<close>

theorem sendToAll_reaches_all:
  assumes "registry_ok (sessions w)" and "distinct (map snd (sessions w))"
    and "\<And>k a. (k, Some a) \<in> set (sessions w) \<Longrightarrow> a < length (heap w) \<and> tx_ok (sess w a)"
    and "mset (iter_order env (sessions w)) = mset (sessions w)"
  shows "(\<forall>k a. getSessById (sessions w) k = Some a \<longrightarrow>
      accepted_messages (sess (sendToAll env m w) a) =
        accepted_messages (sess w a) @ (if sendable m then [m] else [])
      \<and> tx_ok (sess (sendToAll env m w) a)
      \<and> accepted_messages (sess (sendTo k m w) a) = accepted_messages (sess (sendToAll env m w) a))
    \<and> (\<forall>b. Some b \<notin> snd ` set (sessions w) \<longrightarrow> sess (sendToAll env m w) b = sess w b)"
proof -
  let ?kvs = "iter_order env (sessions w)"
  have set: "set ?kvs = set (sessions w)" using assms(4) by (rule mset_eq_setD)
  have "mset (map snd ?kvs) = mset (map snd (sessions w))" using assms(4) by simp
  then have "distinct (map snd ?kvs)" using assms(2) by (metis mset_eq_imp_distinct_iff)
  moreover have "\<exists>a. p = Some a \<and> a < length (heap w)" if "(k, p) \<in> set ?kvs" for k p
    using that assms(1,3) set by (cases p) (auto simp: registry_ok_def list_all_iff)
  ultimately have all: "sess (sendToAll env m w) b =
      (if Some b \<in> snd ` set (sessions w) then send_message m (sess w b) else sess w b)" for b
    using sendToAll_fold [of ?kvs w m b] set by (simp add: sendToAll_def getSessions_def)
  have "accepted_messages (sess (sendToAll env m w) a) =
        accepted_messages (sess w a) @ (if sendable m then [m] else [])
      \<and> tx_ok (sess (sendToAll env m w) a)
      \<and> accepted_messages (sess (sendTo k m w) a) = accepted_messages (sess (sendToAll env m w) a)"
    if k: "getSessById (sessions w) k = Some a" for k a
  proof -
    have in_set: "(k, Some a) \<in> set (sessions w)" using k assms(1) by (simp add: getSessById_in)
    then have "sess (sendToAll env m w) a = send_message m (sess w a)" using all by (force simp: image_iff)
    moreover have "sendTo k m w = send a m w"
      using k by (auto simp: sendTo_def getSessions_def getSessById_def split: option.splits)
    ultimately show ?thesis
      using tx_ok_send_message [of "sess w a" m] assms(3) [OF in_set] by (simp add: send_def)
  qed
  with all show ?thesis by auto
qed

theorem sendToAll_reaches_all_witness:
  "accepted_messages (sess (sendToAll example_env ''hi'' (example_world [])) 0) = [''hi'']
   \<and> accepted_messages (sess (sendToAll example_env ''hi'' (example_world [])) 1) = [''hi'']"
proof -
  let ?w = "example_world []"
  have s1: "sess ?w 1 = WsSession True ''b''" by (simp add: example_world_def sess_def)
  have "registry_ok (sessions ?w)" "distinct (map snd (sessions ?w))" by (simp_all add: registry_ok_def)
  moreover have "a < length (heap ?w) \<and> tx_ok (sess ?w a)" if "(k, Some a) \<in> set (sessions ?w)" for k a
    using that s1 by auto
  ultimately have "\<forall>k a. getSessById (sessions ?w) k = Some a \<longrightarrow>
      accepted_messages (sess (sendToAll example_env ''hi'' ?w) a) =
        accepted_messages (sess ?w a) @ (if sendable ''hi'' then [''hi''] else [])"
    using sendToAll_reaches_all [of ?w example_env "''hi''"] by simp
  from this [rule_format, of "''a''" 0] this [rule_format, of "''b''" 1] show ?thesis
    using s1 by (simp add: getSessById_def sendable_def maxSendMsgSizebyte_def)
qed

text \<open>
  Starting the network with the default configuration succeeds and gives a server with the
  three callbacks, no sessions, one I/O thread and a listener on \<open>127.0.0.1\<close> port 8080 that waits
  for one connection when the operating system grants \<open>open\<close>, \<open>bind\<close> and \<open>listen\<close>; polling for
  messages before that dereferences a null pointer.
\<close>

theorem startup_state:
  "\<exists>w. nm_run ae (ServerConfig dir) now NetworkManager = Inr \<lparr>wsServer = Some w\<rparr>
     \<and> operationCallbacks w = server_callbacks \<and> sessions w = [] \<and> heap w = []
     \<and> wsThreads w = [Joinable] \<and> clock w = now
     \<and> (\<exists>l. iocWsListener w = Some l \<and> l_endpoint l = (''127.0.0.1'', 8080) \<and> listener_ok l
          \<and> (ae = \<lparr>ec_open = Success, ec_set_option = Success, ec_bind = Success, ec_listen = Success\<rparr>
               \<longrightarrow> acceptor_listening l \<and> accepts l = 1))
     \<and> nm_handleIncomingMessages env NetworkManager = Inl Null_Dereference"
proof -
  let ?l = "run_listener (WsListener ae (''127.0.0.1'', 8080) dir)"
  have "l_endpoint ?l = (''127.0.0.1'', 8080)"
    "ae = \<lparr>ec_open = Success, ec_set_option = Success, ec_bind = Success, ec_listen = Success\<rparr>
       \<longrightarrow> acceptor_listening ?l \<and> accepts ?l = 1"
    by (simp_all add: run_listener_def WsListener_def configureAcceptor_def do_accept_def Let_def
        isAccepting_def)
  moreover have "nm_run ae (ServerConfig dir) now NetworkManager =
      Inr \<lparr>wsServer = Some ((WSServer now)\<lparr>iocWsListener := Some ?l, wsThreads := [Joinable]\<rparr>)\<rparr>"
    by (simp add: nm_run_def runThreads_def runIocWsListener_def ServerConfig_def loadConf_def
        NetworkManager_def WSServer_def)
  ultimately show ?thesis
    using WsListener_ok [of ae "(''127.0.0.1'', 8080)" dir]
    by (simp add: WSServer_def nm_handleIncomingMessages_def NetworkManager_def)
qed

theorem startup_state_witness:
  "\<exists>w l. nm_run \<lparr>ec_open = Success, ec_set_option = Success, ec_bind = Success, ec_listen = Success\<rparr>
        (ServerConfig ''/srv'') 5 NetworkManager = Inr \<lparr>wsServer = Some w\<rparr>
     \<and> iocWsListener w = Some l \<and> acceptor_listening l"
  using startup_state [of "\<lparr>ec_open = Success, ec_set_option = Success, ec_bind = Success,
      ec_listen = Success\<rparr>" "''/srv''" 5 example_env]
  by auto

end
