(* ===== verification/Programs.thy ===== *)
theory Programs
  imports Ws_Server
begin

text \<open>
  The two programs and what they use besides the network layer: \<open>algo/TickManager.hpp\<close>,
  \<open>storage/path.cpp\<close>, the server's \<open>main.cpp\<close> and \<open>client/main.cpp\<close>. The main thread and the I/O
  threads run concurrently; what the I/O threads do while the main thread sleeps, waits for a
  connection or joins them are parameters (functions on the state that may fail), so every theorem
  holds for every behaviour of theirs. A handler that fails on an I/O thread (an exception that
  leaves \<open>ioc_.run()\<close>, or a failed assertion like the one of \<open>on_ping\<close>) ends the process: the failure
  is the result of the program. \<open>None\<close> is a program that never returns.
\<close>

section \<open>Ticks\<close>

record 's tick_handler =
  handler_id :: string
  handler_fn :: "'s \<Rightarrow> 's result"

record 's tick_manager =
  serverNetworkUpdatePeriod :: nat
  tickHandlers :: "'s tick_handler list"
  needServerRun :: bool

definition TickManager :: "nat \<Rightarrow> 's tick_manager" where
  "TickManager ms = \<lparr>serverNetworkUpdatePeriod = ms, tickHandlers = [], needServerRun = True\<rparr>"

text \<open>
  \<open>sleep ms\<close> is what happens to the state while the thread sleeps: the new state, or the failure of
  another thread that ends the process.
\<close>

definition tick :: "(nat \<Rightarrow> 's \<Rightarrow> 's result) \<Rightarrow> 's tick_manager \<Rightarrow> 's \<Rightarrow> 's result" where
  "tick sleep tm s =
     rbind (sleep (serverNetworkUpdatePeriod tm) s) (foldM (\<lambda>h. handler_fn h) (tickHandlers tm))"

definition stop_ticks :: "'s tick_manager \<Rightarrow> 's tick_manager" where
  "stop_ticks tm = tm\<lparr>needServerRun := False\<rparr>"

definition addTickHandler :: "'s tick_handler \<Rightarrow> 's tick_manager \<Rightarrow> 's tick_manager" where
  "addTickHandler h tm = tm\<lparr>tickHandlers := tickHandlers tm @ [h]\<rparr>"

definition getTickHandlers :: "'s tick_manager \<Rightarrow> 's tick_handler list" where
  "getTickHandlers tm = tickHandlers tm"

text \<open>\<open>while (tm.needServerRun()) tm.tick();\<close>\<close>

partial_function (option) main_loop ::
    "(nat \<Rightarrow> 's \<Rightarrow> 's result) \<Rightarrow> 's tick_manager \<Rightarrow> 's \<Rightarrow> 's result option" where
  "main_loop sleep tm s =
     (if needServerRun tm
      then (case tick sleep tm s of
              Inl e \<Rightarrow> Some (Inl e)
            | Inr s' \<Rightarrow> main_loop sleep tm s')
      else Some (Inr s))"

section \<open>Files\<close>

text \<open>A file system gives, for a path that exists, the content and whether it can be opened.\<close>

type_synonym file_system = "string \<Rightarrow> (string \<times> bool) option"

definition getFileContents :: "file_system \<Rightarrow> string \<Rightarrow> string" where
  "getFileContents fs path =
     (if path = [] then []
      else case fs path of
        None \<Rightarrow> []
      | Some (content, can_open) \<Rightarrow>
          let buf = replicate (length content) (CHR '' '') in
          if can_open then take (length buf) content else buf)"

text \<open>\<open>path.is_relative()\<close> and \<open>workdir / file\<close> of POSIX paths.\<close>

definition is_relative :: "string \<Rightarrow> bool" where
  "is_relative path \<longleftrightarrow> \<not> (path \<noteq> [] \<and> hd path = CHR ''/'')"

definition path_append :: "string \<Rightarrow> string \<Rightarrow> string" where
  "path_append dir file =
     (if \<not> is_relative file then file
      else if dir = [] \<or> last dir = CHR ''/'' then dir @ file else dir @ ''/'' @ file)"

section \<open>The server program\<close>

definition tick_messages :: "'d env \<Rightarrow> network_manager tick_handler" where
  "tick_messages env = \<lparr>handler_id = ''handleAllPlayerMessages'', handler_fn = nm_handleIncomingMessages env\<rparr>"

definition server_main ::
    "'d env \<Rightarrow> acceptor_env \<Rightarrow> string \<Rightarrow> nat \<Rightarrow> (nat \<Rightarrow> network_manager \<Rightarrow> network_manager result) \<Rightarrow>
     (world \<Rightarrow> world result option) \<Rightarrow> int result option" where
  "server_main env ae dir now sleep drain =
     (case nm_run ae (ServerConfig dir) now NetworkManager of
        Inl e \<Rightarrow> Some (Inl e)
      | Inr nm \<Rightarrow>
          (case main_loop sleep (addTickHandler (tick_messages env) (TickManager 50)) nm of
             None \<Rightarrow> None
           | Some (Inl e) \<Rightarrow> Some (Inl e)
           | Some (Inr nm') \<Rightarrow> map_option (\<lambda>r. rbind r (\<lambda>_. Inr 0)) (nm_finish drain nm')))"

section \<open>The client program\<close>

text \<open>The outside of the client: its arguments, the file system, the clock, the I/O threads.\<close>

record client_env =
  arguments :: "string list"
  binary_dir :: string
  files :: file_system
  start_time :: nat
  acceptor :: acceptor_env
  poll_open :: "nat \<Rightarrow> bool"
  poll_now :: "nat \<Rightarrow> nat"
  io_connect :: "network_manager \<Rightarrow> network_manager result"
  io_sleep :: "nat \<Rightarrow> network_manager \<Rightarrow> network_manager result"
  io_drain :: "world \<Rightarrow> world result option"

definition csv_path :: "client_env \<Rightarrow> string" where
  "csv_path ce = (let p = hd (tl (arguments ce)) in
     if is_relative p then path_append (binary_dir ce) p else p)"

text \<open>The format check only logs, but the parser can fail.\<close>

definition check_csv :: "string \<Rightarrow> unit result" where
  "check_csv csvContents =
     (case loadFromMemory default_CSV csvContents of
        None \<Rightarrow> Inl Hang | Some r \<Rightarrow> rbind r (\<lambda>_. Inr ()))"

text \<open>\<open>nm->getWS()->getWsListener()->addClientSession(newSessId)\<close>\<close>

definition client_session :: "network_manager \<Rightarrow> (network_manager \<times> nat option) result" where
  "client_session nm =
     (case getWS nm of
        None \<Rightarrow> Inl Null_Dereference
      | Some w \<Rightarrow>
          (case iocWsListener w of
             None \<Rightarrow> Inl Null_Dereference
           | Some l \<Rightarrow>
               (case addClientSession l ''clientSideServerId'' w of
                  (w', p) \<Rightarrow> Inr (nm\<lparr>wsServer := Some w'\<rparr>, p))))"

definition client_prepare ::
    "client_env \<Rightarrow> string \<Rightarrow> (network_manager \<times> nat option) result" where
  "client_prepare ce csvContents =
     rbind (check_csv csvContents) (\<lambda>_.
     rbind (nm_run (acceptor ce) ((ServerConfig (binary_dir ce))\<lparr>wsPort := 0\<rparr>) (start_time ce)
              NetworkManager) client_session)"

definition on_server :: "(world \<Rightarrow> world) \<Rightarrow> network_manager \<Rightarrow> network_manager" where
  "on_server f nm = nm\<lparr>wsServer := map_option f (wsServer nm)\<rparr>"

definition client_upload :: "nat \<Rightarrow> string \<Rightarrow> world \<Rightarrow> world" where
  "client_upload a csvContents w =
     (let w1 = runAsClient a w; msg = opcodeToStr CSV_ANALIZE @ csvContents in
      send_shared a (Some msg) w1)"

definition client_finish :: "client_env \<Rightarrow> network_manager \<Rightarrow> int result option" where
  "client_finish ce nm = map_option (\<lambda>r. rbind r (\<lambda>_. Inr 0)) (nm_finish (io_drain ce) nm)"

definition client_main :: "'d env \<Rightarrow> client_env \<Rightarrow> int result option" where
  "client_main env ce =
     (if length (arguments ce) < 2 then Some (Inr 1)
      else
        let csvContents = getFileContents (files ce) (csv_path ce) in
        case client_prepare ce csvContents of
          Inl e \<Rightarrow> Some (Inl e)
        | Inr (nm, None) \<Rightarrow> client_finish ce nm
        | Inr (nm, Some a) \<Rightarrow>
            let nm1 = on_server (connectAsClient a) nm in
            (case waitForConnect (poll_open ce) (poll_now ce) 1000 of
               None \<Rightarrow> None
             | Some connected \<Rightarrow>
                 (case io_connect ce nm1 of
                    Inl e \<Rightarrow> Some (Inl e)
                  | Inr nm2 \<Rightarrow>
                      if \<not> connected then client_finish ce nm2
                      else
                        (case main_loop (io_sleep ce) (addTickHandler (tick_messages env) (TickManager 50))
                                (on_server (client_upload a csvContents) nm2) of
                           None \<Rightarrow> None
                         | Some (Inl e) \<Rightarrow> Some (Inl e)
                         | Some (Inr nm3) \<Rightarrow> client_finish ce nm3))))"

section \<open>Lemmas on the main loop\<close>

text \<open>\<open>n\<close> ticks in a row.\<close>

primrec ticks :: "(nat \<Rightarrow> 's \<Rightarrow> 's result) \<Rightarrow> 's tick_manager \<Rightarrow> nat \<Rightarrow> 's \<Rightarrow> 's result" where
  "ticks sleep tm 0 s = Inr s"
| "ticks sleep tm (Suc n) s = rbind (tick sleep tm s) (ticks sleep tm n)"

lemma main_loop_error:
  assumes "needServerRun tm" and "ticks sleep tm n s = Inl e"
  shows "main_loop sleep tm s = Some (Inl e)"
  using assms(2)
proof (induction n arbitrary: s)
  case (Suc n)
  then show ?case using assms(1)
    by (subst main_loop.simps) (auto simp: rbind_Inl_conv split: sum.splits)
qed simp

lemma main_loop_result:
  assumes "main_loop sleep tm s = Some r" and "needServerRun tm"
  shows "\<exists>n e. r = Inl e \<and> ticks sleep tm n s = Inl e"
proof -
  have "needServerRun tm \<longrightarrow> (\<exists>n e. r = Inl e \<and> ticks sleep tm n s = Inl e)"
    using assms(1)
  proof (rule main_loop.raw_induct [rotated, where P = "\<lambda>sleep tm s r.
      needServerRun tm \<longrightarrow> (\<exists>n e. r = Inl e \<and> ticks sleep tm n s = Inl e)"], goal_cases)
    case (1 loop sleep tm s r)
    show ?case
    proof (intro impI, cases "tick sleep tm s")
      case (Inl e)
      assume "needServerRun tm"
      with 1(2) Inl have "r = Inl e" by simp
      moreover have "ticks sleep tm 1 s = Inl e" using Inl by simp
      ultimately have "r = Inl e \<and> ticks sleep tm 1 s = Inl e" by simp
      then show "\<exists>n e. r = Inl e \<and> ticks sleep tm n s = Inl e" by blast
    next
      case (Inr s')
      assume run: "needServerRun tm"
      with 1 Inr obtain n e where "r = Inl e" "ticks sleep tm n s' = Inl e" by fastforce
      with Inr have "r = Inl e \<and> ticks sleep tm (Suc n) s = Inl e" by simp
      then show "\<exists>n e. r = Inl e \<and> ticks sleep tm n s = Inl e" by blast
    qed
  qed
  with assms(2) show ?thesis by simp
qed

lemma main_loop_None:
  assumes "needServerRun tm"
  shows "main_loop sleep tm s = None \<longleftrightarrow> (\<forall>n. \<exists>s'. ticks sleep tm n s = Inr s')"
proof (cases "main_loop sleep tm s")
  case None
  then have "ticks sleep tm n s \<noteq> Inl e" for n e using main_loop_error [OF assms] by fastforce
  with None show ?thesis by (metis old.sum.exhaust)
next
  case (Some r)
  from main_loop_result [OF Some assms] obtain n e where "ticks sleep tm n s = Inl e" by blast
  then show ?thesis using Some by (auto intro: exI [of _ n])
qed

lemma ticks_Suc: "ticks sleep tm n s = Inr s' \<Longrightarrow> ticks sleep tm (Suc n) s = tick sleep tm s'"
proof (induction n arbitrary: s)
  case 0
  then show ?case by (cases "tick sleep tm s") simp_all
next
  case (Suc n)
  from Suc.prems obtain t where t: "tick sleep tm s = Inr t" "ticks sleep tm n t = Inr s'"
    by (auto simp: rbind_Inr_conv)
  with Suc.IH [OF t(2)] show ?case by simp
qed

text \<open>The first of the ticks that fails.\<close>

lemma ticks_first_error:
  "(\<exists>n. ticks sleep tm n s = Inl e) \<longleftrightarrow> (\<exists>n s'. ticks sleep tm n s = Inr s' \<and> tick sleep tm s' = Inl e)"
proof
  assume "\<exists>n. ticks sleep tm n s = Inl e"
  then obtain n where "ticks sleep tm n s = Inl e" by blast
  then show "\<exists>n s'. ticks sleep tm n s = Inr s' \<and> tick sleep tm s' = Inl e"
  proof (induction n arbitrary: s)
    case (Suc n)
    show ?case
    proof (cases "tick sleep tm s")
      case (Inl e')
      with Suc.prems have "ticks sleep tm 0 s = Inr s \<and> tick sleep tm s = Inl e" by simp
      then show ?thesis by blast
    next
      case (Inr t)
      with Suc.prems have "ticks sleep tm n t = Inl e" by simp
      from Suc.IH [OF this] obtain m s' where "ticks sleep tm m t = Inr s'" "tick sleep tm s' = Inl e" by blast
      with Inr have "ticks sleep tm (Suc m) s = Inr s' \<and> tick sleep tm s' = Inl e" by simp
      then show ?thesis by blast
    qed
  qed simp
qed (use ticks_Suc in metis)

section \<open>Properties\<close>

text \<open>
  C35: the server never shuts down in an orderly way: \<open>stop\<close> of the tick manager is never called,
  so the loop has no exit, and \<open>main\<close> never returns: it runs forever or ends with a failure. It ends
  with a given failure exactly if, after some number of ticks on the started server, either a handler
  on an I/O thread fails with it before the next tick, or the handling of the received messages fails
  with it in that tick.
\<close>

theorem server_main_never_exits:
  "(\<forall>c. server_main env ae dir now sleep drain \<noteq> Some (Inr c))
   \<and> (\<forall>e. server_main env ae dir now sleep drain = Some (Inl e) \<longleftrightarrow>
        (\<exists>nm n nm'. nm_run ae (ServerConfig dir) now NetworkManager = Inr nm
          \<and> ticks sleep (addTickHandler (tick_messages env) (TickManager 50)) n nm = Inr nm'
          \<and> (sleep 50 nm' = Inl e
             \<or> (\<exists>nm''. sleep 50 nm' = Inr nm'' \<and> nm_handleIncomingMessages env nm'' = Inl e))))"
proof -
  let ?tm = "addTickHandler (tick_messages env) (TickManager 50)"
  have run: "needServerRun ?tm" by (simp add: addTickHandler_def TickManager_def)
  have tick: "tick sleep ?tm s = Inl e \<longleftrightarrow> sleep 50 s = Inl e
      \<or> (\<exists>s'. sleep 50 s = Inr s' \<and> nm_handleIncomingMessages env s' = Inl e)" for s e
    by (auto simp: tick_def addTickHandler_def TickManager_def tick_messages_def rbind_Inl_conv)
  obtain nm where nm: "nm_run ae (ServerConfig dir) now NetworkManager = Inr nm"
    by (simp add: nm_run_def runThreads_def ServerConfig_def loadConf_def)
  have "main_loop sleep ?tm nm = Some r \<longleftrightarrow> (\<exists>e n. r = Inl e \<and> ticks sleep ?tm n nm = Inl e)" for r
    using main_loop_result [OF _ run, of sleep nm r] main_loop_error [OF run, of sleep _ nm] by blast
  then have main: "main_loop sleep ?tm nm = Some r \<longleftrightarrow>
      (\<exists>e n s. r = Inl e \<and> ticks sleep ?tm n nm = Inr s \<and> tick sleep ?tm s = Inl e)" for r
    using ticks_first_error [of sleep ?tm nm] by blast
  show ?thesis
  proof (cases "main_loop sleep ?tm nm")
    case None
    with nm main show ?thesis by (auto simp: server_main_def simp flip: tick)
  next
    case (Some r)
    with main obtain e where e: "r = Inl e" by blast
    with Some nm have "server_main env ae dir now sleep drain = Some (Inl e)" by (simp add: server_main_def)
    moreover have "e = e' \<longleftrightarrow> (\<exists>n s. ticks sleep ?tm n nm = Inr s \<and> tick sleep ?tm s = Inl e')" for e'
      using main [of "Inl e'"] Some e by auto
    ultimately show ?thesis using nm by (simp flip: tick)
  qed
qed

text \<open>
  \<open>getFileContents\<close> returns exactly the bytes of a file it can open, the empty string for an
  empty path or a file that does not exist, and as many blanks as the file has bytes when the file
  exists but cannot be opened.
\<close>

theorem getFileContents_exact:
  "getFileContents fs path =
     (case (path, fs path) of
        ([], _) \<Rightarrow> [] | (_, None) \<Rightarrow> []
      | (_, Some (content, True)) \<Rightarrow> content
      | (_, Some (content, False)) \<Rightarrow> replicate (length content) (CHR '' ''))"
  by (auto simp: getFileContents_def split: list.split option.split bool.split)

lemma runAsClient_new:
  assumes "a < length (heap w)" and "timer_expiry (sess w a) = None"
  shows "runAsClient a w = upd_sess a (\<lambda>s. s\<lparr>control_set := True,
      timer_expiry := Some (clock w + WS_PING_FREQUENCY_SEC * 1000000000), isFullyCreated := True,
      ops := add_mset Op_Read (add_mset Op_Timer (ops s))\<rparr>) w"
  using assms
  by (simp add: runAsClient_def on_timer_def timer_expired_def upd_sess_twice comp_def do_read_def)

text \<open>The effect of an upload on the session that makes it.\<close>

lemma client_upload_effect:
  assumes "a < length (heap w)" and "timer_expiry (sess w a) = None" and "tx_ok (sess w a)"
    and "isOpen (sess w a)" and "sendQueue (sess w a) = []" and "length contents < maxSendMsgSizebyte"
  shows "let s = sess w a; s' = sess (client_upload a contents w) a in
    accepted_messages s' = accepted_messages s @ [''1'' @ c_str contents]
    \<and> wire s' = wire s @ [''1'' @ c_str contents]
    \<and> count (ops s') Op_Read = Suc (count (ops s) Op_Read)
    \<and> count (ops s') Op_Timer = Suc (count (ops s) Op_Timer) \<and> tx_ok s'"
proof -
  let ?m = "''1'' @ c_str contents"
  let ?s = "(sess w a)\<lparr>control_set := True,
      timer_expiry := Some (clock w + WS_PING_FREQUENCY_SEC * 1000000000), isFullyCreated := True,
      ops := add_mset Op_Read (add_mset Op_Timer (ops (sess w a)))\<rparr>"
  have "c_str (opcodeToStr CSV_ANALIZE @ contents) = ?m" by (simp add: opcode_strings c_str_def)
  then have s': "sess (client_upload a contents w) a = send_message ?m ?s"
    using assms(1) by (simp add: client_upload_def runAsClient_new [OF assms(1,2)] send_shared_def send_def)
  have "length (c_str contents) \<le> length contents" by (simp add: c_str_def length_takeWhile_le)
  with assms(6) have ok: "sendable ?m" "\<not> maxSendMsgSizebyte < length ?m" by (simp_all add: sendable_def)
  have "tx_ok ?s" "accepted_messages ?s = accepted_messages (sess w a)"
    using assms(3) by (simp_all add: tx_ok_def writes_def accepted_messages_def pending_def)
  with tx_ok_send_message [of ?s ?m] ok(1)
  have acc: "accepted_messages (sess (client_upload a contents w) a) = accepted_messages (sess w a) @ [?m]"
    "tx_ok (sess (client_upload a contents w) a)"
    unfolding s' by simp_all
  have "\<not> isSendBusy (sess w a)" using assms(3,5) by (auto simp: tx_ok_def)
  then have "wire (send_message ?m ?s) = wire (sess w a) @ [?m]"
    "count (ops (send_message ?m ?s)) Op_Read = Suc (count (ops (sess w a)) Op_Read)"
    "count (ops (send_message ?m ?s)) Op_Timer = Suc (count (ops (sess w a)) Op_Timer)"
    using assms(4,5) ok by (simp_all add: send_message_def async_write_def isOpen_def Let_def)
  with acc show ?thesis unfolding s' Let_def by simp
qed

text \<open>
  Once connected, the client has accepted for sending exactly one message more: \<open>1\<close> followed by
  the contents of the file up to the first NUL byte, for files below 1 GiB; the message goes to the
  stream at once when nothing was queued, and the session is reading, with its timer running.
\<close>

theorem client_uploads_file:
  assumes "a < length (heap w)" and "timer_expiry (sess w a) = None" and "tx_ok (sess w a)"
    and "isOpen (sess w a)" and "sendQueue (sess w a) = []" and "length contents < maxSendMsgSizebyte"
  shows "let s = sess w a; s' = sess (client_upload a contents w) a in
    accepted_messages s' = accepted_messages s @ [''1'' @ c_str contents]
    \<and> wire s' = wire s @ [''1'' @ c_str contents]
    \<and> count (ops s') Op_Read = Suc (count (ops s) Op_Read)
    \<and> count (ops s') Op_Timer = Suc (count (ops s) Op_Timer) \<and> tx_ok s'"
  using assms by (rule client_upload_effect)

theorem client_uploads_file_witness:
  "let w = \<lparr>heap = [(WsSession False ''clientSideServerId'')\<lparr>ws_open := True\<rparr>],
      sessions = [(''clientSideServerId'', Some 0)], operationCallbacks = server_callbacks,
      iocWsListener = None, wsThreads = [], clock = 0\<rparr> in
   wire (sess (client_upload 0 ''a,b,c'' w) 0) = [''1a,b,c'']"
proof -
  let ?w = "\<lparr>heap = [(WsSession False ''clientSideServerId'')\<lparr>ws_open := True\<rparr>],
      sessions = [(''clientSideServerId'', Some 0)], operationCallbacks = server_callbacks,
      iocWsListener = None, wsThreads = [], clock = 0\<rparr>"
  have "sess ?w 0 = (WsSession False ''clientSideServerId'')\<lparr>ws_open := True\<rparr>" by (simp add: sess_def)
  with client_uploads_file [of 0 ?w "''a,b,c''"] show ?thesis
    by (simp add: Let_def WsSession_def tx_ok_def writes_def isOpen_def maxSendMsgSizebyte_def)
qed

end
