(* ===== verification/Server_Invariant.thy ===== *)
theory Server_Invariant
  imports Ws_Server Programs
begin

text \<open>
  The invariant of the network layer. For a session: at most one operation of the chain resolve,
  connect, handshake, accept, read is in flight, at most one wait on the timer, and the sending side
  keeps its contract; every queued callback is bound to the session itself and to a message that
  routes to it. For the server: the callback table is the one the constructor made, the table of
  sessions maps identifiers to live sessions with that identifier, and the listener is sane. Each
  handler preserves it when the operation that completes has left \<open>ops\<close>.
\<close>

section \<open>The invariant\<close>

definition chain_op :: "async_op \<Rightarrow> bool" where
  "chain_op op \<longleftrightarrow> op \<in> {Op_Resolve, Op_Connect, Op_Handshake, Op_Accept, Op_Read}"

definition chain :: "ws_session \<Rightarrow> nat" where
  "chain s = size (filter_mset chain_op (ops s))"

definition waits :: "ws_session \<Rightarrow> nat" where
  "waits s = count (ops s) Op_Timer"

definition bound_ok :: "nat \<Rightarrow> bound_callback \<Rightarrow> bool" where
  "bound_ok a b \<longleftrightarrow> clientSession b = Some a
     \<and> (case messageBuffer b of
          None \<Rightarrow> False
        | Some m \<Rightarrow> route m = Some (callback b) \<and> length m \<le> maxReceiveMsgSizebyte)"

definition queue_ok :: "nat \<Rightarrow> bound_callback dispatch_queue option \<Rightarrow> bool" where
  "queue_ok a qo \<longleftrightarrow> (case qo of
     None \<Rightarrow> True
   | Some q \<Rightarrow> \<not> quit q \<and> thread_cnt q = 0 \<and> list_all (bound_ok a) (callbacksQueue q))"

definition session_ok :: "nat \<Rightarrow> ws_session \<Rightarrow> bool" where
  "session_ok a s \<longleftrightarrow> chain s \<le> 1 \<and> waits s \<le> 1 \<and> tx_ok s \<and> queue_ok a (receivedMessagesQueue s)
     \<and> (\<not> control_set s \<longrightarrow> waits s = 0)"

definition entry_ok :: "world \<Rightarrow> string \<times> nat option \<Rightarrow> bool" where
  "entry_ok w kv \<longleftrightarrow> (case snd kv of
     None \<Rightarrow> False
   | Some a \<Rightarrow> a < length (heap w) \<and> id_of (sess w a) = fst kv
       \<and> receivedMessagesQueue (sess w a) \<noteq> None)"

definition world_ok :: "world \<Rightarrow> bool" where
  "world_ok w \<longleftrightarrow>
     operationCallbacks w = server_callbacks
   \<and> registry_ok (sessions w)
   \<and> (\<forall>kv \<in> set (sessions w). entry_ok w kv)
   \<and> (\<forall>a < length (heap w). session_ok a (sess w a))
   \<and> (\<forall>l. iocWsListener w = Some l \<longrightarrow> listener_ok l)"

section \<open>How the invariant is kept\<close>

lemma chain_op_simps [simp]:
  "chain_op Op_Resolve" "chain_op Op_Connect" "chain_op Op_Handshake" "chain_op Op_Accept"
  "chain_op Op_Read" "\<not> chain_op Op_Ping" "\<not> chain_op Op_Timer" "\<not> chain_op (Op_Write m)"
  by (simp_all add: chain_op_def)

lemma world_okD:
  assumes "world_ok w"
  shows "operationCallbacks w = server_callbacks" "registry_ok (sessions w)"
    "kv \<in> set (sessions w) \<Longrightarrow> entry_ok w kv"
    "a < length (heap w) \<Longrightarrow> session_ok a (sess w a)"
    "iocWsListener w = Some l \<Longrightarrow> listener_ok l"
  using assms by (auto simp: world_ok_def)

lemma entry_ok_cong:
  assumes "length (heap w) \<le> length (heap w')"
    and "\<And>a. a < length (heap w) \<Longrightarrow> id_of (sess w' a) = id_of (sess w a)
      \<and> (receivedMessagesQueue (sess w a) \<noteq> None \<longrightarrow> receivedMessagesQueue (sess w' a) \<noteq> None)"
    and "entry_ok w kv"
  shows "entry_ok w' kv"
  using assms(1,3) assms(2) by (auto simp: entry_ok_def split: option.splits)

text \<open>An update of one session that keeps its identity and its queue.\<close>

definition kept :: "ws_session \<Rightarrow> ws_session \<Rightarrow> bool" where
  "kept s s' \<longleftrightarrow> id_of s' = id_of s
     \<and> (receivedMessagesQueue s \<noteq> None \<longrightarrow> receivedMessagesQueue s' \<noteq> None)"

lemma world_ok_upd_sess:
  assumes "world_ok w" and "session_ok a (f (sess w a))" and "kept (sess w a) (f (sess w a))"
  shows "world_ok (upd_sess a f w)"
proof (cases "a < length (heap w)")
  case True
  have "entry_ok (upd_sess a f w) kv" if "kv \<in> set (sessions w)" for kv
    by (rule entry_ok_cong [of w]) (use assms that True in \<open>auto simp: world_ok_def kept_def sess_upd_sess\<close>)
  moreover have "session_ok b (sess (upd_sess a f w) b)" if "b < length (heap w)" for b
    using that assms True by (auto simp: sess_upd_sess world_ok_def)
  ultimately show ?thesis using assms(1) by (auto simp: world_ok_def)
next
  case False
  then have "upd_sess a f w = w" by (simp add: upd_sess_def list_update_beyond)
  with assms(1) show ?thesis by simp
qed

lemma entry_ok_heap: "heap w' = heap w \<Longrightarrow> entry_ok w' kv = entry_ok w kv"
  by (simp add: entry_ok_def sess_def split: option.split)

lemma world_ok_unregister: "world_ok w \<Longrightarrow> world_ok (unregisterSession k w)"
  using removeSessById_subset [of k "sessions w"] entry_ok_heap [of "unregisterSession k w" w]
  by (auto simp: world_ok_def dest!: subsetD)

lemma world_ok_listener:
  assumes "world_ok w" and "\<And>l. iocWsListener w = Some l \<Longrightarrow> listener_ok (f l)"
  shows "world_ok (upd_listener f w)"
  using assms entry_ok_heap [of "upd_listener f w" w] by (auto simp: world_ok_def)

lemma world_ok_clock: "world_ok w \<Longrightarrow> world_ok (w\<lparr>clock := t\<rparr>)"
  using entry_ok_heap [of "w\<lparr>clock := t\<rparr>" w] by (simp add: world_ok_def)

lemma world_ok_session_fail: "world_ok w \<Longrightarrow> world_ok (on_session_fail a w)"
  by (simp add: on_session_fail_def world_ok_unregister)

lemma session_ok_new: "session_ok a (WsSession b k)"
  by (simp add: session_ok_def chain_def waits_def WsSession_def queue_ok_def DispatchQueue_def tx_ok_def
      writes_def)

lemmas session_inv = session_ok_def chain_def waits_def tx_ok_def writes_def kept_def

text \<open>Operations that start while no operation of their kind is in flight.\<close>

lemma session_ok_start:
  assumes "session_ok a s" and "chain_op op" and "chain s = 0"
  shows "session_ok a (start_op op s)"
  using assms by (auto simp: session_inv chain_op_def)

lemma session_ok_wait:
  assumes "session_ok a s" and "waits s = 0" and "control_set s"
  shows "session_ok a (start_op Op_Timer s)"
  using assms by (auto simp: session_inv)

lemma session_ok_ping: "session_ok a s \<Longrightarrow> session_ok a (start_op Op_Ping s)"
  by (auto simp: session_inv)

text \<open>Fields that the invariant does not mention.\<close>

lemma session_ok_fields [simp]:
  "session_ok a (s\<lparr>timer_expiry := t\<rparr>) = session_ok a s"
  "session_ok a (s\<lparr>pingState := p\<rparr>) = session_ok a s"
  "session_ok a (s\<lparr>socket_open := b\<rparr>) = session_ok a s"
  "session_ok a (s\<lparr>ws_open := b\<rparr>) = session_ok a s"
  "session_ok a (s\<lparr>isFullyCreated := b\<rparr>) = session_ok a s"
  "session_ok a (s\<lparr>recievedBuffer := m\<rparr>) = session_ok a s"
  by (simp_all add: session_inv)

lemma kept_fields [simp]:
  "kept s (s\<lparr>timer_expiry := t\<rparr>)" "kept s (s\<lparr>pingState := p\<rparr>)" "kept s (s\<lparr>socket_open := b\<rparr>)"
  "kept s (s\<lparr>ws_open := b\<rparr>)" "kept s (s\<lparr>isFullyCreated := b\<rparr>)" "kept s (s\<lparr>recievedBuffer := m\<rparr>)"
  "kept s (s\<lparr>ops := M\<rparr>)" "kept s (s\<lparr>control_set := c\<rparr>)" "kept s s"
  "kept s (s\<lparr>receivedMessagesQueue := Some q\<rparr>)"
  by (simp_all add: kept_def)

section \<open>The handlers of a session\<close>

lemma on_timer_ok:
  assumes "world_ok w" and "a < length (heap w)" and "waits (sess w a) = 0" and "control_set (sess w a)"
  shows "world_ok (on_timer a ec w)"
proof -
  have s: "session_ok a (sess w a)" using assms by (simp add: world_okD)
  have ping: "session_ok a ((sess w a)\<lparr>pingState := SENDING, timer_expiry := t,
      ops := add_mset Op_Timer (add_mset Op_Ping (ops (sess w a)))\<rparr>)" for t
    using s assms(3,4) by (auto simp: session_inv)
  have "session_ok a ((sess w a)\<lparr>ops := add_mset Op_Timer (ops (sess w a))\<rparr>)"
    using session_ok_wait [OF s assms(3,4)] by simp
  then show ?thesis
    using assms s ping
    by (auto simp: on_timer_def Let_def upd_sess_twice comp_def world_ok_session_fail world_ok_unregister
        kept_def intro!: world_ok_upd_sess world_ok_unregister)
qed

lemma on_control_callback_ok: "world_ok w \<Longrightarrow> a < length (heap w) \<Longrightarrow> world_ok (on_control_callback a w)"
  by (auto simp: on_control_callback_def onRemoteActivity_def upd_sess_twice comp_def world_okD kept_def
      intro!: world_ok_upd_sess)

lemma on_ping_ok:
  "world_ok w \<Longrightarrow> a < length (heap w) \<Longrightarrow> on_ping a ec w = Inr w' \<Longrightarrow> world_ok w'"
  by (auto simp: on_ping_def world_okD world_ok_session_fail intro!: world_ok_upd_sess split: if_splits)

lemma do_read_ok:
  "world_ok w \<Longrightarrow> a < length (heap w) \<Longrightarrow> chain (sess w a) = 0 \<Longrightarrow> world_ok (do_read a w)"
  using session_ok_start [of a "sess w a" Op_Read]
  by (auto simp: do_read_def world_okD intro!: world_ok_upd_sess)

lemma on_accept_ok:
  assumes "world_ok w" and "a < length (heap w)" and "chain (sess w a) = 0"
  shows "world_ok (on_accept a ec w)"
proof -
  have "world_ok (upd_sess a (\<lambda>s. s\<lparr>isFullyCreated := True\<rparr>) w)"
    using assms by (auto simp: world_okD intro!: world_ok_upd_sess)
  with assms show ?thesis
    by (auto simp: on_accept_def world_ok_session_fail chain_def intro!: do_read_ok)
qed

lemma handleIncomingData_ok:
  assumes "world_ok w" and "a < length (heap w)" and "length m \<le> maxReceiveMsgSizebyte"
  shows "world_ok (fst (handleIncomingData a (Some m) w))"
proof -
  have "session_ok a ((sess w a)\<lparr>receivedMessagesQueue := Some (dispatch (Bind cb (Some a) (Some m)) q)\<rparr>)"
    if "receivedMessagesQueue (sess w a) = Some q" "route m = Some cb" for q cb
    using world_okD(4) [OF assms(1,2)] that assms(3)
    by (auto simp: session_inv queue_ok_def dispatch_def bound_ok_def)
  with assms show ?thesis
    by (auto simp: handleIncomingData_route [OF world_okD(1) [OF assms(1)]]
        intro!: world_ok_upd_sess split: option.split)
qed

lemma handleIncomingData_frame:
  "length (heap (fst (handleIncomingData a m w))) = length (heap w)"
  "sessions (fst (handleIncomingData a m w)) = sessions w"
  "ops (sess (fst (handleIncomingData a m w)) b) = ops (sess w b)"
  "wire (sess (fst (handleIncomingData a m w)) b) = wire (sess w b)"
  "sendQueue (sess (fst (handleIncomingData a m w)) b) = sendQueue (sess w b)"
  "isSendBusy (sess (fst (handleIncomingData a m w)) b) = isSendBusy (sess w b)"
  by (auto simp: handleIncomingData_def sess_upd_sess split: option.split)

lemma process_buffer_ok:
  assumes "world_ok w" and "a < length (heap w)" and "chain (sess w a) = 0"
  shows "world_ok (process_buffer a w)"
proof -
  let ?w1 = "fst (handleIncomingData a (Some (recievedBuffer (sess w a))) w)"
  let ?w2 = "upd_sess a (\<lambda>s. s\<lparr>recievedBuffer := []\<rparr>) ?w1"
  have "world_ok ?w2 \<and> world_ok (do_read a ?w2)" if "length (recievedBuffer (sess w a)) \<le> maxReceiveMsgSizebyte"
  proof -
    have w1: "world_ok ?w1" "a < length (heap ?w1)"
      using handleIncomingData_ok [OF assms(1,2) that] assms(2) by (simp_all add: handleIncomingData_frame)
    then have "world_ok ?w2" by (auto simp: world_okD intro!: world_ok_upd_sess)
    moreover have "chain (sess ?w2 a) = 0"
      using assms(3) w1 by (simp add: chain_def handleIncomingData_frame)
    ultimately show ?thesis using w1 do_read_ok [of ?w2 a] by simp
  qed
  with assms(1) show ?thesis by (simp add: process_buffer_def Let_def not_less)
qed

lemma on_read_ok:
  assumes "world_ok w" and "a < length (heap w)" and "chain (sess w a) = 0"
  shows "world_ok (on_read a ec w)"
proof -
  have "world_ok (process_buffer a (on_session_fail a w))"
    using process_buffer_ok [of "on_session_fail a w" a] world_ok_session_fail assms
    by (simp add: on_session_fail_def)
  with assms process_buffer_ok show ?thesis by (simp add: on_read_def)
qed

lemma on_write_ok:
  assumes "world_ok w" and "a < length (heap w)" and "writes (sess w a) = {#}" and "isSendBusy (sess w a)"
  shows "world_ok (on_write a ec w)"
proof -
  have s: "session_ok a (sess w a)" using assms by (simp add: world_okD)
  then have "tx_ok (written (sess w a))" using tx_ok_written assms(3,4) by (simp add: session_ok_def)
  then have "session_ok a (written (sess w a))"
    using s by (auto simp: session_ok_def chain_def waits_def written_def write_next_def async_write_def)
  moreover have "kept (sess w a) (written (sess w a))"
    by (simp add: kept_def written_def write_next_def async_write_def)
  ultimately show ?thesis
    using assms by (auto simp: on_write_def world_ok_session_fail intro!: world_ok_upd_sess)
qed

lemma send_ok: "world_ok w \<Longrightarrow> world_ok (send a m w)"
proof (cases "a < length (heap w)")
  case True
  assume w: "world_ok w"
  then have s: "session_ok a (sess w a)" using True by (simp add: world_okD)
  then have "tx_ok (send_message m (sess w a))" using tx_ok_send_message by (simp add: session_ok_def)
  then have "session_ok a (send_message m (sess w a))"
    using s by (auto simp: session_ok_def chain_def waits_def send_message_def async_write_def Let_def)
  then show ?thesis using w by (auto simp: send_def kept_def intro!: world_ok_upd_sess)
next
  case False
  assume "world_ok w"
  moreover have "send a m w = w" using False by (simp add: send_def upd_sess_def list_update_beyond)
  ultimately show ?thesis by simp
qed

section \<open>Starting sessions\<close>

lemma world_ok_new_session:
  assumes "world_ok w"
  shows "world_ok (new_session l k w)"
proof -
  have entry: "entry_ok (new_session l k w) kv" if "entry_ok w kv" for kv
    by (rule entry_ok_cong [OF _ _ that]) (simp_all add: sess_new_session)
  have "entry_ok (new_session l k w) kv"
    if "kv \<in> set (AList.update k (Some (length (heap w))) (sessions w))" for kv
  proof (cases "kv \<in> set (sessions w)")
    case True
    with assms entry show ?thesis by (auto simp: world_ok_def)
  next
    case False
    with that have "kv = (k, Some (length (heap w)))" using set_update_subset by fastforce
    then show ?thesis by (simp add: entry_ok_def sess_new_session WsSession_def)
  qed
  moreover have "session_ok a (sess (new_session l k w) a)" if "a < Suc (length (heap w))" for a
    using that assms session_ok_new by (auto simp: sess_new_session world_ok_def less_Suc_eq)
  moreover have "listener_ok l'"
    if "map_option (\<lambda>l. l\<lparr>l_socket_open := False\<rparr>) (iocWsListener w) = Some l'" for l'
    using that assms by (auto simp: world_ok_def listener_ok_def)
  ultimately show ?thesis
    using assms registry_ok_update [of "sessions w"] by (auto simp: world_ok_def)
qed

lemma on_timer_frame:
  "length (heap (on_timer a ec w)) = length (heap w)"
  "chain (sess (on_timer a ec w) b) = chain (sess w b)"
  "iocWsListener (on_timer a ec w) = iocWsListener w"
  by (simp_all add: on_timer_def on_session_fail_def Let_def sess_upd_sess chain_def)

lemma start_session_ok:
  assumes "world_ok w" and "a < length (heap w)" and "waits (sess w a) = 0" and "chain (sess w a) = 0"
    and "chain_op op"
  shows "world_ok (upd_sess a (\<lambda>s. start_op op (expires_after n t s))
      (on_timer a Success (upd_sess a (\<lambda>s. s\<lparr>control_set := True\<rparr>) w)))"
proof -
  let ?w1 = "upd_sess a (\<lambda>s. s\<lparr>control_set := True\<rparr>) w"
  have "session_ok a ((sess w a)\<lparr>control_set := True\<rparr>)"
    using world_okD(4) [OF assms(1,2)] by (simp add: session_inv)
  then have w1: "world_ok ?w1" using assms(1) by (auto intro!: world_ok_upd_sess)
  have c1: "chain (sess ?w1 a) = 0" using assms(2,4) by (simp add: chain_def)
  have w2: "world_ok (on_timer a Success ?w1)" "chain (sess (on_timer a Success ?w1) a) = 0"
    using on_timer_ok [OF w1, of a Success] assms(2-4) c1 by (simp_all add: waits_def on_timer_frame)
  then have "session_ok a (sess (on_timer a Success ?w1) a)"
    using assms(2) by (simp add: world_okD on_timer_frame)
  then have "session_ok a (expires_after n t (sess (on_timer a Success ?w1) a))" by simp
  from session_ok_start [OF this assms(5)] w2
  have "session_ok a (start_op op (expires_after n t (sess (on_timer a Success ?w1) a)))"
    by (simp add: chain_def)
  with w2(1) show ?thesis by (auto simp: kept_def intro!: world_ok_upd_sess)
qed

lemma runAsServer_ok:
  assumes "world_ok w" and "a < length (heap w)" and "waits (sess w a) = 0" and "chain (sess w a) = 0"
  shows "world_ok (runAsServer a w)"
  using start_session_ok [OF assms, of Op_Accept]
  by (simp add: runAsServer_def Let_def upd_sess_twice comp_def)

lemma runAsClient_ok:
  assumes "world_ok w" and "a < length (heap w)" and "waits (sess w a) = 0" and "chain (sess w a) = 0"
  shows "world_ok (runAsClient a w)"
proof -
  let ?w2 = "on_timer a Success (upd_sess a (\<lambda>s. s\<lparr>control_set := True\<rparr>) w)"
  let ?w3 = "upd_sess a (\<lambda>s. start_op Op_Read (expires_after WS_PING_FREQUENCY_SEC (clock w) s)) ?w2"
  have w3: "world_ok ?w3" using start_session_ok [OF assms, of Op_Read] by simp
  have "runAsClient a w = upd_sess a (\<lambda>s. s\<lparr>isFullyCreated := True\<rparr>) ?w3"
    unfolding runAsClient_def Let_def do_read_def upd_sess_twice comp_def
    by (rule upd_sess_cong) simp
  moreover have "world_ok (upd_sess a (\<lambda>s. s\<lparr>isFullyCreated := True\<rparr>) ?w3)"
    using world_okD(4) [OF w3, of a] assms(2)
    by (intro world_ok_upd_sess [OF w3]) (simp_all add: on_timer_frame)
  ultimately show ?thesis by simp
qed

lemma accept_completes_ok:
  assumes "world_ok w" and "iocWsListener w = Some l" and "0 < accepts l"
  shows "world_ok (accept_completes ec k w)"
proof -
  have l: "listener_ok l" using assms by (simp add: world_okD)
  have upd: "world_ok (upd_listener (\<lambda>_. l') w)" if "listener_ok l'" for l'
    using assms(1) that by (auto intro: world_ok_listener)
  have eq: "w\<lparr>iocWsListener := Some l'\<rparr> = upd_listener (\<lambda>_. l') w" for l'
    using assms(2) by (simp add: upd_listener_def)
  show ?thesis
  proof (cases "acceptor_open l \<and> ec = Success")
    case True
    let ?l1 = "l\<lparr>accepts := accepts l - 1, l_socket_open := True\<rparr>"
    let ?w1 = "w\<lparr>iocWsListener := Some ?l1\<rparr>" and ?a = "length (heap w)"
    have open_l: "\<not> needClose l" using True l by (auto simp: listener_ok_def)
    let ?l0 = "?l1\<lparr>l_socket_open := False\<rparr>"
    have eq2: "accept_completes ec k w = upd_listener do_accept (runAsServer ?a (new_session ?l1 k ?w1))"
      using assms(2) True open_l by (simp add: accept_completes_def listener_on_accept_def isAccepting_def Let_def)
    have "new_session ?l1 k ?w1 = new_session ?l1 k (w\<lparr>iocWsListener := Some ?l0\<rparr>)"
      by (simp add: new_session_def Let_def upd_listener_def)
    moreover have "world_ok (w\<lparr>iocWsListener := Some ?l0\<rparr>)"
      unfolding eq using l by (intro upd) (auto simp: listener_ok_def)
    ultimately have "world_ok (new_session ?l1 k ?w1)" by (metis world_ok_new_session)
    then have "world_ok (runAsServer ?a (new_session ?l1 k ?w1))"
      by (rule runAsServer_ok) (simp_all add: sess_new_session waits_def chain_def)
    moreover have "listener_ok (do_accept ?l0)"
      using l True by (auto simp: listener_ok_def do_accept_def)
    ultimately show ?thesis unfolding eq2 by (auto intro: world_ok_listener)
  next
    case False
    show ?thesis
    proof (cases "acceptor_open l")
      case True
      with False have "ec \<noteq> Success" by simp
      then show ?thesis using accept_failure [OF assms(2) l] upd l eq by (simp add: listener_ok_def)
    next
      case closed: False
      have "world_ok (w\<lparr>iocWsListener := Some (l\<lparr>accepts := accepts l - 1,
          l_socket_open := (ec = Success \<or> l_socket_open l)\<rparr>)\<rparr>)"
        unfolding eq using l closed assms(3) by (intro upd) (auto simp: listener_ok_def)
      then show ?thesis using accept_closed [OF assms(2) closed] by simp
    qed
  qed
qed

section \<open>The tick\<close>

lemma world_ok_queues_ready: "world_ok w \<Longrightarrow> queues_ready w"
  unfolding queues_ready_def queue_ready_def has_queue_def queue_at_def
proof (intro ballI, clarify)
  fix k a
  assume w: "world_ok w" and "(k, Some a) \<in> set (sessions w)"
  then have "entry_ok w (k, Some a)" by (rule world_okD(3))
  then obtain q where q: "a < length (heap w)" "receivedMessagesQueue (sess w a) = Some q"
    by (auto simp: entry_ok_def)
  with world_okD(4) [OF w q(1)] have "\<not> quit q" by (simp add: session_ok_def queue_ok_def)
  with q show "(a < length (heap w) \<and> receivedMessagesQueue (sess w a) \<noteq> None)
      \<and> \<not> quit (the (receivedMessagesQueue (sess w a)))"
    by simp
qed

lemma exec_callback_ok: "exec_callback env b w = Inr w' \<Longrightarrow> world_ok w \<Longrightarrow> world_ok w'"
  by (erule exec_callback_cases) (auto simp: send_ok)

lemma pop_ok: "world_ok w \<Longrightarrow> world_ok (upd_queue_at a pop_callback w)"
proof (cases "a < length (heap w)")
  case True
  assume w: "world_ok w"
  have "list_all P (tl xs)" if "list_all P xs" for P and xs :: "bound_callback list"
    using that by (cases xs) auto
  then have "session_ok a ((sess w a)\<lparr>receivedMessagesQueue := map_option pop_callback (receivedMessagesQueue (sess w a))\<rparr>)"
    using world_okD(4) [OF w True]
    by (auto simp: session_inv queue_ok_def pop_callback_def split: option.split)
  then show ?thesis
    using w by (auto simp: upd_queue_at_def kept_def intro!: world_ok_upd_sess)
next
  case False
  assume "world_ok w"
  moreover have "upd_queue_at a f w = w" for f
    using False by (simp add: upd_queue_at_def upd_sess_def list_update_beyond)
  ultimately show ?thesis by simp
qed

lemma run_queued_ok: "run_queued env a w = Inr w' \<Longrightarrow> world_ok w \<Longrightarrow> world_ok w'"
  unfolding run_queued_def by (erule foldM_invariant) (auto intro: exec_callback_ok pop_ok)

lemma handleIncomingMessages_ok:
  assumes "handleIncomingMessages env w = Inr w'" and "world_ok w"
    and "set (iter_order env (sessions w)) \<subseteq> set (sessions w)"
  shows "world_ok w'"
proof -
  have "foldM (visit_session (\<lambda>_. run_queued env)) (iter_order env (sessions w)) w = Inr w'"
    using assms handleIncomingMessages_eq [OF world_ok_queues_ready] by metis
  then show ?thesis
  proof (rule foldM_invariant [where I = world_ok])
    fix kv v v'
    assume "world_ok v" "visit_session (\<lambda>_. run_queued env) kv v = Inr v'"
    then show "world_ok v'" by (cases kv; cases "snd kv") (auto intro: run_queued_ok)
  qed (rule assms(2))
qed

lemma sendToAll_ok: "world_ok w \<Longrightarrow> world_ok (sendToAll env m w)"
proof -
  have "world_ok (fold (\<lambda>(_, p) w. case p of None \<Rightarrow> w | Some a \<Rightarrow> send a m w) kvs w)" if "world_ok w"
    for kvs :: "nat registry" and w
    using that by (induction kvs arbitrary: w) (auto simp: send_ok split: option.split)
  then show "world_ok w \<Longrightarrow> ?thesis" by (simp add: sendToAll_def)
qed

lemma sendTo_ok: "world_ok w \<Longrightarrow> world_ok (sendTo k m w)"
  by (auto simp: sendTo_def send_ok split: option.split)

section \<open>How a tick can fail\<close>

definition tick_errors :: "cpp_error set" where
  "tick_errors = {Terminate, Out_Of_Bounds, Buffer_Overflow, Signed_Overflow, Exception ''bad_lexical_cast''}"

lemma getAt_error: "getAt csv i j = Inl e \<Longrightarrow> e \<in> tick_errors"
  by (auto simp: getAt_def getAtRef_def getRowRef_def rbind_Inl_conv tick_errors_def split: if_splits)

lemma cast_field_error: "cast_field env csv i j = Inl e \<Longrightarrow> e \<in> tick_errors"
  by (auto simp: cast_field_def rbind_Inl_conv dest: getAt_error split: option.splits)
    (simp add: tick_errors_def)

lemma analize_row_error: "analize_row env csv i acc = Inl e \<Longrightarrow> e \<in> tick_errors"
  by (auto simp: analize_row_def rbind_Inl_conv dateTimeFromStr_def from_time_t_def split: prod.splits if_splits
      dest: getAt_error cast_field_error)
    (simp_all add: tick_errors_def)

lemma analize_rows_error: "analize_rows env csv = Inl e \<Longrightarrow> e \<in> tick_errors"
  unfolding analize_rows_def
  by (erule foldM_error [where I = "\<lambda>_. True"]) (auto intro: analize_row_error)

lemma exec_callback_error:
  assumes "exec_callback env b w = Inl e" and "bound_ok a b"
  shows "e \<in> tick_errors"
proof -
  from assms(2) obtain m where m: "clientSession b = Some a" "messageBuffer b = Some m"
    "route m = Some (callback b)" "length m \<le> maxReceiveMsgSizebyte"
    by (auto simp: bound_ok_def split: option.splits)
  have len: "1 \<le> length m" using m(3) by (auto simp: route_def split: list.splits)
  have fresh: "fresh_csv default_CSV" by (simp add: default_CSV_def CSV_def fresh_csv_def)
  have "length (drop (Suc 0) m) \<le> 2 ^ 32 - 2048"
    using m(4) by (simp add: maxReceiveMsgSizebyte_def)
  note load = loadFromMemory_fresh [OF fresh this]
  show ?thesis
    using assms(1) m len
    by (auto simp: exec_callback_def pingCallback_def csvAnalizeCallback_def csvAnswerCallback_def substr_def
        load rbind_Inl_conv split: ws_callback.splits if_splits dest: analize_rows_error)
      (simp_all add: tick_errors_def)
qed

end
