(* ===== verification/Server_System.thy ===== *)
theory Server_System
  imports Server_Invariant
begin

text \<open>
  The running process: an interleaving of the completions that the I/O thread delivers, the ticks
  of the main thread, the passage of time, and, in the client, the calls of its \<open>main\<close>. Boost, the
  network and the peers decide which operation completes when, with which error code and with
  which data; nothing is assumed of them, except that a completion belongs to an operation in
  flight, that \<open>is_open\<close> becomes true only with a successful handshake, that control frames are
  delivered while a read is in flight, and the limit of 64 MiB that the session sets for incoming
  messages. A handler is one step: the sessions of the server run their handlers on one I/O thread,
  and the steps here do not interleave a handler with a tick (the theories \<open>Interleaved_Tick\<close> and
  \<open>Send_Race\<close> do that).
\<close>

section \<open>Steps\<close>

definition in_flight :: "world \<Rightarrow> nat \<Rightarrow> async_op \<Rightarrow> bool" where
  "in_flight w a op \<longleftrightarrow> a < length (heap w) \<and> op \<in># ops (sess w a)"

text \<open>The operation leaves \<open>ops\<close>; \<open>up\<close> says whether the stream is open afterwards.\<close>

definition completed :: "nat \<Rightarrow> async_op \<Rightarrow> bool \<Rightarrow> world \<Rightarrow> world" where
  "completed a op up w = upd_sess a (\<lambda>s. (end_op op s)\<lparr>ws_open := up\<rparr>) w"

definition read_message_max :: nat where
  "read_message_max = 64 * 1024 * 1024"

definition receive :: "nat \<Rightarrow> string \<Rightarrow> world \<Rightarrow> world" where
  "receive a data w = upd_sess a (\<lambda>s. s\<lparr>recievedBuffer := recievedBuffer s @ data\<rparr>) w"

text \<open>The steps of the I/O thread, and the passage of time.\<close>

inductive io_step :: "world \<Rightarrow> world \<Rightarrow> bool" where
  time: "clock w \<le> t \<Longrightarrow> io_step w (w\<lparr>clock := t\<rparr>)"
| connection: "iocWsListener w = Some l \<Longrightarrow> 0 < accepts l \<Longrightarrow> io_step w (accept_completes ec k w)"
| stop_run: "iocWsListener w = Some l \<Longrightarrow> 0 < posted_stops l \<Longrightarrow> io_step w (stop_runs w)"
| accepted: "in_flight w a Op_Accept \<Longrightarrow> up \<longrightarrow> ec = Success \<Longrightarrow>
    io_step w (on_accept a ec (completed a Op_Accept up w))"
| read: "in_flight w a Op_Read \<Longrightarrow> up \<longrightarrow> ws_open (sess w a) \<Longrightarrow>
    length (recievedBuffer (sess w a) @ data) \<le> read_message_max \<Longrightarrow>
    io_step w (on_read a ec (receive a data (completed a Op_Read up w)))"
| wrote: "in_flight w a (Op_Write m) \<Longrightarrow> up \<longrightarrow> ws_open (sess w a) \<Longrightarrow>
    io_step w (on_write a ec (completed a (Op_Write m) up w))"
| pinged: "in_flight w a Op_Ping \<Longrightarrow> up \<longrightarrow> ws_open (sess w a) \<Longrightarrow>
    on_ping a ec (completed a Op_Ping up w) = Inr w' \<Longrightarrow> io_step w w'"
| timer: "in_flight w a Op_Timer \<Longrightarrow>
    io_step w (on_timer a ec (completed a Op_Timer (ws_open (sess w a)) w))"
| control: "in_flight w a Op_Read \<Longrightarrow> control_set (sess w a) \<Longrightarrow> io_step w (on_control_callback a w)"

text \<open>
  The steps of the server: the I/O thread, the main thread, and the destruction of a session that
  nothing refers to any more.
\<close>

inductive server_step :: "'d env \<Rightarrow> world \<Rightarrow> world \<Rightarrow> bool" for env where
  io: "io_step w w' \<Longrightarrow> server_step env w w'"
| stop_call: "server_step env w (upd_listener stop w)"
| tick: "handleIncomingMessages env w = Inr w' \<Longrightarrow> server_step env w w'"
| broadcast: "server_step env w (sendToAll env m w)"
| unicast: "server_step env w (sendTo k m w)"
| destroy: "a < length (heap w) \<Longrightarrow> ops (sess w a) = {#} \<Longrightarrow> Some a \<notin> snd ` set (sessions w) \<Longrightarrow>
    server_step env w (upd_sess a destroy_session w)"

text \<open>
  The steps that only the client program makes. \<open>runAsClient\<close> is called once, after the connection
  was made: no operation of the connection is in flight any more.
\<close>

inductive client_step :: "world \<Rightarrow> world \<Rightarrow> bool" where
  create: "iocWsListener w = Some l \<Longrightarrow> addClientSession l k w = (w', Some a) \<Longrightarrow>
    client_step w (connectAsClient a w')"
| resolved: "in_flight w a Op_Resolve \<Longrightarrow>
    client_step w (onResolve a ec (completed a Op_Resolve False w))"
| connected: "in_flight w a Op_Connect \<Longrightarrow>
    onConnect a ec (upd_sess a (\<lambda>s. s\<lparr>socket_open := (ec = Success \<or> socket_open s)\<rparr>)
      (completed a Op_Connect False w)) = Inr w' \<Longrightarrow> client_step w w'"
| shaken: "in_flight w a Op_Handshake \<Longrightarrow> up \<longrightarrow> ec = Success \<Longrightarrow>
    client_step w (onHandshake a ec (completed a Op_Handshake up w))"
| upload: "a < length (heap w) \<Longrightarrow> \<not> control_set (sess w a) \<Longrightarrow> chain (sess w a) = 0 \<Longrightarrow>
    client_step w (client_upload a contents w)"

definition net_step :: "'d env \<Rightarrow> world \<Rightarrow> world \<Rightarrow> bool" where
  "net_step env w w' \<longleftrightarrow> server_step env w w' \<or> client_step w w'"

inductive reachable :: "'d env \<Rightarrow> world \<Rightarrow> bool" for env where
  start: "nm_run ae c now NetworkManager = Inr \<lparr>wsServer = Some w\<rparr> \<Longrightarrow> reachable env w"
| step: "reachable env w \<Longrightarrow> net_step env w w' \<Longrightarrow> reachable env w'"

definition permutes :: "'d env \<Rightarrow> bool" where
  "permutes env \<longleftrightarrow> (\<forall>r. mset (iter_order env r) = mset r)"

section \<open>Every step keeps the invariant\<close>

lemma permutes_set: "permutes env \<Longrightarrow> set (iter_order env r) = set r"
  unfolding permutes_def using mset_eq_setD by blast

lemma in_flight_split:
  assumes "in_flight w a op"
  obtains M where "ops (sess w a) = add_mset op M" "a < length (heap w)"
  using assms by (auto simp: in_flight_def dest: multi_member_split)

lemma sess_completed:
  assumes "in_flight w a op"
  shows "sess (completed a op up w) b =
    (if b = a then (sess w a)\<lparr>ops := ops (sess w a) - {#op#}, ws_open := up\<rparr> else sess w b)"
    "length (heap (completed a op up w)) = length (heap w)"
  using assms by (auto simp: completed_def in_flight_def)

lemma session_ok_end:
  assumes "session_ok a s" and "op \<in># ops s"
  shows "session_ok a (s\<lparr>ops := ops s - {#op#}\<rparr>)"
    and "chain_op op \<Longrightarrow> chain (s\<lparr>ops := ops s - {#op#}\<rparr>) = 0"
    and "op = Op_Timer \<Longrightarrow> waits (s\<lparr>ops := ops s - {#op#}\<rparr>) = 0 \<and> control_set s"
    and "op = Op_Write m \<Longrightarrow> writes (s\<lparr>ops := ops s - {#op#}\<rparr>) = {#} \<and> isSendBusy s \<and> m = hd (sendQueue s)"
proof -
  obtain M where M: "ops s = add_mset op M" using assms(2) by (metis multi_member_split)
  have "chain (s\<lparr>ops := ops s - {#op#}\<rparr>) \<le> chain s"
    unfolding chain_def by (simp add: size_mset_mono multiset_filter_mono)
  moreover have "waits (s\<lparr>ops := ops s - {#op#}\<rparr>) \<le> waits s" by (simp add: waits_def)
  moreover have "tx_ok (s\<lparr>ops := ops s - {#op#}\<rparr>)"
    using assms(1) M by (auto simp: session_ok_def tx_ok_def writes_def split: if_splits)
  ultimately show "session_ok a (s\<lparr>ops := ops s - {#op#}\<rparr>)"
    using assms(1) by (auto simp: session_ok_def)
  show "chain_op op \<Longrightarrow> chain (s\<lparr>ops := ops s - {#op#}\<rparr>) = 0"
    "op = Op_Timer \<Longrightarrow> waits (s\<lparr>ops := ops s - {#op#}\<rparr>) = 0 \<and> control_set s"
    "op = Op_Write m \<Longrightarrow> writes (s\<lparr>ops := ops s - {#op#}\<rparr>) = {#} \<and> isSendBusy s \<and> m = hd (sendQueue s)"
    using assms(1) M by (auto simp: session_inv)
qed

lemma completed_ok:
  assumes "world_ok w" and "in_flight w a op"
  shows "world_ok (completed a op up w)"
proof -
  have a: "a < length (heap w)" "op \<in># ops (sess w a)" using assms(2) by (auto simp: in_flight_def)
  have "session_ok a ((sess w a)\<lparr>ops := ops (sess w a) - {#op#}\<rparr>)"
    using session_ok_end(1) world_okD(4) [OF assms(1) a(1)] a(2) by blast
  then have "session_ok a ((sess w a)\<lparr>ops := ops (sess w a) - {#op#}, ws_open := up\<rparr>)" by simp
  with assms(1) show ?thesis
    unfolding completed_def by (auto simp: kept_def intro!: world_ok_upd_sess)
qed

lemma completed_end:
  assumes "world_ok w" and "in_flight w a op"
  shows "chain_op op \<Longrightarrow> chain (sess (completed a op up w) a) = 0"
    and "op = Op_Timer \<Longrightarrow> waits (sess (completed a op up w) a) = 0 \<and> control_set (sess w a)"
    and "op = Op_Write m \<Longrightarrow> writes (sess (completed a op up w) a) = {#} \<and> isSendBusy (sess w a)
      \<and> m = hd (sendQueue (sess w a))"
proof -
  have a: "a < length (heap w)" "op \<in># ops (sess w a)" using assms(2) by (auto simp: in_flight_def)
  note e = session_ok_end [OF world_okD(4) [OF assms(1) a(1)] a(2)]
  show "chain_op op \<Longrightarrow> chain (sess (completed a op up w) a) = 0"
    using e(2) by (simp add: sess_completed [OF assms(2)] chain_def)
  show "op = Op_Timer \<Longrightarrow> waits (sess (completed a op up w) a) = 0 \<and> control_set (sess w a)"
    using e(3) sess_completed(1) [OF assms(2), of up a] by (simp add: waits_def)
  show "op = Op_Write m \<Longrightarrow> writes (sess (completed a op up w) a) = {#} \<and> isSendBusy (sess w a)
      \<and> m = hd (sendQueue (sess w a))"
    using e(4) sess_completed(1) [OF assms(2), of up a] by (auto simp: writes_def)
qed

lemma destroy_ok:
  assumes "world_ok w" and "a < length (heap w)" and "Some a \<notin> snd ` set (sessions w)"
  shows "world_ok (upd_sess a destroy_session w)"
proof -
  have "session_ok a (destroy_session (sess w a))"
    using world_okD(4) [OF assms(1,2)]
    by (auto simp: destroy_session_def session_inv queue_ok_def split: option.split)
  moreover have "entry_ok (upd_sess a destroy_session w) kv" if "kv \<in> set (sessions w)" for kv
  proof -
    have "entry_ok w kv" using assms(1) that by (rule world_okD(3))
    moreover have "snd kv \<noteq> Some a" using assms(3) that by force
    ultimately show ?thesis by (auto simp: entry_ok_def split: option.splits)
  qed
  ultimately show ?thesis using assms by (auto simp: world_ok_def sess_upd_sess)
qed

lemma write_completed_ok:
  assumes "world_ok w" and "in_flight w a (Op_Write m)"
  shows "world_ok (completed a (Op_Write m) up w)" "a < length (heap (completed a (Op_Write m) up w))"
    "writes (sess (completed a (Op_Write m) up w) a) = {#}"
    "isSendBusy (sess (completed a (Op_Write m) up w) a)"
proof -
  show "world_ok (completed a (Op_Write m) up w)" by (rule completed_ok [OF assms])
  show "writes (sess (completed a (Op_Write m) up w) a) = {#}" using completed_end(3) [OF assms refl] by blast
  show "isSendBusy (sess (completed a (Op_Write m) up w) a)" "a < length (heap (completed a (Op_Write m) up w))"
    using completed_end(3) [OF assms refl, of up] sess_completed [OF assms(2), of up] assms(2)
    by (auto simp: in_flight_def)
qed

lemma read_completed_ok:
  assumes "world_ok w" and "in_flight w a Op_Read"
  shows "world_ok (on_read a ec (receive a data (completed a Op_Read up w)))"
proof -
  let ?w1 = "completed a Op_Read up w"
  have a: "a < length (heap ?w1)" using assms(2) by (auto simp: sess_completed in_flight_def)
  have w1: "world_ok ?w1" "chain (sess ?w1 a) = 0"
    using assms completed_ok completed_end(1) [of w a Op_Read] by auto
  have "world_ok (receive a data ?w1)"
    unfolding receive_def using w1(1) a by (intro world_ok_upd_sess) (auto simp: world_okD)
  then show ?thesis using a w1(2) by (intro on_read_ok) (simp_all add: receive_def chain_def)
qed

lemma timer_completed_ok:
  assumes "world_ok w" and "in_flight w a Op_Timer"
  shows "world_ok (on_timer a ec (completed a Op_Timer up w))"
proof -
  let ?w1 = "completed a Op_Timer up w"
  have "world_ok ?w1" "waits (sess ?w1 a) = 0" "control_set (sess w a)"
    using assms completed_ok completed_end(2) [of w a Op_Timer] by blast+
  moreover have "control_set (sess ?w1 a) = control_set (sess w a)" "a < length (heap ?w1)"
    using sess_completed [OF assms(2)] assms(2) by (simp_all add: in_flight_def)
  ultimately show ?thesis by (intro on_timer_ok) simp_all
qed

lemma stop_steps_ok:
  assumes "world_ok w"
  shows "world_ok (upd_listener stop w)" "world_ok (stop_runs w)"
  using assms unfolding stop_runs_def
  by (auto simp: listener_ok_def stop_def perform_stop_def Let_def dest: world_okD(5) intro!: world_ok_listener)

lemma io_step_ok: "io_step w w' \<Longrightarrow> world_ok w \<Longrightarrow> world_ok w'"
proof (induction rule: io_step.induct)
  case (accepted w a up ec)
  then show ?case
    using completed_ok completed_end(1) [of w a Op_Accept]
    by (intro on_accept_ok) (auto simp: sess_completed in_flight_def)
next
  case (wrote w a m up ec)
  then show ?case by (intro on_write_ok write_completed_ok)
next
  case (pinged w a up ec w')
  have "a < length (heap (completed a Op_Ping up w))"
    using sess_completed(2) [OF pinged(1)] pinged(1) by (simp add: in_flight_def)
  with pinged completed_ok show ?case by (blast intro: on_ping_ok)
next
  case (control w a)
  then show ?case by (intro on_control_callback_ok) (auto simp: in_flight_def)
qed (simp_all add: world_ok_clock accept_completes_ok stop_steps_ok read_completed_ok timer_completed_ok)

lemma server_step_ok:
  assumes "server_step env w w'" and "world_ok w" and "permutes env"
  shows "world_ok w'"
  using assms
proof (induction rule: server_step.induct)
  case (io w w')
  then show ?case by (simp add: io_step_ok)
next
  case (tick w w')
  have "set (iter_order env (sessions w)) \<subseteq> set (sessions w)" using tick(3) by (simp add: permutes_set)
  with tick(1,2) show ?case by (rule handleIncomingMessages_ok)
qed (simp_all add: stop_steps_ok sendToAll_ok sendTo_ok destroy_ok)

lemma upload_ok:
  assumes "world_ok w" and "a < length (heap w)" and "\<not> control_set (sess w a)" and "chain (sess w a) = 0"
  shows "world_ok (client_upload a contents w)"
proof -
  have "waits (sess w a) = 0" using world_okD(4) [OF assms(1,2)] assms(3) by (simp add: session_ok_def)
  then have "world_ok (runAsClient a w)" using assms by (intro runAsClient_ok)
  then show ?thesis by (simp add: client_upload_def send_shared_def send_ok)
qed

lemma client_step_ok:
  assumes "client_step w w'" and "world_ok w"
  shows "world_ok w'"
  using assms
proof (induction rule: client_step.induct)
  case (create w l k w' a)
  then have w': "w' = new_session l k w" "a = length (heap w)"
    by (auto simp: addClientSession_def split: if_splits)
  have "session_ok a (start_op Op_Resolve (WsSession (l_socket_open l) k))"
    by (rule session_ok_start [OF session_ok_new]) (simp_all add: chain_def)
  then show ?case
    using create(3) world_ok_new_session [of w l k]
    by (auto simp: w' connectAsClient_def sess_new_session kept_def intro!: world_ok_upd_sess)
next
  case (resolved w a ec)
  let ?w1 = "completed a Op_Resolve False w"
  have w1: "world_ok ?w1" "chain (sess ?w1 a) = 0" "a < length (heap ?w1)"
    using resolved completed_ok completed_end(1) [of w a Op_Resolve] sess_completed(2) [of w a Op_Resolve]
    by (auto simp: in_flight_def)
  then have "session_ok a (start_op Op_Connect (sess ?w1 a))"
    by (intro session_ok_start) (simp_all add: world_okD)
  then show ?case
    using w1 by (auto simp: onResolve_def world_ok_session_fail kept_def intro!: world_ok_upd_sess)
next
  case (connected w a ec w')
  let ?w1 = "completed a Op_Connect False w"
  let ?w2 = "upd_sess a (\<lambda>s. s\<lparr>socket_open := (ec = Success \<or> socket_open s)\<rparr>) ?w1"
  have w1: "world_ok ?w1" "chain (sess ?w1 a) = 0" "a < length (heap ?w1)"
    using connected completed_ok completed_end(1) [of w a Op_Connect] sess_completed(2) [of w a Op_Connect]
    by (auto simp: in_flight_def)
  then have w2: "world_ok ?w2" by (intro world_ok_upd_sess) (simp_all add: world_okD)
  have "session_ok a (start_op Op_Handshake (sess ?w2 a))"
    using w1 by (intro session_ok_start) (simp_all add: world_okD chain_def)
  then have "world_ok (upd_sess a (start_op Op_Handshake) ?w2)"
    by (intro world_ok_upd_sess [OF w2]) (simp_all add: kept_def)
  with connected(2) w2 show ?case
    by (auto simp: onConnect_def world_ok_session_fail split: if_splits)
next
  case (shaken w a up ec)
  then show ?case using completed_ok by (auto simp: onHandshake_def world_ok_session_fail)
next
  case (upload a w contents)
  then show ?case by (simp add: upload_ok)
qed

lemma nm_run_ok:
  assumes "nm_run ae c now NetworkManager = Inr \<lparr>wsServer = Some w\<rparr>"
  shows "world_ok w"
  using assms WsListener_ok [of ae "(address c, wsPort c)" "workdir c"]
  by (auto simp: nm_run_def runThreads_def runIocWsListener_def NetworkManager_def WSServer_def world_ok_def
      registry_ok_def split: if_splits)

lemma reachable_ok: "reachable env w \<Longrightarrow> permutes env \<Longrightarrow> world_ok w"
proof (induction rule: reachable.induct)
  case (start ae c now w)
  then show ?case by (simp add: nm_run_ok)
next
  case (step w w')
  then show ?case by (auto simp: net_step_def intro: server_step_ok client_step_ok)
qed

end
