(* ===== verification/System_Properties.thy ===== *)
theory System_Properties
  imports Server_System Server_Protocol
begin

text \<open>
  Properties of the runs of the process: the outgoing streams of the sessions only grow, a listener
  that waits for no connection stays that way, and ticks fail only inside the analysis of a table.
  For each, a relation between a state and a later one is shown handler by handler, then for every
  step, then for every run.
\<close>

section \<open>Relations that every step respects\<close>

text \<open>
  Two states of a session: the sending side is the same; the queue of received messages is there
  and only got longer.
\<close>

definition tx_same :: "ws_session \<Rightarrow> ws_session \<Rightarrow> bool" where
  "tx_same s s' \<longleftrightarrow> id_of s' = id_of s \<and> wire s' = wire s \<and> sendQueue s' = sendQueue s
     \<and> isSendBusy s' = isSendBusy s"

definition rx_le :: "ws_session \<Rightarrow> ws_session \<Rightarrow> bool" where
  "rx_le s s' \<longleftrightarrow> (case receivedMessagesQueue s of
     None \<Rightarrow> receivedMessagesQueue s' = None
   | Some q \<Rightarrow> (case receivedMessagesQueue s' of None \<Rightarrow> False
       | Some q' \<Rightarrow> prefix (callbacksQueue q) (callbacksQueue q') \<and> quit q' = quit q))"

lemma rx_le_same: "receivedMessagesQueue s' = receivedMessagesQueue s \<Longrightarrow> rx_le s s'"
  by (simp add: rx_le_def split: option.split)

lemma rx_le_trans: "rx_le s s' \<Longrightarrow> rx_le s' s'' \<Longrightarrow> rx_le s s''"
  unfolding rx_le_def by (auto split: option.splits intro: prefix_order.trans)

text \<open>A state and a later one that differ in nothing else but the queues; most handlers only do that.\<close>

definition quiet :: "world \<Rightarrow> world \<Rightarrow> bool" where
  "quiet w w' \<longleftrightarrow> length (heap w') = length (heap w) \<and> iocWsListener w' = iocWsListener w
     \<and> (\<forall>b < length (heap w). tx_same (sess w b) (sess w' b) \<and> rx_le (sess w b) (sess w' b))"

lemmas quiet_defs = quiet_def tx_same_def sess_upd_sess on_session_fail_def

lemma quiet_trans: "quiet w w' \<Longrightarrow> quiet w' w'' \<Longrightarrow> quiet w w''"
  by (auto simp: quiet_def tx_same_def intro: rx_le_trans)

lemma quiet_incoming: "quiet w (fst (handleIncomingData a m w))"
  by (auto simp: quiet_defs handleIncomingData_def rx_le_def dispatch_def split: option.split)

lemma quiet_process_buffer: "quiet w (process_buffer a w)"
proof -
  let ?w1 = "fst (handleIncomingData a (Some (recievedBuffer (sess w a))) w)"
  let ?w2 = "upd_sess a (\<lambda>s. s\<lparr>recievedBuffer := []\<rparr>) ?w1"
  have "quiet ?w1 ?w2" "quiet ?w2 (do_read a ?w2)" "quiet w w"
    by (simp_all add: do_read_def quiet_defs rx_le_same)
  then show ?thesis
    using quiet_incoming [of w a] by (auto simp: process_buffer_def Let_def intro: quiet_trans)
qed

lemma quiet_handlers:
  shows quiet_clock: "quiet w (w\<lparr>clock := t\<rparr>)"
    and quiet_on_timer: "quiet w (on_timer a ec w)"
    and quiet_on_accept: "quiet w (on_accept a ec w)"
    and quiet_on_control: "quiet w (on_control_callback a w)"
    and quiet_on_ping: "on_ping a ec w = Inr w' \<Longrightarrow> quiet w w'"
    and quiet_unregister: "quiet w (unregisterSession k w)"
    and quiet_completed: "quiet w (completed a op up w)"
    and quiet_receive: "quiet w (receive a data w)"
  by (auto simp: quiet_defs on_timer_def on_accept_def do_read_def on_control_callback_def
      onRemoteActivity_def on_ping_def completed_def receive_def Let_def rx_le_same split: if_splits)

lemma quiet_on_read: "quiet w (on_read a ec w)"
  using quiet_process_buffer [of w a] quiet_trans [OF quiet_unregister quiet_process_buffer] quiet_clock [of w "clock w"]
  by (auto simp: on_read_def on_session_fail_def)

text \<open>
  What has to be shown of a reflexive and transitive relation between states for it to hold
  between the states before and after every step of the I/O thread: that it allows quiet changes,
  and the handlers that are not quiet.
\<close>

locale io_relation =
  fixes R :: "world \<Rightarrow> world \<Rightarrow> bool"
  assumes refl: "R w w"
    and trans: "R w w' \<Longrightarrow> R w' w'' \<Longrightarrow> R w w''"
    and of_quiet: "quiet w w' \<Longrightarrow> R w w'"
    and of_on_write: "world_ok w \<Longrightarrow> a < length (heap w) \<Longrightarrow> writes (sess w a) = {#} \<Longrightarrow>
      isSendBusy (sess w a) \<Longrightarrow> R w (on_write a ec w)"
    and of_accept: "iocWsListener w = Some l \<Longrightarrow> 0 < accepts l \<Longrightarrow> R w (accept_completes ec k w)"
    and of_stop_runs: "R w (stop_runs w)"
begin

lemma io_step: "io_step w w' \<Longrightarrow> world_ok w \<Longrightarrow> R w w'"
proof (induction rule: io_step.induct)
  case (wrote w a m up ec)
  then have "R (completed a (Op_Write m) up w) (on_write a ec (completed a (Op_Write m) up w))"
    by (intro of_on_write write_completed_ok)
  then show ?case using trans of_quiet quiet_completed by blast
next
  case (read w a up data ec)
  show ?case
    by (rule of_quiet [OF quiet_trans [OF quiet_completed quiet_trans [OF quiet_receive quiet_on_read]]])
next
  case (pinged w a up ec w')
  show ?case by (rule of_quiet [OF quiet_trans [OF quiet_completed quiet_on_ping [OF pinged(3)]]])
qed (simp_all add: of_quiet quiet_handlers quiet_trans [OF quiet_completed quiet_on_accept]
    quiet_trans [OF quiet_completed quiet_on_timer] of_accept of_stop_runs)

end

text \<open>
  The same for every run of the server: in addition the relation has to allow what the callbacks
  and the main thread do. The tick, broadcasts and the steps follow.
\<close>

locale run_relation = io_relation +
  assumes of_send: "world_ok w \<Longrightarrow> R w (send a m w)"
    and of_pop: "R w (upd_queue_at a pop_callback w)"
    and of_stop: "R w (upd_listener stop w)"
    and of_destroy: "R w (upd_sess a destroy_session w)"
begin

lemma callback:
  assumes "exec_callback env cb w = Inr w'" and "world_ok w"
  shows "R w w'"
  using assms(1) by (rule exec_callback_cases) (use assms(2) refl of_send in auto)

lemma run_queued:
  assumes "run_queued env a w = Inr w'" and "world_ok w"
  shows "R w w' \<and> world_ok w'"
  using assms(1) unfolding run_queued_def
proof (rule foldM_invariant [where I = "\<lambda>v. R w v \<and> world_ok v"])
  fix cb v v'
  assume v: "R w v \<and> world_ok v" and ex: "exec_callback env cb (upd_queue_at a pop_callback v) = Inr v'"
  let ?u = "upd_queue_at a pop_callback v"
  have u: "R v ?u" "world_ok ?u" using v of_pop pop_ok by auto
  with ex have "R ?u v'" by (intro callback)
  with u v ex show "R w v' \<and> world_ok v'" by (blast intro: trans exec_callback_ok)
qed (use assms(2) refl in simp)

lemma tick:
  assumes "handleIncomingMessages env w = Inr w'" and "world_ok w" and "permutes env"
  shows "R w w'"
proof -
  have "foldM (visit_session (\<lambda>_. run_queued env)) (iter_order env (sessions w)) w = Inr w'"
    using assms handleIncomingMessages_eq [OF world_ok_queues_ready, of w env] by (simp add: permutes_set)
  then have "R w w' \<and> world_ok w'"
  proof (rule foldM_invariant [where I = "\<lambda>v. R w v \<and> world_ok v"])
    fix kv v v'
    assume v: "R w v \<and> world_ok v" and "visit_session (\<lambda>_. run_queued env) kv v = Inr v'"
    then have "R v v' \<and> world_ok v'" using run_queued refl by (cases kv; cases "snd kv") auto
    with v show "R w v' \<and> world_ok v'" using trans by blast
  qed (use assms(2) refl in simp)
  then show ?thesis by simp
qed

lemma broadcast:
  assumes "world_ok w"
  shows "R w (sendToAll env m w)"
proof -
  have "world_ok v \<Longrightarrow> R w v \<Longrightarrow>
      R w (fold (\<lambda>(_, p) w. case p of None \<Rightarrow> w | Some a \<Rightarrow> send a m w) kvs v)"
    for kvs :: "nat registry" and v
    by (induction kvs arbitrary: v)
      (use send_ok of_send trans in \<open>auto split: prod.split option.split\<close>)
  from this [OF assms refl] show ?thesis by (simp add: sendToAll_def)
qed

lemma server_step:
  assumes "server_step env w w'" and "world_ok w" and "permutes env"
  shows "R w w'"
  using assms
proof (induction rule: server_step.induct)
  case (unicast w k m)
  then show ?case by (auto simp: sendTo_def refl of_send split: option.split)
qed (simp_all add: io_step of_stop of_destroy tick broadcast)

lemma server_run:
  assumes "(server_step env)\<^sup>*\<^sup>* w w'" and "world_ok w" and "permutes env"
  shows "R w w' \<and> world_ok w'"
  using assms
proof (induction rule: rtranclp_induct)
  case (step v v')
  then show ?case using server_step [of env v v'] server_step_ok [of env v v'] trans by blast
qed (simp add: refl)

end

section \<open>What was accepted for sending is never taken back\<close>

definition out_le :: "ws_session \<Rightarrow> ws_session \<Rightarrow> bool" where
  "out_le s s' \<longleftrightarrow> id_of s' = id_of s \<and> prefix (wire s) (wire s')
     \<and> prefix (accepted_messages s) (accepted_messages s')"

definition grows :: "world \<Rightarrow> world \<Rightarrow> bool" where
  "grows w w' \<longleftrightarrow> length (heap w) \<le> length (heap w')
     \<and> (\<forall>b < length (heap w). out_le (sess w b) (sess w' b))"

lemma grows_refl [simp]: "grows w w"
  by (simp add: grows_def out_le_def)

lemma grows_trans: "grows w w' \<Longrightarrow> grows w' w'' \<Longrightarrow> grows w w''"
  by (auto simp: grows_def out_le_def) (meson prefix_order.trans less_le_trans)+

lemma grows_tx_same:
  assumes "length (heap w) \<le> length (heap w')"
    and "\<And>b. b < length (heap w) \<Longrightarrow> tx_same (sess w b) (sess w' b)"
  shows "grows w w'"
  using assms by (simp add: grows_def out_le_def tx_same_def accepted_messages_def pending_def)

lemma quiet_grows: "quiet w w' \<Longrightarrow> grows w w'"
  by (simp add: quiet_def grows_tx_same)

lemma grows_send:
  assumes "world_ok w"
  shows "grows w (send a m w)"
proof (cases "a < length (heap w)")
  case True
  then have "tx_ok (sess w a)" using world_okD(4) [OF assms True] by (simp add: session_ok_def)
  then have "out_le (sess w a) (send_message m (sess w a))"
    using tx_ok_send_message [of "sess w a" m]
    by (auto simp: out_le_def send_message_def async_write_def Let_def)
  then show ?thesis by (auto simp: grows_def send_def sess_upd_sess out_le_def)
next
  case False
  then show ?thesis by (simp add: send_def upd_sess_def list_update_beyond)
qed

lemma grows_on_write:
  assumes "world_ok w" and "a < length (heap w)" and "writes (sess w a) = {#}" and "isSendBusy (sess w a)"
  shows "grows w (on_write a ec w)"
proof -
  have "tx_ok (sess w a)" using world_okD(4) [OF assms(1,2)] by (simp add: session_ok_def)
  then have "out_le (sess w a) (written (sess w a))"
    using tx_ok_written [of "sess w a"] assms(3,4)
    by (auto simp: out_le_def written_def write_next_def async_write_def)
  then show ?thesis
    using quiet_grows [OF quiet_unregister]
    by (auto simp: on_write_def on_session_fail_def grows_def sess_upd_sess out_le_def)
qed

lemma grows_new_session: "grows w (new_session l k w)"
  by (rule grows_tx_same) (simp_all add: sess_new_session tx_same_def)

lemma grows_listener: "grows w (upd_listener f w)" "grows w (w\<lparr>iocWsListener := l\<rparr>)"
  by (simp_all add: grows_tx_same tx_same_def)

lemma grows_accept: "grows w (accept_completes ec k w)"
proof (cases "iocWsListener w")
  case None
  then show ?thesis by (simp add: accept_completes_def)
next
  case (Some l)
  have "grows v (runAsServer a v)" for a v
    by (rule grows_tx_same) (simp_all add: runAsServer_def on_timer_def Let_def quiet_defs)
  then show ?thesis
    unfolding accept_completes_def Some listener_on_accept_def Let_def
    by (auto intro: grows_listener grows_trans [OF grows_listener(2)] grows_trans [OF _ grows_listener(1)]
        grows_trans [OF grows_trans [OF grows_listener(2) grows_new_session]])
qed

interpretation growth: run_relation grows
proof unfold_locales
  show "grows w (stop_runs w)" for w
    by (simp add: stop_runs_def grows_listener)
  show "grows w (upd_queue_at a pop_callback w)" for w a
    by (rule grows_tx_same) (simp_all add: upd_queue_at_def quiet_defs)
  show "grows w (upd_sess a destroy_session w)" for w a
    by (rule grows_tx_same) (auto simp: destroy_session_def quiet_defs split: option.split)
qed (use grows_trans in \<open>auto intro: quiet_grows grows_send grows_on_write grows_accept grows_listener\<close>)

lemma client_step_grows:
  assumes "client_step w w'" and "world_ok w"
  shows "grows w w'"
  using assms
proof (induction rule: client_step.induct)
  case (create w l k w' a)
  then have "w' = new_session l k w" by (auto simp: addClientSession_def split: if_splits)
  moreover have "grows v (connectAsClient a v)" for v
    by (rule grows_tx_same) (simp_all add: connectAsClient_def quiet_defs)
  ultimately show ?case using grows_new_session grows_trans by blast
next
  case (resolved w a ec)
  show ?case by (rule grows_tx_same) (simp_all add: onResolve_def completed_def quiet_defs)
next
  case (connected w a ec w')
  from connected(2) show ?case
    by (intro grows_tx_same) (auto simp: onConnect_def completed_def quiet_defs split: if_splits)
next
  case (shaken w a up ec)
  show ?case by (rule grows_tx_same) (simp_all add: onHandshake_def completed_def quiet_defs)
next
  case (upload a w contents)
  have "waits (sess w a) = 0" using world_okD(4) [OF upload(4,1)] upload(2) by (simp add: session_ok_def)
  then have "world_ok (runAsClient a w)" using upload by (intro runAsClient_ok)
  moreover have "grows w (runAsClient a w)"
    by (rule grows_tx_same) (simp_all add: runAsClient_def do_read_def on_timer_def Let_def quiet_defs)
  ultimately show ?case
    using grows_send grows_trans by (auto simp: client_upload_def send_shared_def)
qed

lemma net_run_grows:
  assumes "(net_step env)\<^sup>*\<^sup>* w w'" and "world_ok w" and "permutes env"
  shows "grows w w' \<and> world_ok w'"
  using assms
proof (induction rule: rtranclp_induct)
  case (step v v')
  then have "grows v v'" "world_ok v'"
    by (auto simp: net_step_def intro: growth.server_step client_step_grows server_step_ok client_step_ok)
  with step show ?case by (blast intro: grows_trans)
qed simp

section \<open>A listener that waits for nothing stays that way\<close>

definition silent :: "world \<Rightarrow> bool" where
  "silent w \<longleftrightarrow> (\<forall>l. iocWsListener w = Some l \<longrightarrow> accepts l = 0)"

definition stays_silent :: "world \<Rightarrow> world \<Rightarrow> bool" where
  "stays_silent w w' \<longleftrightarrow> (silent w \<longrightarrow> silent w' \<and> length (heap w') = length (heap w))"

interpretation silence: run_relation stays_silent
proof unfold_locales
  show "stays_silent w (accept_completes ec k w)" if "iocWsListener w = Some l" "0 < accepts l" for w l ec k
    using that by (simp add: stays_silent_def silent_def)
  show "stays_silent w (upd_listener stop w)" "stays_silent w (stop_runs w)" for w
    by (auto simp: stays_silent_def silent_def stop_runs_def stop_def perform_stop_def Let_def)
  show "stays_silent w w'" if "quiet w w'" for w w'
    using that by (simp add: stays_silent_def silent_def quiet_def)
  show "stays_silent w (send a m w)" "stays_silent w (on_write a ec w)"
    "stays_silent w (upd_queue_at a pop_callback w)" "stays_silent w (upd_sess a destroy_session w)" for w a m ec
    by (simp_all add: stays_silent_def silent_def on_write_def on_session_fail_def upd_queue_at_def)
  show "stays_silent w w''" if "stays_silent w w'" "stays_silent w' w''" for w w' w''
    using that by (simp add: stays_silent_def)
qed (simp add: stays_silent_def)

lemma entry_okE:
  assumes "entry_ok w kv"
  obtains k a q where "kv = (k, Some a)" "a < length (heap w)" "receivedMessagesQueue (sess w a) = Some q"
  using assms by (cases kv) (auto simp: entry_ok_def split: option.splits)

lemma tick_error:
  assumes "handleIncomingMessages env w = Inl e" and "world_ok w" and "permutes env"
  shows "e \<in> tick_errors"
proof -
  have queued: "e \<in> tick_errors" if "run_queued env a v = Inl e" "world_ok v" "a < length (heap v)"
      "receivedMessagesQueue (sess v a) = Some q" for a v q
  proof -
    have "list_all (bound_ok a) (callbacksQueue (queue_at a v))"
      using world_okD(4) [OF that(2,3)] that(4) by (simp add: session_ok_def queue_ok_def queue_at_def)
    then show ?thesis
      using that(1) unfolding run_queued_def
      by (elim foldM_error [where I = "\<lambda>_. True"]) (auto simp: list_all_iff intro: exec_callback_error)
  qed
  have "foldM (visit_session (\<lambda>_. run_queued env)) (iter_order env (sessions w)) w = Inl e"
    using assms handleIncomingMessages_eq [OF world_ok_queues_ready, of w env] by (simp add: permutes_set)
  then show ?thesis
  proof (rule foldM_error [where I = "\<lambda>v. world_ok v \<and> sessions v = sessions w"], goal_cases)
    case 1
    then show ?case using assms(2) by simp
  next
    case (2 kv v v')
    have "kv \<in> set (sessions w)" using 2(1) assms(3) by (simp add: permutes_set)
    with 2 have "entry_ok v kv" by (simp add: world_okD(3))
    then obtain k a where kv: "kv = (k, Some a)" "has_queue a v" by (auto simp: has_queue_def elim: entry_okE)
    with 2 run_queued_ok run_queued_frame [of env a v v'] show ?case by auto
  next
    case (3 kv v)
    have "kv \<in> set (sessions w)" using 3(1) assms(3) by (simp add: permutes_set)
    with 3 have "entry_ok v kv" by (simp add: world_okD(3))
    then obtain k a q where "kv = (k, Some a)" "a < length (heap v)"
      "receivedMessagesQueue (sess v a) = Some q" by (rule entry_okE)
    with 3 queued show ?case by auto
  qed
qed

section \<open>A reachable example\<close>

lemma permutes_example: "permutes example_env"
  by (simp add: permutes_def)

lemma started_listening:
  obtains ae w l where "nm_run ae (ServerConfig []) 0 NetworkManager = Inr \<lparr>wsServer = Some w\<rparr>"
    "iocWsListener w = Some l" "listener_ok l" "acceptor_open l" "accepts l = 1" "heap w = []" "sessions w = []"
    "clock w = 0"
proof -
  let ?ae = "\<lparr>ec_open = Success, ec_set_option = Success, ec_bind = Success, ec_listen = Success\<rparr>"
  let ?l = "run_listener (WsListener ?ae (''127.0.0.1'', 8080) [])"
  let ?w = "(WSServer 0)\<lparr>iocWsListener := Some ?l, wsThreads := [Joinable]\<rparr>"
  have "nm_run ?ae (ServerConfig []) 0 NetworkManager = Inr \<lparr>wsServer = Some ?w\<rparr>"
    by (simp add: nm_run_def runThreads_def runIocWsListener_def ServerConfig_def loadConf_def
        NetworkManager_def WSServer_def)
  moreover have "acceptor_open ?l" "accepts ?l = 1"
    by (simp_all add: run_listener_def WsListener_def configureAcceptor_def do_accept_def isAccepting_def)
  ultimately show thesis
    using that [of ?ae ?w ?l] WsListener_ok by (simp add: WSServer_def)
qed

lemma reachable_listening:
  obtains w l where "reachable example_env w" "iocWsListener w = Some l" "listener_ok l" "acceptor_open l"
    "accepts l = 1" "heap w = []" "sessions w = []" "clock w = 0"
  using started_listening reachable.start by metis

lemma reachable_session:
  obtains w where "reachable example_env w" "length (heap w) = 1" "getSessById (sessions w) ''s'' = Some 0"
    "in_flight w 0 Op_Timer"
proof -
  obtain w l where w: "reachable example_env w" "iocWsListener w = Some l" "listener_ok l" "acceptor_open l"
    "accepts l = 1" "heap w = []" "sessions w = []" by (rule reachable_listening)
  let ?w1 = "accept_completes Success ''s'' w"
  have "server_step example_env w ?w1" using w(2,5) by (intro server_step.io io_step.connection) auto
  with w(1) have "reachable example_env ?w1" by (auto simp: net_step_def intro: reachable.step)
  then show thesis
    using that [of ?w1] accept_success [OF w(2-4)] w(5-7)
    by (simp add: Let_def getSessById_def in_flight_def sess_def)
qed

section \<open>Properties\<close>

text \<open>
  C1: the invariant of the running process. In every reachable state, whatever the network and the
  peers do: each session has at most one operation of its connection and reading chain and at most
  one wait on its timer in flight; at most one write is in flight, and its bytes are those at the
  front of \<open>sendQueue_\<close>, which therefore are alive; what was handed to the stream is a prefix of what
  was accepted; every queued callback is bound to its own session and to a message that routes to
  it, so no null pointer reaches a callback; and the session table maps every identifier to an
  existing session with that identifier.
\<close>

theorem system_invariant:
  assumes "reachable env w" and "permutes env"
  shows "(\<forall>a < length (heap w). let s = sess w a in
      size (filter_mset chain_op (ops s)) \<le> 1 \<and> count (ops s) Op_Timer \<le> 1
      \<and> (\<forall>m. Op_Write m \<in># ops s \<longrightarrow> writes s = {#m#} \<and> sendQueue s \<noteq> [] \<and> hd (sendQueue s) = m)
      \<and> prefix (wire s) (accepted_messages s)
      \<and> (\<forall>q b. receivedMessagesQueue s = Some q \<longrightarrow> b \<in> set (callbacksQueue q) \<longrightarrow>
           clientSession b = Some a \<and> (\<exists>m. messageBuffer b = Some m \<and> route m = Some (callback b))))
    \<and> (\<forall>k a. getSessById (sessions w) k = Some a \<longrightarrow> a < length (heap w) \<and> id_of (sess w a) = k)"
proof -
  have ok: "world_ok w" by (rule reachable_ok [OF assms])
  have "a < length (heap w) \<and> id_of (sess w a) = k" if "getSessById (sessions w) k = Some a" for k a
    using that world_okD(3) [OF ok, of "(k, Some a)"] world_okD(2) [OF ok]
    by (simp add: getSessById_in entry_ok_def)
  moreover have "let s = sess w a in
      size (filter_mset chain_op (ops s)) \<le> 1 \<and> count (ops s) Op_Timer \<le> 1
      \<and> (\<forall>m. Op_Write m \<in># ops s \<longrightarrow> writes s = {#m#} \<and> sendQueue s \<noteq> [] \<and> hd (sendQueue s) = m)
      \<and> prefix (wire s) (accepted_messages s)
      \<and> (\<forall>q b. receivedMessagesQueue s = Some q \<longrightarrow> b \<in> set (callbacksQueue q) \<longrightarrow>
           clientSession b = Some a \<and> (\<exists>m. messageBuffer b = Some m \<and> route m = Some (callback b)))"
    if "a < length (heap w)" for a
  proof -
    have s: "session_ok a (sess w a)" using ok that by (rule world_okD(4))
    then have tx: "tx_ok (sess w a)" by (simp add: session_ok_def)
    have "writes (sess w a) = {#m#} \<and> sendQueue (sess w a) \<noteq> [] \<and> hd (sendQueue (sess w a)) = m"
      if "Op_Write m \<in># ops (sess w a)" for m
      using writes_in [OF that] tx by (auto simp: tx_ok_def)
    moreover have "clientSession b = Some a \<and> (\<exists>m. messageBuffer b = Some m \<and> route m = Some (callback b))"
      if "receivedMessagesQueue (sess w a) = Some q" "b \<in> set (callbacksQueue q)" for q b
      using s that by (auto simp: session_ok_def queue_ok_def list_all_iff bound_ok_def split: option.splits)
    ultimately show ?thesis
      using s tx.handed_prefix [OF tx] unfolding Let_def by (simp add: session_ok_def chain_def waits_def)
  qed
  ultimately show ?thesis by blast
qed

theorem system_invariant_witness:
  "\<exists>w. reachable example_env w \<and> in_flight w 0 Op_Timer \<and> count (ops (sess w 0)) Op_Timer \<le> 1
     \<and> id_of (sess w 0) = ''s''"
proof -
  obtain w where w: "reachable example_env w" "length (heap w) = 1" "getSessById (sessions w) ''s'' = Some 0"
    "in_flight w 0 Op_Timer" by (rule reachable_session)
  with system_invariant [OF w(1) permutes_example] show ?thesis by (auto simp: Let_def)
qed

text \<open>
  C9: how a tick can fail. In every reachable state a tick either succeeds or fails inside the
  analysis of an uploaded table, with one of five failures: termination by a missing column, an
  access outside a short row, an overlong field, a date outside the range of the clock, a field
  that is not a number. It never dereferences a null pointer, never reads past a message, and
  never hangs.
\<close>

theorem tick_failure_modes:
  assumes "reachable env w" and "permutes env"
  shows "(\<exists>w'. handleIncomingMessages env w = Inr w')
    \<or> (\<exists>e. handleIncomingMessages env w = Inl e \<and> e \<in> {Terminate, Out_Of_Bounds, Buffer_Overflow,
         Signed_Overflow, Exception ''bad_lexical_cast''})"
  using tick_error [OF _ reachable_ok [OF assms] assms(2)]
  by (cases "handleIncomingMessages env w") (auto simp: tick_errors_def)

theorem tick_failure_modes_witness:
  "\<exists>w. reachable example_env w \<and> length (heap w) = 1 \<and>
     ((\<exists>w'. handleIncomingMessages example_env w = Inr w')
      \<or> (\<exists>e. handleIncomingMessages example_env w = Inl e \<and> e \<noteq> Null_Dereference))"
proof -
  obtain w where w: "reachable example_env w" "length (heap w) = 1" by (rule reachable_session)
  with tick_failure_modes [OF w(1) permutes_example] show ?thesis by auto
qed

text \<open>
  C14: the outgoing streams only grow. Along every run from a reachable state, the list of messages
  that a session accepted for sending and the list of those it handed to its stream are extended at
  the end and never changed otherwise, and the session keeps its identifier.
\<close>

theorem outgoing_streams_grow:
  assumes "reachable env w" and "permutes env" and "(net_step env)\<^sup>*\<^sup>* w w'" and "a < length (heap w)"
  shows "a < length (heap w') \<and> id_of (sess w' a) = id_of (sess w a)
    \<and> prefix (accepted_messages (sess w a)) (accepted_messages (sess w' a))
    \<and> prefix (wire (sess w a)) (wire (sess w' a)) \<and> prefix (wire (sess w' a)) (accepted_messages (sess w' a))"
proof -
  have g: "grows w w'" "world_ok w'" using net_run_grows [OF assms(3) reachable_ok [OF assms(1,2)] assms(2)] by auto
  have a: "a < length (heap w')" using g(1) assms(4) by (simp add: grows_def)
  then have "tx_ok (sess w' a)" using world_okD(4) [OF g(2)] by (simp add: session_ok_def)
  from tx.handed_prefix [OF this] g(1) a assms(4) show ?thesis by (simp add: grows_def out_le_def)
qed

theorem outgoing_streams_grow_witness:
  "\<exists>w w'. reachable example_env w \<and> net_step example_env w w' \<and> w' = sendToAll example_env ''hello'' w
     \<and> prefix (accepted_messages (sess w 0)) (accepted_messages (sess w' 0))"
proof -
  obtain w where w: "reachable example_env w" "length (heap w) = 1" by (rule reachable_session)
  let ?w' = "sendToAll example_env ''hello'' w"
  have s: "net_step example_env w ?w'" by (auto simp: net_step_def intro: server_step.broadcast)
  then have "(net_step example_env)\<^sup>*\<^sup>* w ?w'" by auto
  from outgoing_streams_grow [OF w(1) permutes_example this, of 0] w s show ?thesis by auto
qed

text \<open>
  C24: a server whose accept failed once never serves a new connection: from then on, along every
  run of the server, no accept is pending and no session is ever created again, although the
  listener still claims to be accepting at that point.
\<close>

theorem failed_accept_ends_service:
  assumes "reachable env w" and "permutes env" and "iocWsListener w = Some l" and "acceptor_open l"
    and "0 < accepts l" and "ec \<noteq> Success" and "(server_step env)\<^sup>*\<^sup>* (accept_completes ec k w) w'"
  shows "length (heap w') = length (heap w) \<and> (\<forall>l'. iocWsListener w' = Some l' \<longrightarrow> accepts l' = 0)
    \<and> (\<exists>l1. iocWsListener (accept_completes ec k w) = Some l1 \<and> isAccepting l1)"
proof -
  have ok: "world_ok w" by (rule reachable_ok [OF assms(1,2)])
  have l: "listener_ok l" using ok assms(3) by (rule world_okD(5))
  then have one: "accepts l = 1" using assms(5) by (auto simp: listener_ok_def)
  have eq: "accept_completes ec k w = w\<lparr>iocWsListener := Some (l\<lparr>accepts := 0\<rparr>)\<rparr>"
    using accept_failure [OF assms(3) l assms(6)] one by simp
  then have "silent (accept_completes ec k w)" by (simp add: silent_def)
  with silence.server_run [OF assms(7) accept_completes_ok [OF ok assms(3,5)] assms(2)] eq assms(4)
  show ?thesis by (simp add: stays_silent_def silent_def isAccepting_def)
qed

theorem failed_accept_ends_service_witness:
  "\<exists>w w1. reachable example_env w \<and> w1 = accept_completes (Other_Error 24) ''s'' w
     \<and> length (heap (w1\<lparr>clock := 60\<rparr>)) = 0 \<and> (\<forall>l. iocWsListener (w1\<lparr>clock := 60\<rparr>) = Some l \<longrightarrow> accepts l = 0)"
proof -
  obtain w l where w: "reachable example_env w" "iocWsListener w = Some l" "listener_ok l" "acceptor_open l"
    "accepts l = 1" "heap w = []" "sessions w = []" "clock w = 0" by (rule reachable_listening)
  let ?w1 = "accept_completes (Other_Error 24) ''s'' w"
  have "clock ?w1 \<le> 60" using accept_failure [OF w(2,3)] w(8) by simp
  then have "server_step example_env ?w1 (?w1\<lparr>clock := 60\<rparr>)" by (intro server_step.io io_step.time)
  then have "(server_step example_env)\<^sup>*\<^sup>* ?w1 (?w1\<lparr>clock := 60\<rparr>)" by auto
  from failed_accept_ends_service [OF w(1) permutes_example w(2,4) _ _ this] w show ?thesis by auto
qed

end
