(* ===== verification/Session_Ids.thy ===== *)
theory Session_Ids
  imports System_Properties String_Utils
begin

text \<open>
  The identifiers of sessions. \<open>WsListener::on_accept\<close> draws an identifier for every session it
  creates (\<open>nextWsSessionId\<close>, \<open>genGuid\<close>), and a session that fails or times out removes the entry with
  its identifier from the table. That this entry is its own rests on the identifiers being
  different, which the code does not check (\<open>addSession\<close> replaces an entry). Here the server runs
  together with the source of randomness; \<open>fresh_draws\<close> says that the identifiers drawn so far are
  different, which is what a random 128-bit identifier is relied on for.
\<close>

section \<open>The server with its generator\<close>

definition nextWsSessionId :: "('g, 'u) uuid_lib \<Rightarrow> 'g \<Rightarrow> string \<times> 'g" where
  "nextWsSessionId lib g = genGuid lib g"

text \<open>An accept that creates a session draws an identifier; no other step creates a session of the server.\<close>

inductive guid_step :: "('g, 'u) uuid_lib \<Rightarrow> 'd env \<Rightarrow> world \<times> 'g \<Rightarrow> world \<times> 'g \<Rightarrow> bool" for lib env where
  created: "iocWsListener w = Some l \<Longrightarrow> 0 < accepts l \<Longrightarrow> acceptor_open l \<Longrightarrow>
    nextWsSessionId lib g = (k, g') \<Longrightarrow> guid_step lib env (w, g) (accept_completes Success k w, g')"
| other: "server_step env w w' \<Longrightarrow> length (heap w') = length (heap w) \<Longrightarrow> guid_step lib env (w, g) (w', g)"

inductive guid_reachable :: "('g, 'u) uuid_lib \<Rightarrow> 'd env \<Rightarrow> 'g \<Rightarrow> world \<times> 'g \<Rightarrow> bool" for lib env g0 where
  start: "nm_run ae c now NetworkManager = Inr \<lparr>wsServer = Some w\<rparr> \<Longrightarrow> guid_reachable lib env g0 (w, g0)"
| step: "guid_reachable lib env g0 s \<Longrightarrow> guid_step lib env s s' \<Longrightarrow> guid_reachable lib env g0 s'"

text \<open>The first \<open>n\<close> identifiers that are drawn from a source, and the source afterwards.\<close>

fun guid_draws :: "('g, 'u) uuid_lib \<Rightarrow> 'g \<Rightarrow> nat \<Rightarrow> string list \<times> 'g" where
  "guid_draws lib g 0 = ([], g)"
| "guid_draws lib g (Suc n) =
     (case guid_draws lib g n of (ks, g') \<Rightarrow>
      case nextWsSessionId lib g' of (k, g'') \<Rightarrow> (ks @ [k], g''))"

text \<open>No two of the first \<open>n\<close> identifiers are the same.\<close>

definition fresh_draws :: "('g, 'u) uuid_lib \<Rightarrow> 'g \<Rightarrow> nat \<Rightarrow> bool" where
  "fresh_draws lib g n \<longleftrightarrow> distinct (fst (guid_draws lib g n))"

section \<open>Lemmas\<close>

text \<open>The sessions carry the drawn identifiers in the order of their creation.\<close>

definition ids_ok :: "('g, 'u) uuid_lib \<Rightarrow> 'g \<Rightarrow> world \<times> 'g \<Rightarrow> bool" where
  "ids_ok lib g0 s \<longleftrightarrow> world_ok (fst s)
     \<and> guid_draws lib g0 (length (heap (fst s))) = (map id_of (heap (fst s)), snd s)"

lemma grows_ids:
  assumes "grows w w'" and "length (heap w') = length (heap w)"
  shows "map id_of (heap w') = map id_of (heap w)"
  using assms by (intro nth_equalityI) (auto simp: grows_def out_le_def sess_def)

lemma guid_step_ok:
  assumes "guid_step lib env s s'" and "ids_ok lib g0 s" and "permutes env"
  shows "ids_ok lib g0 s'"
  using assms
proof (induction rule: guid_step.induct)
  case (created w l g k g')
  then have w: "world_ok w" "listener_ok l" by (auto simp: ids_ok_def dest: world_okD(5))
  have "heap (accept_completes Success k w) = heap w @ [(WsSession True k)\<lparr>control_set := True,
      timer_expiry := Some (clock w + WS_PING_FREQUENCY_SEC * 1000000000), ops := {#Op_Accept, Op_Timer#}\<rparr>]"
    using accept_success [OF created(1) w(2) created(3,2)] by (simp add: Let_def)
  with created accept_completes_ok [OF w(1) created(1,2)] show ?case
    by (simp add: ids_ok_def WsSession_def)
next
  case (other w w' g)
  then have "world_ok w" by (simp add: ids_ok_def)
  with other show ?case
    using grows_ids [OF growth.server_step [OF other(1)]] server_step_ok [OF other(1)] by (simp add: ids_ok_def)
qed

lemma guid_reachable_ok: "guid_reachable lib env g0 s \<Longrightarrow> permutes env \<Longrightarrow> ids_ok lib g0 s"
proof (induction rule: guid_reachable.induct)
  case (start ae c now w)
  then have "heap w = []"
    by (auto simp: nm_run_def runThreads_def runIocWsListener_def NetworkManager_def WSServer_def split: if_splits)
  with start show ?case by (simp add: ids_ok_def nm_run_ok)
next
  case (step s s')
  then show ?case by (simp add: guid_step_ok)
qed

section \<open>Properties\<close>

text \<open>
  C19: a session removes no other session from the table. In every reachable state of the server for
  whose sessions no identifier was drawn twice so far, one having been drawn for each session, all
  sessions that were ever created have different identifiers, and when a session is unregistered by one of its handlers exactly the entry of its
  own identifier is gone: every other session that was registered still is.
\<close>

theorem unregistering_is_own:
  assumes "guid_reachable lib env g0 (w, g)" and "permutes env" and "fresh_draws lib g0 (length (heap w))"
    and "a < length (heap w)"
  shows "distinct (map id_of (heap w))
    \<and> getSessById (sessions (on_session_fail a w)) (id_of (sess w a)) = None
    \<and> (\<forall>k b. getSessById (sessions w) k = Some b \<and> b \<noteq> a \<longrightarrow>
         getSessById (sessions (on_session_fail a w)) k = Some b)"
proof -
  have ids: "ids_ok lib g0 (w, g)" by (rule guid_reachable_ok [OF assms(1,2)])
  then have w: "world_ok w" and draws: "fst (guid_draws lib g0 (length (heap w))) = map id_of (heap w)"
    by (simp_all add: ids_ok_def)
  have dist: "distinct (map id_of (heap w))" using assms(3) draws by (simp add: fresh_draws_def)
  have look: "getSessById (sessions (on_session_fail a w)) k =
      (if k = id_of (sess w a) then None else getSessById (sessions w) k)" for k
    using tbl.look_remove [OF world_okD(2) [OF w], of "id_of (sess w a)"]
    by (simp add: on_session_fail_def unregisterSession_eq getId_def)
  have "k \<noteq> id_of (sess w a)" if "getSessById (sessions w) k = Some b" "b \<noteq> a" for k b
  proof -
    have "entry_ok w (k, Some b)"
      using that(1) world_okD(2,3) [OF w] by (simp add: getSessById_in)
    then have "b < length (heap w)" "id_of (sess w b) = k" by (simp_all add: entry_ok_def)
    with dist that(2) assms(4) show ?thesis by (auto simp: distinct_conv_nth sess_def)
  qed
  with dist look show ?thesis by simp
qed

text \<open>A generator that counts, with identifiers of 128 bits.\<close>

definition counting_lib :: "(128 word, 128 word) uuid_lib" where
  "counting_lib = \<lparr>random_generator = (\<lambda>u. (u, u + 1)), uuid_to_string = (\<lambda>u. nat_to_string (unat u))\<rparr>"

lemma counting_next: "nextWsSessionId counting_lib u = (nat_to_string (unat u), u + 1)"
  by (simp add: nextWsSessionId_def genGuid_def genBoostGuid_def counting_lib_def)

lemma counting_fresh: "fresh_draws counting_lib 7 (Suc (Suc 0))"
  by (simp add: fresh_draws_def counting_next nat_to_string_inj)

text \<open>Two sessions are accepted; the first fails and the second stays registered.\<close>

theorem unregistering_is_own_witness:
  "\<exists>w. guid_reachable counting_lib example_env 7 (w, 9) \<and> length (heap w) = 2
     \<and> getSessById (sessions w) (nat_to_string 7) = Some 0
     \<and> getSessById (sessions (on_session_fail 0 w)) (id_of (sess w 0)) = None
     \<and> getSessById (sessions (on_session_fail 0 w)) (nat_to_string 8) = Some 1"
proof -
  obtain ae w l where w: "nm_run ae (ServerConfig []) 0 NetworkManager = Inr \<lparr>wsServer = Some w\<rparr>"
    "iocWsListener w = Some l" "listener_ok l" "acceptor_open l" "accepts l = 1" "heap w = []" "sessions w = []"
    by (rule started_listening)
  let ?w1 = "accept_completes Success (nat_to_string 7) w"
  have w1: "iocWsListener ?w1 = Some l" "length (heap ?w1) = 1" "sessions ?w1 = [(nat_to_string 7, Some 0)]"
    using accept_success [OF w(2-4)] w(2,5-7) by (simp_all add: Let_def)
  let ?w2 = "accept_completes Success (nat_to_string 8) ?w1"
  have w2: "length (heap ?w2) = Suc (Suc 0)"
    "sessions ?w2 = AList.update (nat_to_string 8) (Some 1) [(nat_to_string 7, Some 0)]"
    using accept_success [OF w1(1) w(3,4)] w(5) w1(2,3) by (simp_all add: Let_def)
  have ne: "nat_to_string 7 \<noteq> nat_to_string 8" by (simp add: nat_to_string_inj)
  have reg: "getSessById (sessions ?w2) (nat_to_string 8) = Some 1" "getSessById (sessions ?w2) (nat_to_string 7) = Some 0"
    using ne by (simp_all add: w2(2) getSessById_def)
  have "guid_step counting_lib example_env (w, 7) (?w1, 8)"
    using w counting_next [of 7] by (intro guid_step.created) auto
  with guid_reachable.start [OF w(1)] have "guid_reachable counting_lib example_env 7 (?w1, 8)"
    by (rule guid_reachable.step)
  moreover have "guid_step counting_lib example_env (?w1, 8) (?w2, 9)"
    using w w1(1) counting_next [of 8] by (intro guid_step.created) auto
  ultimately have r: "guid_reachable counting_lib example_env 7 (?w2, 9)" by (rule guid_reachable.step)
  with unregistering_is_own [OF r permutes_example _, of 0] counting_fresh w2(1) reg show ?thesis
    by (intro exI [of _ ?w2]) auto
qed

end
