(* ===== verification/Interleaved_Tick.thy ===== *)
theory Interleaved_Tick
  imports System_Properties
begin

text \<open>
  The tick of the main thread and the handlers of the I/O thread at the grain of their critical
  sections. In \<open>Server_System\<close> a tick is one step; here it is a sequence of steps with a program
  counter, and the I/O thread can do something between any two of them: \<open>doToAllSessions\<close> copies the
  table of sessions and visits the copy (\<open>net/SessionManagerBase.hpp\<close>), \<open>DispatchQueued\<close> takes one
  callback at a time under the lock of the queue and runs it without the lock
  (\<open>algo/DispatchQueue.cpp\<close>), and messages arrive meanwhile.

  The copy holds \<open>shared_ptr\<close>s, so a session in it is not destroyed before the tick ends, even when
  it is unregistered. A callback is one step: its call of \<open>send\<close> is not interleaved with \<open>on_write\<close>
  of the same session (\<open>Send_Race\<close> is about that).
\<close>

section \<open>The tick in steps\<close>

text \<open>
  Where the main thread is: outside the tick, before the next session of the copy, before the lock
  of the queue of a session, or in a callback of a session. The list has the sessions still to be
  visited.
\<close>

datatype tick_pc =
  Tick_Idle
| Tick_Visit "nat registry"
| Tick_Lock nat "nat registry"
| Tick_Call bound_callback nat "nat registry"

text \<open>The state; \<open>calls\<close> records the callbacks that were started, with their sessions.\<close>

record tick_sys =
  net :: world
  pc :: tick_pc
  snapshot :: "nat registry"
  calls :: "(nat \<times> bound_callback) list"

inductive tick_step :: "'d env \<Rightarrow> tick_sys \<Rightarrow> tick_sys \<Rightarrow> bool" for env where
  begin_tick: "pc s = Tick_Idle \<Longrightarrow>
    tick_step env s (s\<lparr>pc := Tick_Visit (iter_order env (getSessions (sessions (net s)))),
      snapshot := getSessions (sessions (net s))\<rparr>)"
| skip: "pc s = Tick_Visit ((k, None) # kvs) \<Longrightarrow> tick_step env s (s\<lparr>pc := Tick_Visit kvs\<rparr>)"
| no_queue: "pc s = Tick_Visit ((k, Some a) # kvs) \<Longrightarrow> getReceivedMessages (sess (net s) a) = None \<Longrightarrow>
    tick_step env s (s\<lparr>pc := Tick_Visit kvs\<rparr>)"
| enter: "pc s = Tick_Visit ((k, Some a) # kvs) \<Longrightarrow> getReceivedMessages (sess (net s) a) = Some q \<Longrightarrow>
    tick_step env s (s\<lparr>pc := Tick_Lock a kvs\<rparr>)"
| take: "pc s = Tick_Lock a kvs \<Longrightarrow> \<not> quit (queue_at a (net s)) \<Longrightarrow>
    callbacksQueue (queue_at a (net s)) = cb # cbs \<Longrightarrow>
    tick_step env s (s\<lparr>net := upd_queue_at a pop_callback (net s), pc := Tick_Call cb a kvs,
      calls := calls s @ [(a, cb)]\<rparr>)"
| leave: "pc s = Tick_Lock a kvs \<Longrightarrow> quit (queue_at a (net s)) \<or> callbacksQueue (queue_at a (net s)) = [] \<Longrightarrow>
    tick_step env s (s\<lparr>pc := Tick_Visit kvs\<rparr>)"
| call: "pc s = Tick_Call cb a kvs \<Longrightarrow> exec_callback env cb (net s) = Inr w' \<Longrightarrow>
    tick_step env s (s\<lparr>net := w', pc := Tick_Lock a kvs\<rparr>)"
| end_tick: "pc s = Tick_Visit [] \<Longrightarrow> tick_step env s (s\<lparr>pc := Tick_Idle, snapshot := []\<rparr>)"

text \<open>A session is destroyed when neither the table nor the copy of the tick nor a handler refers to it.\<close>

inductive inter_step :: "'d env \<Rightarrow> tick_sys \<Rightarrow> tick_sys \<Rightarrow> bool" for env where
  main: "tick_step env s s' \<Longrightarrow> inter_step env s s'"
| io: "io_step (net s) w' \<Longrightarrow> inter_step env s (s\<lparr>net := w'\<rparr>)"
| destroy: "a < length (heap (net s)) \<Longrightarrow> ops (sess (net s) a) = {#} \<Longrightarrow>
    Some a \<notin> snd ` set (sessions (net s)) \<Longrightarrow> Some a \<notin> snd ` set (snapshot s) \<Longrightarrow>
    inter_step env s (s\<lparr>net := upd_sess a destroy_session (net s)\<rparr>)"

inductive inter_reachable :: "'d env \<Rightarrow> tick_sys \<Rightarrow> bool" for env where
  start: "nm_run ae c now NetworkManager = Inr \<lparr>wsServer = Some w\<rparr> \<Longrightarrow>
    inter_reachable env \<lparr>net = w, pc = Tick_Idle, snapshot = [], calls = []\<rparr>"
| step: "inter_reachable env s \<Longrightarrow> inter_step env s s' \<Longrightarrow> inter_reachable env s'"

section \<open>The sessions of the copy stay alive\<close>

definition keeps :: "world \<Rightarrow> world \<Rightarrow> bool" where
  "keeps w w' \<longleftrightarrow> length (heap w) \<le> length (heap w')
     \<and> (\<forall>b < length (heap w). rx_le (sess w b) (sess w' b))"

lemma keeps_same:
  assumes "length (heap w) \<le> length (heap w')"
    and "\<And>b. b < length (heap w) \<Longrightarrow> receivedMessagesQueue (sess w' b) = receivedMessagesQueue (sess w b)"
  shows "keeps w w'"
  using assms by (simp add: keeps_def rx_le_same)

lemma keeps_accept: "keeps w (accept_completes ec k w)"
  by (rule keeps_same)
    (auto simp: accept_completes_def listener_on_accept_def runAsServer_def on_timer_def on_session_fail_def
      Let_def sess_upd_sess sess_new_session split: option.split)

interpretation reception: io_relation keeps
proof unfold_locales
  show "keeps w w''" if "keeps w w'" "keeps w' w''" for w w' w''
    using that by (auto simp: keeps_def intro: rx_le_trans)
  show "keeps w (on_write a ec w)" for w a ec
    by (rule keeps_same) (auto simp: on_write_def on_session_fail_def sess_upd_sess written_def write_next_def
        async_write_def)
  show "keeps w (accept_completes ec k w)" for w ec k by (rule keeps_accept)
  show "keeps w (stop_runs w)" for w by (rule keeps_same) (simp_all add: stop_runs_def)
  show "keeps w w" for w by (rule keeps_same) simp_all
qed (simp add: keeps_def quiet_def)

lemma keeps_queue:
  assumes "keeps w w'" and "a < length (heap w)"
  shows "has_queue a w' = has_queue a w"
    "has_queue a w \<Longrightarrow> prefix (callbacksQueue (queue_at a w)) (callbacksQueue (queue_at a w'))"
    "has_queue a w \<Longrightarrow> quit (queue_at a w') = quit (queue_at a w)"
proof -
  have "length (heap w) \<le> length (heap w')" and rx: "rx_le (sess w a) (sess w' a)"
    using assms by (simp_all add: keeps_def)
  then have len: "a < length (heap w')" using assms(2) by simp
  show "has_queue a w' = has_queue a w"
    using rx len assms(2) by (simp add: rx_le_def has_queue_def split: option.splits)
  show "prefix (callbacksQueue (queue_at a w)) (callbacksQueue (queue_at a w'))" if "has_queue a w"
    using rx that by (simp add: rx_le_def has_queue_def queue_at_def split: option.splits)
  show "quit (queue_at a w') = quit (queue_at a w)" if "has_queue a w"
    using rx that by (simp add: rx_le_def has_queue_def queue_at_def split: option.splits)
qed

lemma keeps_ready:
  assumes "keeps w w'" and "queue_ready w a"
  shows "queue_ready w' a"
proof -
  have "has_queue a w" "\<not> quit (queue_at a w)" using assms(2) by (simp_all add: queue_ready_def)
  moreover from this have "a < length (heap w)" by (simp add: has_queue_def)
  ultimately show ?thesis using keeps_queue [OF assms(1)] by (simp add: queue_ready_def)
qed

definition held :: "tick_sys \<Rightarrow> nat \<Rightarrow> bool" where
  "held s a \<longleftrightarrow> Some a \<in> snd ` set (snapshot s)"

fun to_visit :: "tick_pc \<Rightarrow> nat registry" where
  "to_visit Tick_Idle = []"
| "to_visit (Tick_Visit kvs) = kvs"
| "to_visit (Tick_Lock a kvs) = kvs"
| "to_visit (Tick_Call cb a kvs) = kvs"

definition pc_ok :: "tick_sys \<Rightarrow> bool" where
  "pc_ok s \<longleftrightarrow> set (to_visit (pc s)) \<subseteq> set (snapshot s)
     \<and> (case pc s of Tick_Lock a _ \<Rightarrow> held s a | Tick_Call cb a _ \<Rightarrow> held s a \<and> bound_ok a cb | _ \<Rightarrow> True)"

definition inter_ok :: "tick_sys \<Rightarrow> bool" where
  "inter_ok s \<longleftrightarrow> world_ok (net s) \<and> pc_ok s \<and> (\<forall>a. held s a \<longrightarrow> queue_ready (net s) a)"

lemma queue_ready_upd:
  "b \<noteq> a \<Longrightarrow> queue_ready (upd_sess a f w) b = queue_ready w b"
  "queue_ready (upd_queue_at a pop_callback w) b = queue_ready w b"
  by (auto simp: queue_ready_def has_queue_def queue_at_def upd_queue_at_def sess_upd_sess pop_callback_def)

lemma queue_ready_callback:
  assumes "exec_callback env cb w = Inr w'"
  shows "queue_ready w' b = queue_ready w b" "queue_at b w' = queue_at b w" "has_queue b w' = has_queue b w"
    "length (heap w') = length (heap w)"
  using assms by (auto simp: queue_ready_def elim!: exec_callback_cases)

lemma head_bound_ok:
  assumes "world_ok w" and "queue_ready w a" and "callbacksQueue (queue_at a w) = cb # cbs"
  shows "bound_ok a cb"
proof -
  from assms(2) obtain q where "a < length (heap w)" "receivedMessagesQueue (sess w a) = Some q"
    by (auto simp: queue_ready_def has_queue_def)
  with world_okD(4) [OF assms(1), of a] assms(3) show ?thesis
    by (auto simp: session_ok_def queue_ok_def queue_at_def)
qed

lemma held_ready_table: "world_ok w \<Longrightarrow> Some a \<in> snd ` set (sessions w) \<Longrightarrow> queue_ready w a"
  using world_ok_queues_ready [of w] by (auto simp: queues_ready_def)

lemma tick_step_ok:
  assumes "tick_step env s s'" and "inter_ok s" and "permutes env"
  shows "inter_ok s'"
  using assms
proof (induction rule: tick_step.induct)
  case (begin_tick s)
  then show ?case
    by (auto simp: inter_ok_def pc_ok_def held_def getSessions_def permutes_set intro: held_ready_table)
next
  case (take s a kvs cb cbs)
  have "bound_ok a cb" using take(1,3,4) head_bound_ok [of "net s" a] by (simp add: inter_ok_def pc_ok_def)
  with take show ?case by (auto simp: inter_ok_def pc_ok_def held_def queue_ready_upd pop_ok)
next
  case (call s cb a kvs w')
  then show ?case
    by (auto simp: inter_ok_def pc_ok_def held_def queue_ready_callback(1) [OF call(2)] intro: exec_callback_ok)
next
  case (enter s k a kvs q)
  then have "(k, Some a) \<in> set (snapshot s)" by (simp add: inter_ok_def pc_ok_def)
  then have "held s a" by (force simp: held_def)
  with enter show ?case by (simp add: inter_ok_def pc_ok_def held_def)
qed (auto simp: inter_ok_def pc_ok_def held_def)

lemma inter_step_ok:
  assumes "inter_step env s s'" and "inter_ok s" and "permutes env"
  shows "inter_ok s'"
  using assms
proof (induction rule: inter_step.induct)
  case (main s s')
  then show ?case by (rule tick_step_ok)
next
  case (io s w')
  then have "world_ok w'" "keeps (net s) w'"
    by (auto simp: inter_ok_def intro: io_step_ok reception.io_step)
  with io show ?case by (auto simp: inter_ok_def pc_ok_def held_def keeps_ready split: tick_pc.splits)
next
  case (destroy a s)
  then have "queue_ready (upd_sess a destroy_session (net s)) b" if "held s b" for b
    using that queue_ready_upd(1) [of b a] by (metis inter_ok_def held_def)
  with destroy show ?case by (auto simp: inter_ok_def pc_ok_def held_def destroy_ok split: tick_pc.splits)
qed

lemma inter_reachable_ok: "inter_reachable env s \<Longrightarrow> permutes env \<Longrightarrow> inter_ok s"
proof (induction rule: inter_reachable.induct)
  case (start ae c now w)
  then show ?case by (simp add: inter_ok_def pc_ok_def held_def nm_run_ok)
next
  case (step s s')
  then show ?case by (simp add: inter_step_ok)
qed

text \<open>The main thread can always go on, unless the callback that it runs fails in the analysis of a table.\<close>

lemma tick_progress:
  assumes ok: "inter_ok s"
  shows "(\<exists>s'. tick_step env s s') \<or> (\<exists>cb a kvs e. pc s = Tick_Call cb a kvs
    \<and> exec_callback env cb (net s) = Inl e \<and> e \<in> tick_errors)"
proof (cases "pc s")
  case (Tick_Visit kvs)
  have "\<exists>s'. tick_step env s s'" if "kvs = (k, Some a) # kvs'" for k a kvs'
    using that Tick_Visit
    by (cases "getReceivedMessages (sess (net s) a)") (blast intro: tick_step.no_queue tick_step.enter)+
  then show ?thesis
    using Tick_Visit tick_step.skip [of s _ _ env] tick_step.end_tick [of s env]
    by (metis option.exhaust prod.exhaust list.exhaust)
next
  case (Tick_Lock a kvs)
  then show ?thesis
    by (cases "callbacksQueue (queue_at a (net s))") (blast intro: tick_step.take tick_step.leave)+
next
  case (Tick_Call cb a kvs)
  then have "bound_ok a cb" using ok by (simp add: inter_ok_def pc_ok_def)
  with Tick_Call show ?thesis
    by (cases "exec_callback env cb (net s)") (blast intro: tick_step.call exec_callback_error)+
qed (blast intro: tick_step.begin_tick)

section \<open>The queues under interleaving\<close>

text \<open>
  The callbacks of a session that were started, and the history of its queue: those started, then
  those waiting.
\<close>

definition calls_of :: "nat \<Rightarrow> tick_sys \<Rightarrow> bound_callback list" where
  "calls_of a s = map snd (filter (\<lambda>c. fst c = a) (calls s))"

definition hist :: "nat \<Rightarrow> tick_sys \<Rightarrow> bound_callback list" where
  "hist a s = calls_of a s @ callbacksQueue (queue_at a (net s))"

text \<open>A session that has its queue in the later state had it before, and the history was only extended.\<close>

definition fifo :: "tick_sys \<Rightarrow> tick_sys \<Rightarrow> bool" where
  "fifo s s' \<longleftrightarrow> length (heap (net s)) \<le> length (heap (net s'))
     \<and> (\<forall>a < length (heap (net s)). has_queue a (net s') \<longrightarrow> has_queue a (net s)
          \<and> prefix (hist a s) (hist a s') \<and> prefix (calls_of a s) (calls_of a s'))"

lemma fifo_refl [simp]: "fifo s s"
  by (simp add: fifo_def)

lemma fifo_trans: "fifo s s' \<Longrightarrow> fifo s' s'' \<Longrightarrow> fifo s s''"
  unfolding fifo_def by (meson prefix_order.trans less_le_trans order.trans)

lemma fifo_same_net: "net s' = net s \<Longrightarrow> calls s' = calls s \<Longrightarrow> fifo s s'"
  by (simp add: fifo_def hist_def calls_of_def)

text \<open>The steps of the tick move callbacks from the queues to the calls and change no history.\<close>

lemma tick_step_hist:
  assumes "tick_step env s s'" and "inter_ok s"
  shows "hist b s' = hist b s" "has_queue b (net s') = has_queue b (net s)"
    "length (heap (net s')) = length (heap (net s))" "prefix (calls_of b s) (calls_of b s')"
    "sessions (net s') = sessions (net s)"
proof -
  have "hist b s' = hist b s \<and> has_queue b (net s') = has_queue b (net s)
      \<and> length (heap (net s')) = length (heap (net s)) \<and> prefix (calls_of b s) (calls_of b s')
      \<and> sessions (net s') = sessions (net s)"
    using assms
  proof (induction rule: tick_step.induct)
    case (take s a kvs cb cbs)
    have q: "has_queue a (net s)" using take(1,4) by (simp add: inter_ok_def pc_ok_def queue_ready_def)
    have "length (heap (upd_queue_at a pop_callback (net s))) = length (heap (net s))"
      "sessions (upd_queue_at a pop_callback (net s)) = sessions (net s)"
      by (simp_all add: upd_queue_at_def)
    with take(3) show ?case
      by (simp add: hist_def calls_of_def queue_at_upd(1) [OF q] queue_at_upd(2) pop_callback_def)
  next
    case (call s cb a kvs w')
    then have "sessions w' = sessions (net s)" by (auto elim: exec_callback_cases)
    then show ?case by (simp add: hist_def calls_of_def queue_ready_callback [OF call(2)])
  qed (simp_all add: hist_def calls_of_def)
  then show "hist b s' = hist b s" "has_queue b (net s') = has_queue b (net s)"
    "length (heap (net s')) = length (heap (net s))" "prefix (calls_of b s) (calls_of b s')"
    "sessions (net s') = sessions (net s)" by simp_all
qed

lemma tick_step_fifo:
  assumes "tick_step env s s'" and "inter_ok s"
  shows "fifo s s'"
  using tick_step_hist [OF assms] by (simp add: fifo_def)

lemma inter_step_fifo:
  assumes "inter_step env s s'" and "inter_ok s"
  shows "fifo s s'"
  using assms
proof (induction rule: inter_step.induct)
  case (main s s')
  then show ?case by (rule tick_step_fifo)
next
  case (io s w')
  then have k: "keeps (net s) w'" by (auto simp: inter_ok_def intro: reception.io_step)
  have "prefix (hist a s) (hist a (s\<lparr>net := w'\<rparr>))" if "a < length (heap (net s))" "has_queue a (net s)" for a
    using keeps_queue(2) [OF k that] by (simp add: hist_def calls_of_def)
  with k show ?case using keeps_queue(1) [OF k] by (auto simp: fifo_def keeps_def calls_of_def)
next
  case (destroy a s)
  have "has_queue b (net s) \<and> queue_at b (upd_sess a destroy_session (net s)) = queue_at b (net s)"
    if "has_queue b (upd_sess a destroy_session (net s))" for b
    using that by (auto simp: has_queue_def queue_at_def destroy_session_def sess_upd_sess split: if_splits option.splits)
  then show ?case by (auto simp: fifo_def hist_def calls_of_def)
qed

lemma inter_run_fifo:
  assumes "(inter_step env)\<^sup>*\<^sup>* s s'" and "inter_ok s" and "permutes env"
  shows "fifo s s' \<and> inter_ok s'"
  using assms
proof (induction rule: rtranclp_induct)
  case (step u v)
  then show ?case using inter_step_fifo [of env u v] inter_step_ok [of env u v] fifo_trans by blast
qed simp

text \<open>What was started stays on record, whether or not the session lives on.\<close>

lemma calls_grow: "(inter_step env)\<^sup>*\<^sup>* s s' \<Longrightarrow> prefix (calls_of a s) (calls_of a s')"
proof (induction rule: rtranclp_induct)
  case (step u v)
  from step(2) have "prefix (calls_of a u) (calls_of a v)"
    by (cases rule: inter_step.cases) (auto elim!: tick_step.cases simp: calls_of_def)
  with step(3) show ?case by (rule prefix_order.trans)
qed simp

section \<open>One tick\<close>

text \<open>Steps that do not leave the tick.\<close>

definition busy_step :: "'d env \<Rightarrow> tick_sys \<Rightarrow> tick_sys \<Rightarrow> bool" where
  "busy_step env s s' \<longleftrightarrow> inter_step env s s' \<and> pc s \<noteq> Tick_Idle \<and> pc s' \<noteq> Tick_Idle"

fun current :: "tick_pc \<Rightarrow> nat set" where
  "current (Tick_Lock a _) = {a}"
| "current (Tick_Call _ a _) = {a}"
| "current _ = {}"

text \<open>
  Within a tick that began in \<open>s0\<close>: the copy is the table of \<open>s0\<close>, and a session that was visited has
  started everything that was waiting when the tick began.
\<close>

definition served :: "tick_sys \<Rightarrow> tick_sys \<Rightarrow> bool" where
  "served s0 s \<longleftrightarrow> snapshot s = sessions (net s0) \<and> fifo s0 s
     \<and> (\<forall>a. held s a \<longrightarrow> a < length (heap (net s0)) \<and> (Some a \<in> snd ` set (to_visit (pc s))
           \<or> a \<in> current (pc s) \<or> prefix (hist a s0) (calls_of a s)))"

lemma fifo_calls:
  assumes "fifo s s'" and "a < length (heap (net s))" and "has_queue a (net s')"
    and "prefix (hist a s0) (calls_of a s)"
  shows "prefix (hist a s0) (calls_of a s')"
  using assms unfolding fifo_def by (meson prefix_order.trans)

lemma served_step:
  assumes "served s0 s" and "busy_step env s s'" and "inter_ok s" and "permutes env"
  shows "served s0 s'"
proof -
  have step: "inter_step env s s'" "pc s \<noteq> Tick_Idle" "pc s' \<noteq> Tick_Idle"
    using assms(2) by (simp_all add: busy_step_def)
  have f: "fifo s s'" and ok: "inter_ok s'"
    using inter_step_fifo [OF step(1) assms(3)] inter_step_ok [OF step(1) assms(3,4)] by simp_all
  have snap: "snapshot s' = snapshot s"
    using step by (auto elim!: inter_step.cases tick_step.cases)
  have carry: "prefix (hist a s0) (calls_of a s')" if "held s a" "prefix (hist a s0) (calls_of a s)" for a
    using fifo_calls [OF f _ _ that(2)] that(1) assms(3) ok snap
    by (auto simp: inter_ok_def queue_ready_def has_queue_def held_def)
  have "Some a \<in> snd ` set (to_visit (pc s')) \<or> a \<in> current (pc s') \<or> prefix (hist a s0) (calls_of a s')"
    if h: "held s a" and before: "Some a \<in> snd ` set (to_visit (pc s)) \<or> a \<in> current (pc s)" for a
    using step(1)
  proof cases
    case main
    then show ?thesis
    proof cases
      case (no_queue k b kvs)
      have "has_queue a (net s)" using h assms(3) by (simp add: inter_ok_def queue_ready_def)
      with no_queue before show ?thesis by (auto simp: getReceivedMessages_def has_queue_def)
    next
      case (leave b kvs)
      show ?thesis
      proof (cases "a = b")
        case True
        have r: "queue_ready (net s) a" using h assms(3) by (simp add: inter_ok_def)
        then have "hist a s = calls_of a s" using leave True by (simp add: hist_def queue_ready_def)
        moreover have "prefix (hist a s0) (hist a s)"
          using assms(1) r h by (simp add: served_def fifo_def queue_ready_def)
        ultimately show ?thesis using carry [OF h] by simp
      qed (use leave before in auto)
    qed (use step before in auto)
  qed (use before in auto)
  with carry assms(1) fifo_trans [OF _ f] show ?thesis
    unfolding served_def snap held_def by meson
qed

lemma served_run:
  assumes "(busy_step env)\<^sup>*\<^sup>* s s'" and "served s0 s" and "inter_ok s" and "permutes env"
  shows "served s0 s' \<and> inter_ok s'"
  using assms
proof (induction rule: rtranclp_induct)
  case (step u v)
  then have "inter_ok v" by (auto simp: busy_step_def intro: inter_step_ok)
  with step served_step show ?case by blast
qed simp

lemma served_begin:
  assumes "pc s = Tick_Idle" and "inter_ok s" and "permutes env" and "tick_step env s s'"
  shows "served s s'"
  using assms(4)
proof cases
  case begin_tick
  have "a < length (heap (net s))" if "Some a \<in> snd ` set (sessions (net s))" for a
    using held_ready_table [OF _ that] assms(2) by (simp add: inter_ok_def queue_ready_def has_queue_def)
  with begin_tick assms(3) show ?thesis
    by (auto simp: served_def held_def getSessions_def permutes_set fifo_same_net)
qed (use assms(1) in simp_all)

section \<open>The tick as one step\<close>

lemma tick_deterministic: "tick_step env s s1 \<Longrightarrow> tick_step env s s2 \<Longrightarrow> s1 = s2"
  by (erule tick_step.cases; erule tick_step.cases) auto

text \<open>A step of the main thread within a tick; the tick is over when the thread is idle again.\<close>

definition tick_busy :: "'d env \<Rightarrow> tick_sys \<Rightarrow> tick_sys \<Rightarrow> bool" where
  "tick_busy env s s' \<longleftrightarrow> tick_step env s s' \<and> pc s \<noteq> Tick_Idle"

lemma tick_busyI: "tick_step env s s' \<Longrightarrow> pc s \<noteq> Tick_Idle \<Longrightarrow> tick_busy env s s'"
  by (simp add: tick_busy_def)

lemma tick_busy_idle: "(tick_busy env)\<^sup>*\<^sup>* s s' \<Longrightarrow> pc s = Tick_Idle \<Longrightarrow> s' = s"
  by (auto simp: tick_busy_def elim: converse_rtranclpE)

text \<open>Of two runs of the tick from the same state one continues the other.\<close>

lemma tick_busy_linear:
  assumes "(tick_busy env)\<^sup>*\<^sup>* s t" and "(tick_busy env)\<^sup>*\<^sup>* s u"
  shows "(tick_busy env)\<^sup>*\<^sup>* t u \<or> (tick_busy env)\<^sup>*\<^sup>* u t"
  using assms
proof (induction rule: rtranclp_induct)
  case (step t t')
  show ?case
  proof (cases "(tick_busy env)\<^sup>*\<^sup>* t u")
    case True
    then consider "u = t" | t1 where "tick_busy env t t1" "(tick_busy env)\<^sup>*\<^sup>* t1 u"
      by (auto elim: converse_rtranclpE)
    then show ?thesis
    proof cases
      case 2
      then have "t1 = t'" using step(2) by (auto simp: tick_busy_def intro: tick_deterministic)
      with 2 show ?thesis by simp
    qed (use step(2) in auto)
  qed (use step in \<open>auto intro: rtranclp.rtrancl_into_rtrancl\<close>)
qed simp

lemma queue_after_call:
  assumes "queue_ready w a" and "callbacksQueue (queue_at a w) = cb # cbs"
    and "exec_callback env cb (upd_queue_at a pop_callback w) = Inr w'"
  shows "queue_ready w' b = queue_ready w b" "callbacksQueue (queue_at a w') = cbs"
proof -
  have q: "has_queue a w" using assms(1) by (simp add: queue_ready_def)
  note c = queue_ready_callback [OF assms(3)]
  show "queue_ready w' b = queue_ready w b" by (simp add: c queue_ready_upd)
  show "callbacksQueue (queue_at a w') = cbs"
    using assms(2) by (simp add: c queue_at_upd(1) [OF q] pop_callback_def)
qed

lemma lock_runs:
  assumes "callbacksQueue (queue_at a (net s)) = cbs" and "queue_ready (net s) a" and "pc s = Tick_Lock a kvs"
    and "foldM (\<lambda>cb w. exec_callback env cb (upd_queue_at a pop_callback w)) cbs (net s) = Inr w'"
  shows "\<exists>cs. (tick_busy env)\<^sup>*\<^sup>* s (s\<lparr>net := w', pc := Tick_Visit kvs, calls := cs\<rparr>)
    \<and> (\<forall>b. queue_ready w' b = queue_ready (net s) b)"
  using assms
proof (induction cbs arbitrary: s)
  case Nil
  then have "tick_busy env s (s\<lparr>pc := Tick_Visit kvs\<rparr>)" by (intro tick_busyI tick_step.leave) auto
  moreover have "s\<lparr>net := w', pc := Tick_Visit kvs, calls := calls s\<rparr> = s\<lparr>pc := Tick_Visit kvs\<rparr>"
    using Nil(4) by simp
  ultimately show ?case using Nil(4) by (intro exI [of _ "calls s"]) auto
next
  case (Cons cb cbs)
  from Cons.prems(4) obtain v where v: "exec_callback env cb (upd_queue_at a pop_callback (net s)) = Inr v"
    "foldM (\<lambda>cb w. exec_callback env cb (upd_queue_at a pop_callback w)) cbs v = Inr w'"
    by (auto simp: rbind_Inr_conv)
  let ?s1 = "s\<lparr>net := upd_queue_at a pop_callback (net s), pc := Tick_Call cb a kvs, calls := calls s @ [(a, cb)]\<rparr>"
  let ?s2 = "?s1\<lparr>net := v, pc := Tick_Lock a kvs\<rparr>"
  have "tick_busy env s ?s1"
    using Cons.prems(1-3) by (intro tick_busyI tick_step.take) (simp_all add: queue_ready_def)
  moreover have "tick_busy env ?s1 ?s2" using tick_step.call [of ?s1 cb a kvs env v] v(1) by (simp add: tick_busy_def)
  ultimately have steps: "(tick_busy env)\<^sup>*\<^sup>* s ?s2" by (blast intro: converse_rtranclp_into_rtranclp)
  note q = queue_after_call [OF Cons.prems(2,1) v(1)]
  obtain cs where "(tick_busy env)\<^sup>*\<^sup>* ?s2 (?s2\<lparr>net := w', pc := Tick_Visit kvs, calls := cs\<rparr>)"
    "\<forall>b. queue_ready w' b = queue_ready v b"
    using Cons.IH [of ?s2] q Cons.prems(2) v(2) by auto
  with rtranclp_trans [OF steps] q(1) show ?case by (intro exI [of _ cs]) simp
qed

lemma visit_runs:
  assumes "pc s = Tick_Visit kvs" and "\<And>k a. (k, Some a) \<in> set kvs \<Longrightarrow> queue_ready (net s) a"
    and "foldM (visit_session (\<lambda>_. run_queued env)) kvs (net s) = Inr w'"
  shows "\<exists>cs. (tick_busy env)\<^sup>*\<^sup>* s (s\<lparr>net := w', pc := Tick_Visit [], calls := cs\<rparr>)"
  using assms
proof (induction kvs arbitrary: s)
  case Nil
  then have "s\<lparr>net := w', pc := Tick_Visit [], calls := calls s\<rparr> = s" by simp
  then show ?case by (metis rtranclp.rtrancl_refl)
next
  case (Cons kv kvs)
  obtain k p where kv: "kv = (k, p)" by (cases kv)
  show ?case
  proof (cases p)
    case None
    then have "tick_busy env s (s\<lparr>pc := Tick_Visit kvs\<rparr>)"
      using Cons.prems(1) kv by (auto intro: tick_busyI tick_step.skip)
    moreover obtain cs where "(tick_busy env)\<^sup>*\<^sup>* (s\<lparr>pc := Tick_Visit kvs\<rparr>) (s\<lparr>net := w', pc := Tick_Visit [], calls := cs\<rparr>)"
      using Cons.IH [of "s\<lparr>pc := Tick_Visit kvs\<rparr>"] Cons.prems kv None by auto
    ultimately show ?thesis by (blast intro: converse_rtranclp_into_rtranclp)
  next
    case (Some a)
    have r: "queue_ready (net s) a" using Cons.prems(2) [of k a] kv Some by simp
    from Cons.prems(3) kv Some obtain v where v: "run_queued env a (net s) = Inr v"
      "foldM (visit_session (\<lambda>_. run_queued env)) kvs v = Inr w'" by (auto simp: rbind_Inr_conv)
    obtain q where "getReceivedMessages (sess (net s) a) = Some q"
      using r by (auto simp: queue_ready_def has_queue_def getReceivedMessages_def)
    then have enter: "tick_busy env s (s\<lparr>pc := Tick_Lock a kvs\<rparr>)"
      using Cons.prems(1) kv Some by (auto intro: tick_busyI tick_step.enter)
    let ?s1 = "s\<lparr>pc := Tick_Lock a kvs\<rparr>"
    obtain cs where cs: "(tick_busy env)\<^sup>*\<^sup>* ?s1 (s\<lparr>net := v, pc := Tick_Visit kvs, calls := cs\<rparr>)"
      "\<forall>b. queue_ready v b = queue_ready (net s) b"
      using lock_runs [of a ?s1 _ kvs env v, OF refl] r v(1) by (auto simp: run_queued_def)
    obtain cs' where "(tick_busy env)\<^sup>*\<^sup>* (s\<lparr>net := v, pc := Tick_Visit kvs, calls := cs\<rparr>)
        (s\<lparr>net := w', pc := Tick_Visit [], calls := cs'\<rparr>)"
      using Cons.IH [of "s\<lparr>net := v, pc := Tick_Visit kvs, calls := cs\<rparr>"] Cons.prems(2) cs(2) v(2) by auto
    with enter cs(1) show ?thesis by (meson converse_rtranclp_into_rtranclp rtranclp_trans)
  qed
qed

section \<open>A session that never stops sending\<close>

text \<open>
  The tick is at the lock of the queue of session \<open>a\<close>, the queue is empty, and the session is open
  and reading.
\<close>

definition chatting :: "nat \<Rightarrow> nat registry \<Rightarrow> tick_sys \<Rightarrow> bool" where
  "chatting a kvs s \<longleftrightarrow> inter_ok s \<and> pc s = Tick_Lock a kvs \<and> in_flight (net s) a Op_Read
     \<and> ws_open (sess (net s) a) \<and> recievedBuffer (sess (net s) a) = []
     \<and> callbacksQueue (queue_at a (net s)) = []"

definition ping_message :: string where
  "ping_message = ''0!''"

definition ping_call :: "nat \<Rightarrow> bound_callback" where
  "ping_call a = Bind PingCallback (Some a) (Some ping_message)"

text \<open>Between two critical sections of the tick the I/O thread reads one more ping from the session.\<close>

lemma ping_arrives:
  assumes "has_queue a w" and "operationCallbacks w = server_callbacks" and "in_flight w a Op_Read"
    and "ws_open (sess w a)" and "recievedBuffer (sess w a) = []"
  obtains w' where "io_step w w'" "callbacksQueue (queue_at a w') = callbacksQueue (queue_at a w) @ [ping_call a]"
    "\<And>b. b \<noteq> a \<Longrightarrow> queue_at b w' = queue_at b w" "Op_Read \<in># ops (sess w' a)" "ws_open (sess w' a)"
    "recievedBuffer (sess w' a) = []" "sendQueue (sess w' a) = sendQueue (sess w a)" "sessions w' = sessions w"
    "length (heap w') = length (heap w)"
proof -
  let ?v = "receive a ping_message (completed a Op_Read True w)"
  have a: "a < length (heap w)" using assms(3) by (simp add: in_flight_def)
  have v: "sess ?v b = (if b = a then (sess w a)\<lparr>ops := ops (sess w a) - {#Op_Read#}, ws_open := True,
      recievedBuffer := ping_message\<rparr> else sess w b)" for b
    using a assms(3,5) by (auto simp: receive_def sess_upd_sess sess_completed completed_def)
  have hv: "has_queue a ?v" "operationCallbacks ?v = server_callbacks" "a < length (heap ?v)" "sessions ?v = sessions w"
    "length (heap ?v) = length (heap w)"
    using assms(1,2) a by (simp_all add: has_queue_def v receive_def completed_def)
  have m: "recievedBuffer (sess ?v a) = ping_message" by (simp add: v)
  have ping: "ping_message \<noteq> []" "route ping_message = Some PingCallback" "length ping_message \<le> maxReceiveMsgSizebyte"
    by (simp_all add: ping_message_def route_def maxReceiveMsgSizebyte_def)
  note rd = on_read_message [OF hv(2,1) m ping(1,3), unfolded ping(2)]
  have "io_step w (on_read a Success ?v)"
    using assms(3,4,5) by (intro io_step.read) (simp_all add: ping_message_def read_message_max_def)
  then show thesis
    by (rule that)
      (use hv(1,3-5) assms(1) in \<open>auto simp: rd queue_at_def has_queue_def sess_upd_sess v dispatch_def ping_call_def\<close>)
qed

lemma send_keeps_reading:
  assumes "a < length (heap w)" and "m \<noteq> []" and "length m \<le> maxSendMsgSizebyte"
  shows "length (sendQueue (sess (send a m w) a)) = Suc (length (sendQueue (sess w a)))"
    "Op_Read \<in># ops (sess (send a m w) a) \<longleftrightarrow> Op_Read \<in># ops (sess w a)"
    "ws_open (sess (send a m w) a) = ws_open (sess w a)"
    "recievedBuffer (sess (send a m w) a) = recievedBuffer (sess w a)"
  using assms by (simp_all add: send_def send_message_def async_write_def Let_def)

lemma busy_inter: "(busy_step env)\<^sup>*\<^sup>* s s' \<Longrightarrow> (inter_step env)\<^sup>*\<^sup>* s s'"
  by (erule rtranclp_mono [THEN predicate2D, rotated]) (auto simp: busy_step_def)

lemma busy_tick: "tick_step env s s' \<Longrightarrow> pc s \<noteq> Tick_Idle \<Longrightarrow> pc s' \<noteq> Tick_Idle \<Longrightarrow> busy_step env s s'"
  by (simp add: busy_step_def inter_step.main)

text \<open>The tick takes a ping from the front of the queue and answers it.\<close>

lemma serve_ping:
  assumes "pc s = Tick_Lock a kvs" and "queue_ready (net s) a"
    and "callbacksQueue (queue_at a (net s)) = ping_call a # cbs"
  obtains s' where "(busy_step env)\<^sup>*\<^sup>* s s'" "pc s' = Tick_Lock a kvs" "calls s' = calls s @ [(a, ping_call a)]"
    "callbacksQueue (queue_at a (net s')) = cbs" "\<forall>b. b \<noteq> a \<longrightarrow> queue_at b (net s') = queue_at b (net s)"
    "length (sendQueue (sess (net s') a)) = Suc (length (sendQueue (sess (net s) a)))"
    "in_flight (net s') a Op_Read = in_flight (net s) a Op_Read" "ws_open (sess (net s') a) = ws_open (sess (net s) a)"
    "recievedBuffer (sess (net s') a) = recievedBuffer (sess (net s) a)"
proof -
  let ?m = "c_str ping_message"
  let ?w1 = "upd_queue_at a pop_callback (net s)"
  let ?s1 = "s\<lparr>net := ?w1, pc := Tick_Call (ping_call a) a kvs, calls := calls s @ [(a, ping_call a)]\<rparr>"
  let ?s2 = "?s1\<lparr>net := send a ?m ?w1, pc := Tick_Lock a kvs\<rparr>"
  have q: "has_queue a (net s)" "a < length (heap (net s))"
    using assms(2) by (simp_all add: queue_ready_def has_queue_def)
  have "tick_step env s ?s1"
    using assms by (intro tick_step.take) (simp_all add: queue_ready_def)
  then have s1: "busy_step env s ?s1" by (rule busy_tick) (simp_all add: assms(1))
  have "tick_step env ?s1 ?s2"
    using tick_step.call [of ?s1 "ping_call a" a kvs env "send a ?m ?w1"]
    by (simp add: exec_callback_def ping_call_def pingCallback_def send_shared_def)
  then have "busy_step env ?s1 ?s2" by (rule busy_tick) simp_all
  with s1 have run: "(busy_step env)\<^sup>*\<^sup>* s ?s2" by (blast intro: converse_rtranclp_into_rtranclp)
  have m: "?m \<noteq> []" "length ?m \<le> maxSendMsgSizebyte"
    by (simp_all add: ping_message_def c_str_def maxSendMsgSizebyte_def)
  have w1: "a < length (heap ?w1)" "sess ?w1 a = (sess (net s) a)\<lparr>receivedMessagesQueue :=
      map_option pop_callback (receivedMessagesQueue (sess (net s) a))\<rparr>" "length (heap ?w1) = length (heap (net s))"
    using q(2) by (simp_all add: upd_queue_at_def)
  show thesis
    by (rule that [OF run])
      (use assms(3) q(2) w1 send_keeps_reading [OF w1(1) m] queue_at_upd(1) [OF q(1)]
       in \<open>simp_all add: in_flight_def pop_callback_def\<close>)
qed

lemma chatty_round:
  assumes "chatting a kvs s" and "permutes env"
  obtains s' where "(busy_step env)\<^sup>*\<^sup>* s s'" "chatting a kvs s'" "calls s' = calls s @ [(a, ping_call a)]"
    "\<And>b. b \<noteq> a \<Longrightarrow> queue_at b (net s') = queue_at b (net s)"
    "length (sendQueue (sess (net s') a)) = Suc (length (sendQueue (sess (net s) a)))"
proof -
  note c = assms(1) [unfolded chatting_def]
  have r: "queue_ready (net s) a" and cb: "operationCallbacks (net s) = server_callbacks"
    using c by (auto simp: inter_ok_def pc_ok_def world_okD(1))
  have q: "has_queue a (net s)" using r by (simp add: queue_ready_def)
  obtain w1 where w1: "io_step (net s) w1"
    "callbacksQueue (queue_at a w1) = callbacksQueue (queue_at a (net s)) @ [ping_call a]"
    "\<And>b. b \<noteq> a \<Longrightarrow> queue_at b w1 = queue_at b (net s)" "Op_Read \<in># ops (sess w1 a)" "ws_open (sess w1 a)"
    "recievedBuffer (sess w1 a) = []" "sendQueue (sess w1 a) = sendQueue (sess (net s) a)"
    using ping_arrives [OF q cb] c by (metis (no_types, lifting))
  let ?s1 = "s\<lparr>net := w1\<rparr>"
  have r1: "queue_ready w1 a"
    using w1(1) c r by (auto simp: inter_ok_def intro: keeps_ready reception.io_step)
  have f1: "in_flight w1 a Op_Read" using r1 w1(4) by (simp add: in_flight_def queue_ready_def has_queue_def)
  have s1: "busy_step env s ?s1" using inter_step.io [OF w1(1)] c by (simp add: busy_step_def)
  have p1: "pc ?s1 = Tick_Lock a kvs" "queue_ready (net ?s1) a"
    "callbacksQueue (queue_at a (net ?s1)) = ping_call a # []" using c r1 w1(2) by simp_all
  obtain s' where s': "(busy_step env)\<^sup>*\<^sup>* ?s1 s'" "pc s' = Tick_Lock a kvs" "calls s' = calls ?s1 @ [(a, ping_call a)]"
    "callbacksQueue (queue_at a (net s')) = []" "\<forall>b. b \<noteq> a \<longrightarrow> queue_at b (net s') = queue_at b (net ?s1)"
    "length (sendQueue (sess (net s') a)) = Suc (length (sendQueue (sess (net ?s1) a)))"
    "in_flight (net s') a Op_Read = in_flight (net ?s1) a Op_Read" "ws_open (sess (net s') a) = ws_open (sess (net ?s1) a)"
    "recievedBuffer (sess (net s') a) = recievedBuffer (sess (net ?s1) a)"
    by (rule serve_ping [OF p1, of env])
  have run: "(busy_step env)\<^sup>*\<^sup>* s s'" using s1 s'(1) by (rule converse_rtranclp_into_rtranclp)
  then have "inter_ok s'" using inter_run_fifo [OF busy_inter _ assms(2)] c by blast
  then have "chatting a kvs s'" using s' f1 w1(5,6) by (simp add: chatting_def)
  with run show thesis using that [of s'] s'(3,5,6) w1(3,7) by simp
qed

lemma chatty_rounds:
  assumes "chatting a kvs s" and "permutes env"
  shows "\<exists>s'. (busy_step env)\<^sup>*\<^sup>* s s' \<and> chatting a kvs s' \<and> calls s' = calls s @ replicate n (a, ping_call a)
    \<and> (\<forall>b. b \<noteq> a \<longrightarrow> queue_at b (net s') = queue_at b (net s))
    \<and> length (sendQueue (sess (net s') a)) = length (sendQueue (sess (net s) a)) + n"
proof (induction n)
  case 0
  then show ?case using assms(1) by auto
next
  case (Suc n)
  then obtain s' where s': "(busy_step env)\<^sup>*\<^sup>* s s'" "chatting a kvs s'"
    "calls s' = calls s @ replicate n (a, ping_call a)" "\<forall>b. b \<noteq> a \<longrightarrow> queue_at b (net s') = queue_at b (net s)"
    "length (sendQueue (sess (net s') a)) = length (sendQueue (sess (net s) a)) + n" by blast
  obtain s'' where s'': "(busy_step env)\<^sup>*\<^sup>* s' s''" "chatting a kvs s''" "calls s'' = calls s' @ [(a, ping_call a)]"
    "\<And>b. b \<noteq> a \<Longrightarrow> queue_at b (net s'') = queue_at b (net s')"
    "length (sendQueue (sess (net s'') a)) = Suc (length (sendQueue (sess (net s') a)))"
    using chatty_round [OF s'(2) assms(2)] by blast
  have "(busy_step env)\<^sup>*\<^sup>* s s''" using s'(1) s''(1) by (rule rtranclp_trans)
  with s' s'' show ?case by (intro exI [of _ s'']) (simp add: replicate_append_same)
qed

section \<open>A run with one session\<close>

text \<open>An idle server with one open session that is reading.\<close>

lemma inter_idle:
  obtains s where "inter_reachable example_env s" "pc s = Tick_Idle" "calls s = []"
    "sessions (net s) = [(''s'', Some 0)]" "in_flight (net s) 0 Op_Read" "ws_open (sess (net s) 0)"
    "recievedBuffer (sess (net s) 0) = []" "callbacksQueue (queue_at 0 (net s)) = []" "has_queue 0 (net s)"
    "operationCallbacks (net s) = server_callbacks" "length (heap (net s)) = 1"
proof -
  obtain ae w l where w: "nm_run ae (ServerConfig []) 0 NetworkManager = Inr \<lparr>wsServer = Some w\<rparr>"
    "iocWsListener w = Some l" "listener_ok l" "acceptor_open l" "accepts l = 1" "heap w = []" "sessions w = []"
    "clock w = 0" by (rule started_listening)
  let ?s = "\<lambda>w. \<lparr>net = w, pc = Tick_Idle, snapshot = [], calls = []\<rparr>"
  let ?w1 = "accept_completes Success ''s'' w"
  let ?w2 = "on_accept 0 Success (completed 0 Op_Accept True ?w1)"
  have io: "inter_reachable example_env (?s v')" if "inter_reachable example_env (?s v)" "io_step v v'" for v v'
    using inter_reachable.step [OF that(1) inter_step.io, of v'] that(2) by simp
  have r: "inter_reachable example_env (?s w)" using w(1) by (rule inter_reachable.start)
  moreover have "io_step w ?w1" using w(2,5) by (intro io_step.connection) auto
  ultimately have r1: "inter_reachable example_env (?s ?w1)" by (rule io)
  have w1: "heap ?w1 = [(WsSession True ''s'')\<lparr>control_set := True,
      timer_expiry := Some (WS_PING_FREQUENCY_SEC * 1000000000), ops := {#Op_Accept, Op_Timer#}\<rparr>]"
    "sessions ?w1 = [(''s'', Some 0)]"
    using accept_success [OF w(2-4)] w(5-8) by (simp_all add: Let_def)
  have "io_step ?w1 ?w2" using w1(1) by (intro io_step.accepted) (simp_all add: in_flight_def sess_def)
  with r1 have r2: "inter_reachable example_env (?s ?w2)" by (rule io)
  have "operationCallbacks ?w2 = server_callbacks"
    using inter_reachable_ok [OF r2 permutes_example] by (simp add: inter_ok_def world_okD(1))
  moreover have "sess ?w2 0 = (WsSession True ''s'')\<lparr>control_set := True, isFullyCreated := True, ws_open := True,
      timer_expiry := Some (WS_PING_FREQUENCY_SEC * 1000000000), ops := {#Op_Read, Op_Timer#}\<rparr>"
    "length (heap ?w2) = 1" "sessions ?w2 = [(''s'', Some 0)]"
    using w1 by (simp_all add: on_accept_def completed_def do_read_def sess_upd_sess)
      (simp add: sess_def)
  ultimately show thesis
    using that [OF r2] by (simp add: in_flight_def queue_at_def has_queue_def WsSession_def DispatchQueue_def)
qed

lemma inter_chatting:
  obtains s where "inter_reachable example_env s" "pc s = Tick_Lock 0 []" "chatting 0 [] s" "held s 0"
    "length (heap (net s)) \<noteq> 0"
proof -
  obtain s where s: "inter_reachable example_env s" "pc s = Tick_Idle" "sessions (net s) = [(''s'', Some 0)]"
    "in_flight (net s) 0 Op_Read" "ws_open (sess (net s) 0)" "recievedBuffer (sess (net s) 0) = []"
    "callbacksQueue (queue_at 0 (net s)) = []" "has_queue 0 (net s)" by (rule inter_idle)
  let ?s1 = "s\<lparr>pc := Tick_Visit [(''s'', Some 0)], snapshot := [(''s'', Some 0)]\<rparr>"
  let ?s2 = "?s1\<lparr>pc := Tick_Lock 0 []\<rparr>"
  have "tick_step example_env s ?s1"
    using tick_step.begin_tick [OF s(2), of example_env] s(3) by (simp add: getSessions_def)
  moreover obtain q where "getReceivedMessages (sess (net s) 0) = Some q"
    using s(8) by (auto simp: has_queue_def getReceivedMessages_def)
  then have "tick_step example_env ?s1 ?s2" using tick_step.enter [of ?s1 "''s''" 0 "[]" q example_env] by simp
  ultimately have r: "inter_reachable example_env ?s2"
    using s(1) by (blast intro: inter_reachable.step inter_step.main)
  then have "inter_ok ?s2" using permutes_example by (rule inter_reachable_ok)
  with r s(4-8) show thesis
    by (intro that [of ?s2]) (auto simp: chatting_def held_def in_flight_def)
qed

lemma inter_one_tick:
  obtains s0 s1 s2 where "inter_reachable example_env s0" "pc s0 = Tick_Idle" "calls s0 = []"
    "sessions (net s0) = [(''s'', Some 0)]" "callbacksQueue (queue_at 0 (net s0)) = [ping_call 0]"
    "tick_step example_env s0 s1" "(busy_step example_env)\<^sup>*\<^sup>* s1 s2" "pc s2 = Tick_Visit []"
    "length (heap (net s0)) = 1"
proof -
  obtain s where s: "inter_reachable example_env s" "pc s = Tick_Idle" "calls s = []"
    "sessions (net s) = [(''s'', Some 0)]" "in_flight (net s) 0 Op_Read" "ws_open (sess (net s) 0)"
    "recievedBuffer (sess (net s) 0) = []" "callbacksQueue (queue_at 0 (net s)) = []" "has_queue 0 (net s)"
    "operationCallbacks (net s) = server_callbacks" "length (heap (net s)) = 1" by (rule inter_idle)
  obtain w where w: "io_step (net s) w" "callbacksQueue (queue_at 0 w) = [ping_call 0]" "sessions w = sessions (net s)"
    "length (heap w) = length (heap (net s))"
    using ping_arrives [OF s(9,10,5-7)] s(8) by (metis append_Nil)
  let ?s0 = "s\<lparr>net := w\<rparr>"
  have r0: "inter_reachable example_env ?s0" using s(1) w(1) by (blast intro: inter_reachable.step inter_step.io)
  have "queue_ready w 0"
    using held_ready_table [of w 0] inter_reachable_ok [OF r0 permutes_example] w(3) s(4) by (simp add: inter_ok_def)
  then have q: "has_queue 0 w" "\<not> quit (queue_at 0 w)" by (simp_all add: queue_ready_def)
  then obtain q' where q': "getReceivedMessages (sess w 0) = Some q'" by (auto simp: has_queue_def getReceivedMessages_def)
  let ?s1 = "?s0\<lparr>pc := Tick_Visit [(''s'', Some 0)], snapshot := [(''s'', Some 0)]\<rparr>"
  let ?s2 = "?s1\<lparr>pc := Tick_Lock 0 []\<rparr>"
  have first: "tick_step example_env ?s0 ?s1"
    using tick_step.begin_tick [of ?s0 example_env] s(2,4) w(3) by (simp add: getSessions_def)
  have "tick_step example_env ?s1 ?s2" using tick_step.enter [of ?s1 "''s''" 0 "[]" q' example_env] q' by simp
  then have s2: "busy_step example_env ?s1 ?s2" by (rule busy_tick) simp_all
  have p2: "pc ?s2 = Tick_Lock 0 []" "queue_ready (net ?s2) 0" "callbacksQueue (queue_at 0 (net ?s2)) = ping_call 0 # []"
    using q w(2) by (simp_all add: queue_ready_def)
  obtain s4 where s4: "(busy_step example_env)\<^sup>*\<^sup>* ?s2 s4" "pc s4 = Tick_Lock 0 []"
    "callbacksQueue (queue_at 0 (net s4)) = []" by (rule serve_ping [OF p2, of example_env])
  have "tick_step example_env s4 (s4\<lparr>pc := Tick_Visit []\<rparr>)" using tick_step.leave [OF s4(2)] s4(3) by blast
  then have "busy_step example_env s4 (s4\<lparr>pc := Tick_Visit []\<rparr>)" by (rule busy_tick) (simp_all add: s4(2))
  with converse_rtranclp_into_rtranclp [of "busy_step example_env", OF s2 s4(1)]
  have "(busy_step example_env)\<^sup>*\<^sup>* ?s1 (s4\<lparr>pc := Tick_Visit []\<rparr>)" by (rule rtranclp.rtrancl_into_rtrancl)
  then show thesis
    by (intro that [of ?s0 ?s1 "s4\<lparr>pc := Tick_Visit []\<rparr>"] r0 first) (simp_all add: s(2-4,11) w(2-4))
qed

section \<open>Properties\<close>

text \<open>
  C2: the tick is safe under every interleaving with the I/O thread. In every reachable state each
  session in the copy that the tick visits still exists and has its queue, even when it was
  unregistered meanwhile; a callback that was taken from a queue is bound to the session whose
  queue it was and to a message that routes to it; and the tick is never stuck: the main thread can
  make its next step, or the callback fails inside the analysis of a table.
\<close>

theorem interleaved_tick_safe:
  assumes "inter_reachable env s" and "permutes env"
  shows "(\<forall>a. held s a \<longrightarrow> a < length (heap (net s)) \<and> receivedMessagesQueue (sess (net s) a) \<noteq> None)
    \<and> (\<forall>cb a kvs. pc s = Tick_Call cb a kvs \<longrightarrow> held s a \<and> clientSession cb = Some a
          \<and> (\<exists>m. messageBuffer cb = Some m \<and> route m = Some (callback cb)))
    \<and> ((\<exists>s'. tick_step env s s')
        \<or> (\<exists>cb a kvs e. pc s = Tick_Call cb a kvs \<and> exec_callback env cb (net s) = Inl e
             \<and> e \<in> {Terminate, Out_Of_Bounds, Buffer_Overflow, Signed_Overflow, Exception ''bad_lexical_cast''}))"
proof -
  have ok: "inter_ok s" by (rule inter_reachable_ok [OF assms])
  have "a < length (heap (net s)) \<and> receivedMessagesQueue (sess (net s) a) \<noteq> None" if "held s a" for a
    using ok that by (simp add: inter_ok_def queue_ready_def has_queue_def)
  moreover have "held s a \<and> clientSession cb = Some a \<and> (\<exists>m. messageBuffer cb = Some m \<and> route m = Some (callback cb))"
    if "pc s = Tick_Call cb a kvs" for cb a kvs
    using ok that by (auto simp: inter_ok_def pc_ok_def bound_ok_def split: option.splits)
  moreover note tick_progress [OF ok, of env]
  ultimately show ?thesis unfolding tick_errors_def by blast
qed

theorem interleaved_tick_safe_witness:
  "\<exists>s. inter_reachable example_env s \<and> held s 0 \<and> receivedMessagesQueue (sess (net s) 0) \<noteq> None
     \<and> (\<exists>s'. tick_step example_env s s')"
proof -
  obtain s where s: "inter_reachable example_env s" "pc s = Tick_Lock 0 []" "held s 0" by (rule inter_chatting)
  with interleaved_tick_safe [OF s(1) permutes_example] show ?thesis by auto
qed

text \<open>
  C10: the interleaving neither duplicates nor reorders callbacks, and loses none of a session that
  lives. Along every run the sequence of the callbacks of a session that were started only grows at
  its end; and when the session still has its queue at the end of the run, the history of the queue,
  that is the callbacks started followed by those waiting, was only extended at its end. (A session
  destroyed meanwhile takes the callbacks that wait in its queue with it.)
\<close>

theorem interleaved_queue_fifo:
  assumes "inter_reachable env s" and "permutes env" and "(inter_step env)\<^sup>*\<^sup>* s s'"
    and "a < length (heap (net s))"
  shows "prefix (calls_of a s) (calls_of a s')
    \<and> (has_queue a (net s') \<longrightarrow> prefix (hist a s) (hist a s'))"
  using inter_run_fifo [OF assms(3) inter_reachable_ok [OF assms(1,2)] assms(2)] assms(4)
    calls_grow [OF assms(3)]
  by (simp add: fifo_def)

theorem interleaved_queue_fifo_witness:
  "\<exists>s s'. inter_reachable example_env s \<and> (inter_step example_env)\<^sup>*\<^sup>* s s' \<and> calls s' = calls s @ [(0, ping_call 0)]
     \<and> prefix (hist 0 s) (hist 0 s')"
proof -
  obtain s where s: "inter_reachable example_env s" "chatting 0 [] s" "length (heap (net s)) \<noteq> 0"
    by (rule inter_chatting)
  obtain s' where s': "(busy_step example_env)\<^sup>*\<^sup>* s s'" "chatting 0 [] s'" "calls s' = calls s @ [(0, ping_call 0)]"
    by (rule chatty_round [OF s(2) permutes_example])
  have run: "(inter_step example_env)\<^sup>*\<^sup>* s s'"
    using s'(1) by (rule busy_inter)
  have "has_queue 0 (net s')"
    using s'(2) by (auto simp: chatting_def inter_ok_def pc_ok_def queue_ready_def)
  with interleaved_queue_fifo [OF s(1) permutes_example run, of 0] s(1,3) s'(3) run
  show ?thesis by auto
qed

text \<open>
  C3: a tick serves every session that was registered when it began: when it ends, all callbacks
  that were waiting in the queue of the session at the beginning have been started, whatever
  arrived, failed or was unregistered meanwhile.
\<close>

theorem tick_serves_snapshot:
  assumes "inter_reachable env s0" and "permutes env" and "pc s0 = Tick_Idle" and "tick_step env s0 s1"
    and "(busy_step env)\<^sup>*\<^sup>* s1 s2" and "pc s2 = Tick_Visit []"
    and "getSessById (sessions (net s0)) k = Some a"
  shows "prefix (calls_of a s0 @ callbacksQueue (queue_at a (net s0))) (calls_of a s2)"
proof -
  have ok: "inter_ok s0" by (rule inter_reachable_ok [OF assms(1,2)])
  have "served s0 s2"
    using served_run [OF assms(5) served_begin [OF assms(3) ok assms(2,4)] tick_step_ok [OF assms(4) ok assms(2)] assms(2)]
    by simp
  moreover have "(k, Some a) \<in> set (sessions (net s0))"
    using assms(7) ok world_okD(2) [of "net s0"] by (simp add: getSessById_in inter_ok_def)
  then have "held s2 a" using \<open>served s0 s2\<close> by (force simp: served_def held_def)
  ultimately show ?thesis using assms(6) by (simp add: served_def hist_def)
qed

theorem tick_serves_snapshot_witness:
  "\<exists>s0 s1 s2. inter_reachable example_env s0 \<and> callbacksQueue (queue_at 0 (net s0)) = [ping_call 0]
     \<and> tick_step example_env s0 s1 \<and> (busy_step example_env)\<^sup>*\<^sup>* s1 s2 \<and> pc s2 = Tick_Visit []
     \<and> prefix [ping_call 0] (calls_of 0 s2)"
proof -
  obtain s0 s1 s2 where s: "inter_reachable example_env s0" "pc s0 = Tick_Idle" "calls s0 = []"
    "sessions (net s0) = [(''s'', Some 0)]" "callbacksQueue (queue_at 0 (net s0)) = [ping_call 0]"
    "tick_step example_env s0 s1" "(busy_step example_env)\<^sup>*\<^sup>* s1 s2" "pc s2 = Tick_Visit []"
    by (rule inter_one_tick)
  have "getSessById (sessions (net s0)) ''s'' = Some 0" by (simp add: s(4) getSessById_def)
  from tick_serves_snapshot [OF s(1) permutes_example s(2,6-8) this] s show ?thesis
    by (intro exI [of _ s0] exI [of _ s1] exI [of _ s2]) (simp add: calls_of_def)
qed

text \<open>
  C26: one session can keep a tick from ending. Whenever the tick is at the queue of an open session
  that is reading, then for every number \<open>n\<close> there is a run within that same tick in which the peer
  gets \<open>n\<close> callbacks run while the queues of all other sessions are not touched, and in which the
  send queue of the session grows by \<open>n\<close> messages: the number of queued messages has no bound.
\<close>

theorem chatty_session_starves_tick:
  assumes "inter_reachable env s" and "permutes env" and "pc s = Tick_Lock a kvs"
    and "in_flight (net s) a Op_Read" and "ws_open (sess (net s) a)" and "recievedBuffer (sess (net s) a) = []"
    and "callbacksQueue (queue_at a (net s)) = []"
  shows "\<exists>s'. (busy_step env)\<^sup>*\<^sup>* s s' \<and> pc s' = Tick_Lock a kvs
    \<and> length (calls_of a s') = length (calls_of a s) + n
    \<and> (\<forall>b. b \<noteq> a \<longrightarrow> calls_of b s' = calls_of b s \<and> queue_at b (net s') = queue_at b (net s))
    \<and> length (sendQueue (sess (net s') a)) = length (sendQueue (sess (net s) a)) + n"
proof -
  have "chatting a kvs s"
    using inter_reachable_ok [OF assms(1,2)] assms(3-7) by (simp add: chatting_def)
  from chatty_rounds [OF this assms(2), of n] obtain s' where s': "(busy_step env)\<^sup>*\<^sup>* s s'" "chatting a kvs s'"
    "calls s' = calls s @ replicate n (a, ping_call a)" "\<forall>b. b \<noteq> a \<longrightarrow> queue_at b (net s') = queue_at b (net s)"
    "length (sendQueue (sess (net s') a)) = length (sendQueue (sess (net s) a)) + n" by blast
  have "pc s' = Tick_Lock a kvs" using s'(2) by (simp add: chatting_def)
  with s' show ?thesis by (intro exI [of _ s']) (simp add: calls_of_def filter_replicate)
qed

theorem chatty_session_starves_tick_witness:
  "\<exists>s s'. inter_reachable example_env s \<and> (busy_step example_env)\<^sup>*\<^sup>* s s' \<and> pc s' = Tick_Lock 0 []
     \<and> length (sendQueue (sess (net s') 0)) \<ge> 17"
proof -
  obtain s where s: "inter_reachable example_env s" "chatting 0 [] s" by (rule inter_chatting)
  note c = s(2) [unfolded chatting_def]
  from chatty_session_starves_tick [OF s(1) permutes_example, of 0 "[]" 17] c
  obtain s' where "(busy_step example_env)\<^sup>*\<^sup>* s s'" "pc s' = Tick_Lock 0 []"
    "length (sendQueue (sess (net s') 0)) = length (sendQueue (sess (net s) 0)) + 17" by auto
  with s(1) show ?thesis by (intro exI [of _ s] exI [of _ s']) simp
qed

text \<open>
  C11: without interference the steps of the tick compute what the tick as one operation computes.
  When \<open>handleIncomingMessages\<close> succeeds with \<open>w'\<close>, the steps of the main thread alone lead from the
  start of the tick to its end in \<open>w'\<close>; and every sequence of its steps from the start of the tick,
  stopped anywhere within the tick, continues to that same end. So no step leaves the tick early or
  for another result.
\<close>

theorem tick_steps_implement_tick:
  assumes "inter_reachable env s" and "permutes env" and "pc s = Tick_Idle"
    and "handleIncomingMessages env (net s) = Inr w'"
  shows "\<exists>cs. let e = \<lparr>net = w', pc = Tick_Idle, snapshot = [], calls = cs\<rparr> in
    (\<exists>s1. tick_step env s s1 \<and> (tick_busy env)\<^sup>*\<^sup>* s1 e)
    \<and> (\<forall>s1 t. tick_step env s s1 \<and> (tick_busy env)\<^sup>*\<^sup>* s1 t \<longrightarrow> (tick_busy env)\<^sup>*\<^sup>* t e)"
proof -
  have ok: "inter_ok s" by (rule inter_reachable_ok [OF assms(1,2)])
  then have w: "world_ok (net s)" by (simp add: inter_ok_def)
  let ?kvs = "iter_order env (sessions (net s))"
  let ?s1 = "s\<lparr>pc := Tick_Visit ?kvs, snapshot := sessions (net s)\<rparr>"
  have first: "tick_step env s ?s1" using tick_step.begin_tick [OF assms(3)] by (simp add: getSessions_def)
  have "foldM (visit_session (\<lambda>_. run_queued env)) ?kvs (net s) = Inr w'"
    using handleIncomingMessages_eq [OF world_ok_queues_ready [OF w], of env] assms(2,4) by (simp add: permutes_set)
  moreover have "queue_ready (net s) a" if "(k, Some a) \<in> set ?kvs" for k a
    using that world_ok_queues_ready [OF w] permutes_set [OF assms(2)] by (auto simp: queues_ready_def)
  ultimately obtain cs where run: "(tick_busy env)\<^sup>*\<^sup>* ?s1 (?s1\<lparr>net := w', pc := Tick_Visit [], calls := cs\<rparr>)"
    using visit_runs [of ?s1 ?kvs env w'] by auto
  let ?e = "\<lparr>net = w', pc = Tick_Idle, snapshot = [], calls = cs\<rparr>"
  have "tick_busy env (?s1\<lparr>net := w', pc := Tick_Visit [], calls := cs\<rparr>) ?e"
    using tick_step.end_tick [of "?s1\<lparr>net := w', pc := Tick_Visit [], calls := cs\<rparr>" env]
    by (cases s) (simp add: tick_busy_def)
  with run have all: "(tick_busy env)\<^sup>*\<^sup>* ?s1 ?e" by (rule rtranclp.rtrancl_into_rtrancl)
  have "(tick_busy env)\<^sup>*\<^sup>* t ?e" if "tick_step env s s1" "(tick_busy env)\<^sup>*\<^sup>* s1 t" for s1 t
    using tick_busy_linear [OF _ all, of t] tick_busy_idle [of env ?e t] that
      tick_deterministic [OF first that(1)] by auto
  with first all show ?thesis by (intro exI [of _ cs]) (auto simp: Let_def)
qed

theorem tick_steps_implement_tick_witness:
  "\<exists>s w' cs. inter_reachable example_env s \<and> handleIncomingMessages example_env (net s) = Inr w'
     \<and> (\<exists>s1. tick_step example_env s s1
          \<and> (tick_busy example_env)\<^sup>*\<^sup>* s1 \<lparr>net = w', pc = Tick_Idle, snapshot = [], calls = cs\<rparr>)"
proof -
  obtain s where s: "inter_reachable example_env s" "pc s = Tick_Idle" "sessions (net s) = [(''s'', Some 0)]"
    "callbacksQueue (queue_at 0 (net s)) = []" by (rule inter_idle)
  have "world_ok (net s)" using inter_reachable_ok [OF s(1) permutes_example] by (simp add: inter_ok_def)
  then have h: "handleIncomingMessages example_env (net s) = Inr (net s)"
    using handleIncomingMessages_eq [OF world_ok_queues_ready, of "net s" example_env]
      tick_idle [of "iter_order example_env (sessions (net s))" "net s" example_env] s(3,4)
      permutes_set [OF permutes_example]
    by auto
  from tick_steps_implement_tick [OF s(1) permutes_example s(2) h] h s(1) show ?thesis
    by (auto simp: Let_def)
qed

end
