(* ===== verification/Eventual_Service.thy ===== *)
theory Eventual_Service
  imports Interleaved_Tick
begin

text \<open>
  Infinite runs of the server, in which the ticks of the main thread and the handlers of the I/O
  thread interleave as in \<open>Interleaved_Tick\<close>: every message that reaches the queue of a session is
  eventually processed, provided that the main thread is scheduled again and again, that every
  session receives a finite number of messages, and that the session stays registered. The second
  condition is needed: a peer that never stops sending keeps a tick from ending.
\<close>

section \<open>Fair runs\<close>

definition infinite_run :: "'d env \<Rightarrow> (nat \<Rightarrow> tick_sys) \<Rightarrow> bool" where
  "infinite_run env \<sigma> \<longleftrightarrow> inter_reachable env (\<sigma> 0) \<and> (\<forall>i. inter_step env (\<sigma> i) (\<sigma> (Suc i)))"

text \<open>The main thread makes infinitely many steps.\<close>

definition main_thread_fair :: "'d env \<Rightarrow> (nat \<Rightarrow> tick_sys) \<Rightarrow> bool" where
  "main_thread_fair env \<sigma> \<longleftrightarrow> (\<forall>i. \<exists>j \<ge> i. tick_step env (\<sigma> j) (\<sigma> (Suc j)))"

definition finite_traffic :: "(nat \<Rightarrow> tick_sys) \<Rightarrow> bool" where
  "finite_traffic \<sigma> \<longleftrightarrow> (\<forall>a. \<exists>N. \<forall>i. has_queue a (net (\<sigma> i)) \<longrightarrow> length (hist a (\<sigma> i)) \<le> N)"

lemma infinite_run_reachable: "infinite_run env \<sigma> \<Longrightarrow> inter_reachable env (\<sigma> i)"
  by (induction i) (auto simp: infinite_run_def intro: inter_reachable.step)

lemma infinite_run_ok: "infinite_run env \<sigma> \<Longrightarrow> permutes env \<Longrightarrow> inter_ok (\<sigma> i)"
  using infinite_run_reachable inter_reachable_ok by blast

lemma infinite_run_steps: "infinite_run env \<sigma> \<Longrightarrow> (inter_step env)\<^sup>*\<^sup>* (\<sigma> i) (\<sigma> (i + d))"
proof (induction d)
  case (Suc d)
  then have "inter_step env (\<sigma> (i + d)) (\<sigma> (i + Suc d))" by (simp add: infinite_run_def)
  with Suc.IH [OF Suc.prems] show ?case by (rule rtranclp.rtrancl_into_rtrancl)
qed simp

lemma infinite_run_fifo:
  assumes "infinite_run env \<sigma>" and "permutes env" and "i \<le> j"
  shows "fifo (\<sigma> i) (\<sigma> j)"
proof -
  from assms(3) obtain d where "j = i + d" by (rule less_eqE)
  then show ?thesis using inter_run_fifo [OF infinite_run_steps [OF assms(1)] infinite_run_ok [OF assms(1,2)] assms(2)] by simp
qed

text \<open>A step that is not one of the main thread leaves the main thread where it is.\<close>

lemma io_keeps_pc:
  assumes "inter_step env s s'" and "\<not> tick_step env s s'"
  shows "pc s' = pc s" "calls s' = calls s"
  using assms by (auto elim: inter_step.cases)

section \<open>Every tick ends\<close>

text \<open>
  The work left in a tick, when the session \<open>a\<close> gets at most \<open>N a\<close> messages: the sessions still to be
  visited, then the callbacks that the current session can still get.
\<close>

fun tick_work :: "(nat \<Rightarrow> nat) \<Rightarrow> tick_sys \<Rightarrow> tick_pc \<Rightarrow> nat \<times> nat" where
  "tick_work N s Tick_Idle = (0, 0)"
| "tick_work N s (Tick_Visit kvs) = (2 * length kvs, 0)"
| "tick_work N s (Tick_Lock a kvs) = (2 * length kvs + 1, 2 * (N a - length (calls_of a s)))"
| "tick_work N s (Tick_Call cb a kvs) = (2 * length kvs + 1, 2 * (N a - length (calls_of a s)) + 1)"

lemma tick_work_cong: "calls s' = calls s \<Longrightarrow> tick_work N s' p = tick_work N s p"
  by (cases p) (simp_all add: calls_of_def)

lemma tick_step_works:
  assumes "tick_step env s s'" and "inter_ok s" and "pc s \<noteq> Tick_Idle" and "pc s' \<noteq> Tick_Idle"
    and "\<And>a. held s a \<Longrightarrow> length (hist a s) \<le> N a"
  shows "(tick_work N s' (pc s'), tick_work N s (pc s)) \<in> less_than <*lex*> less_than"
  using assms
proof (induction rule: tick_step.induct)
  case (take s a kvs cb cbs)
  have "held s a" using take(1,4) by (simp add: inter_ok_def pc_ok_def)
  then have "length (calls_of a s) < N a" using take(3) take(7) [of a] by (simp add: hist_def)
  then show ?case using take(1) by (simp add: calls_of_def)
qed (simp_all add: calls_of_def)

lemma tick_reaches_idle:
  assumes run: "infinite_run env \<sigma>" and perm: "permutes env" and fair: "main_thread_fair env \<sigma>"
    and traffic: "finite_traffic \<sigma>"
  shows "\<exists>j \<ge> i. pc (\<sigma> j) = Tick_Idle"
proof -
  from choice [OF traffic [unfolded finite_traffic_def]] obtain N where
    "\<forall>a. \<forall>i. has_queue a (net (\<sigma> i)) \<longrightarrow> length (hist a (\<sigma> i)) \<le> N a" ..
  then have N: "length (hist a (\<sigma> i)) \<le> N a" if "has_queue a (net (\<sigma> i))" for a i using that by simp
  let ?M = "\<lambda>i. tick_work N (\<sigma> i) (pc (\<sigma> i))"
  have step: "inter_step env (\<sigma> i) (\<sigma> (Suc i))" for i using run by (simp add: infinite_run_def)
  have same: "?M (Suc i) = ?M i" if "\<not> tick_step env (\<sigma> i) (\<sigma> (Suc i))" for i
    unfolding io_keeps_pc(1) [OF step that] by (rule tick_work_cong [OF io_keeps_pc(2) [OF step that]])
  have less: "(?M (Suc i), ?M i) \<in> less_than <*lex*> less_than"
    if "tick_step env (\<sigma> i) (\<sigma> (Suc i))" "pc (\<sigma> i) \<noteq> Tick_Idle" "pc (\<sigma> (Suc i)) \<noteq> Tick_Idle" for i
    using that(1) infinite_run_ok [OF run perm] that(2,3)
  proof (rule tick_step_works)
    show "length (hist a (\<sigma> i)) \<le> N a" if "held (\<sigma> i) a" for a
      using that infinite_run_ok [OF run perm, of i] by (intro N) (simp add: inter_ok_def queue_ready_def)
  qed
  have next_work: "(\<exists>j \<ge> i. pc (\<sigma> j) = Tick_Idle) \<or> (\<exists>j \<ge> i. (?M j, ?M i) \<in> less_than <*lex*> less_than)"
    if "tick_step env (\<sigma> (i + d)) (\<sigma> (Suc (i + d)))" for i d
    using that
  proof (induction d arbitrary: i)
    case 0
    then show ?case using less [of i] by (metis add.right_neutral le_refl le_SucI)
  next
    case (Suc d)
    show ?case
    proof (cases "tick_step env (\<sigma> i) (\<sigma> (Suc i))")
      case True
      then show ?thesis using less [of i] by (metis le_refl le_SucI)
    next
      case False
      with Suc.IH [of "Suc i"] Suc.prems same [of i] show ?thesis by (metis Suc_leD add_Suc_shift)
    qed
  qed
  have "wf (inv_image (less_than <*lex*> less_than) ?M)" by (intro wf_inv_image wf_lex_prod wf_less_than)
  then show ?thesis
  proof (induction i rule: wf_induct_rule)
    case (less i)
    obtain d where "tick_step env (\<sigma> (i + d)) (\<sigma> (Suc (i + d)))"
      using fair unfolding main_thread_fair_def by (metis le_iff_add)
    from next_work [OF this] show ?case
    proof (elim disjE exE conjE)
      fix j
      assume j: "i \<le> j" "(?M j, ?M i) \<in> less_than <*lex*> less_than"
      then obtain j' where "j \<le> j'" "pc (\<sigma> j') = Tick_Idle" using less.IH [of j] by auto
      with j(1) show ?thesis by (intro exI [of _ j']) simp
    qed auto
  qed
qed

section \<open>Every tick begins and serves\<close>

lemma idle_begins:
  assumes "infinite_run env \<sigma>" and "pc (\<sigma> i) = Tick_Idle" and "tick_step env (\<sigma> (i + d)) (\<sigma> (Suc (i + d)))"
  shows "\<exists>j \<ge> i. pc (\<sigma> j) = Tick_Idle \<and> tick_step env (\<sigma> j) (\<sigma> (Suc j))"
  using assms(2,3)
proof (induction d arbitrary: i)
  case 0
  then show ?case by auto
next
  case (Suc d)
  show ?case
  proof (cases "tick_step env (\<sigma> i) (\<sigma> (Suc i))")
    case True
    with Suc.prems(1) show ?thesis by auto
  next
    case False
    have "inter_step env (\<sigma> i) (\<sigma> (Suc i))" using assms(1) by (simp add: infinite_run_def)
    then have "pc (\<sigma> (Suc i)) = Tick_Idle" using io_keeps_pc(1) [OF _ False] Suc.prems(1) by simp
    with Suc.IH [of "Suc i"] Suc.prems(2) obtain j where
      "Suc i \<le> j" "pc (\<sigma> j) = Tick_Idle" "tick_step env (\<sigma> j) (\<sigma> (Suc j))" by auto
    then show ?thesis by (intro exI [of _ j]) simp
  qed
qed

lemma last_tick_step:
  assumes "inter_step env s s'" and "pc s \<noteq> Tick_Idle" and "pc s' = Tick_Idle"
  shows "pc s = Tick_Visit []"
  using assms by (auto elim!: inter_step.cases tick_step.cases)

lemma busy_until_end:
  assumes "infinite_run env \<sigma>" and "pc (\<sigma> i) \<noteq> Tick_Idle" and "pc (\<sigma> (i + d)) = Tick_Idle"
  shows "\<exists>j \<ge> i. (busy_step env)\<^sup>*\<^sup>* (\<sigma> i) (\<sigma> j) \<and> pc (\<sigma> j) = Tick_Visit []"
  using assms(2,3)
proof (induction d arbitrary: i)
  case (Suc d)
  have step: "inter_step env (\<sigma> i) (\<sigma> (Suc i))" using assms(1) by (simp add: infinite_run_def)
  show ?case
  proof (cases "pc (\<sigma> (Suc i)) = Tick_Idle")
    case True
    then have "pc (\<sigma> i) = Tick_Visit []" using last_tick_step [OF step Suc.prems(1)] by simp
    then show ?thesis by (intro exI [of _ i]) simp
  next
    case False
    with Suc.IH [of "Suc i"] Suc.prems(2) obtain j where
      j: "Suc i \<le> j" "(busy_step env)\<^sup>*\<^sup>* (\<sigma> (Suc i)) (\<sigma> j)" "pc (\<sigma> j) = Tick_Visit []" by auto
    have "busy_step env (\<sigma> i) (\<sigma> (Suc i))" using step False Suc.prems(1) by (simp add: busy_step_def)
    then have "(busy_step env)\<^sup>*\<^sup>* (\<sigma> i) (\<sigma> j)" using j(2) by (rule converse_rtranclp_into_rtranclp)
    with j show ?thesis by (intro exI [of _ j]) simp
  qed
qed simp

lemma begin_not_idle: "tick_step env s s' \<Longrightarrow> pc s = Tick_Idle \<Longrightarrow> pc s' \<noteq> Tick_Idle"
  by (auto elim: tick_step.cases)

lemma registered_served:
  assumes "getSessById (sessions (net s)) k = Some a" and "inter_ok s"
  shows "Some a \<in> snd ` set (sessions (net s))" "has_queue a (net s)" "a < length (heap (net s))"
proof -
  have w: "world_ok (net s)" using assms(2) by (simp add: inter_ok_def)
  then have "(k, Some a) \<in> set (sessions (net s))"
    using assms(1) getSessById_in [OF world_okD(2)] by blast
  then show "Some a \<in> snd ` set (sessions (net s))" by force
  with held_ready_table [OF w] show "has_queue a (net s)" "a < length (heap (net s))"
    by (simp_all add: queue_ready_def has_queue_def)
qed

section \<open>A fair run\<close>

text \<open>While only pings are waiting, no callback fails, and the main thread can run alone forever.\<close>

definition pings_only :: "tick_sys \<Rightarrow> bool" where
  "pings_only s \<longleftrightarrow> (\<forall>a cb. has_queue a (net s) \<longrightarrow> cb \<in> set (callbacksQueue (queue_at a (net s))) \<longrightarrow>
       callback cb = PingCallback)
     \<and> (case pc s of Tick_Call cb _ _ \<Rightarrow> callback cb = PingCallback | _ \<Rightarrow> True)"

lemma pings_only_step:
  assumes "tick_step env s s'" and "inter_ok s" and "pings_only s"
  shows "pings_only s'"
  using assms
proof (induction rule: tick_step.induct)
  case (take s a kvs cb cbs)
  have q: "has_queue a (net s)" using take(1,4) by (simp add: inter_ok_def pc_ok_def queue_ready_def)
  with take(3,5) have "callback cb = PingCallback" by (simp add: pings_only_def)
  moreover have "set (callbacksQueue (queue_at b (upd_queue_at a pop_callback (net s))))
      \<subseteq> set (callbacksQueue (queue_at b (net s)))" for b
    using take(3) by (auto simp: queue_at_upd(1) [OF q] pop_callback_def)
  ultimately show ?case using take(5) by (auto simp: pings_only_def queue_at_upd(2) split: tick_pc.splits)
next
  case (call s cb a kvs w')
  then show ?case by (simp add: pings_only_def queue_ready_callback [OF call(2)])
qed (auto simp: pings_only_def)

lemma pings_only_progress:
  assumes "inter_ok s" and "pings_only s"
  shows "\<exists>s'. tick_step env s s'"
proof -
  have "exec_callback env cb w \<noteq> Inl e" if "callback cb = PingCallback" for cb w e
    using that by (simp add: exec_callback_def pingCallback_def split: option.split)
  with tick_progress [OF assms(1), of env] assms(2) show ?thesis by (auto simp: pings_only_def)
qed

lemma main_thread_runs:
  assumes "inter_reachable env s" and "permutes env" and "pings_only s"
  obtains \<sigma> where "\<sigma> 0 = s" "\<forall>i. tick_step env (\<sigma> i) (\<sigma> (Suc i))"
proof -
  have "\<exists>\<sigma>. \<forall>n. ((n = 0 \<longrightarrow> \<sigma> n = s) \<and> inter_ok (\<sigma> n) \<and> pings_only (\<sigma> n)) \<and> tick_step env (\<sigma> n) (\<sigma> (Suc n))"
  proof (rule dependent_nat_choice)
    show "\<exists>x. (0 = 0 \<longrightarrow> x = s) \<and> inter_ok x \<and> pings_only x"
      using inter_reachable_ok [OF assms(1,2)] assms(3) by blast
    show "\<exists>y. ((Suc n = 0 \<longrightarrow> y = s) \<and> inter_ok y \<and> pings_only y) \<and> tick_step env x y"
      if "(n = 0 \<longrightarrow> x = s) \<and> inter_ok x \<and> pings_only x" for x and n :: nat
    proof -
      have x: "inter_ok x" "pings_only x" using that by simp_all
      obtain y where y: "tick_step env x y" using pings_only_progress [OF x] by blast
      with tick_step_ok [OF y x(1) assms(2)] pings_only_step [OF y x] show ?thesis by blast
    qed
  qed
  then show thesis using that by blast
qed

lemma main_thread_alone:
  assumes "inter_reachable env (\<sigma> 0)" and "permutes env" and "\<And>i. tick_step env (\<sigma> i) (\<sigma> (Suc i))"
  shows "infinite_run env \<sigma>" "main_thread_fair env \<sigma>" "finite_traffic \<sigma>"
    "sessions (net (\<sigma> i)) = sessions (net (\<sigma> 0))"
proof -
  show run: "infinite_run env \<sigma>" using assms(1,3) by (simp add: infinite_run_def inter_step.main)
  show "main_thread_fair env \<sigma>" using assms(3) by (auto simp: main_thread_fair_def)
  note h = tick_step_hist [OF assms(3) infinite_run_ok [OF run assms(2)]]
  have "hist a (\<sigma> i) = hist a (\<sigma> 0)" for a i by (induction i) (simp_all add: h(1))
  then have "\<forall>i. has_queue a (net (\<sigma> i)) \<longrightarrow> length (hist a (\<sigma> i)) \<le> length (hist a (\<sigma> 0))" for a
    by (metis order_refl)
  then show "finite_traffic \<sigma>" unfolding finite_traffic_def by meson
  show "sessions (net (\<sigma> i)) = sessions (net (\<sigma> 0))" by (induction i) (simp_all add: h(5))
qed

section \<open>Properties\<close>

text \<open>
  C4: every message is eventually processed. In an infinite run in which the main thread is scheduled
  again and again, every session receives finitely many messages and no callback fails, all
  callbacks that wait in the queue of a session at some time have been started at a later time, if
  the session stays registered.
\<close>

theorem waiting_callbacks_started:
  assumes "infinite_run env \<sigma>" and "permutes env" and "main_thread_fair env \<sigma>" and "finite_traffic \<sigma>"
    and "\<And>j. i \<le> j \<Longrightarrow> getSessById (sessions (net (\<sigma> j))) k = Some a"
  shows "\<exists>j \<ge> i. prefix (calls_of a (\<sigma> i) @ callbacksQueue (queue_at a (net (\<sigma> i)))) (calls_of a (\<sigma> j))"
proof -
  note ok = infinite_run_ok [OF assms(1,2)] and idle = tick_reaches_idle [OF assms(1-4)]
  obtain j0 where j0: "i \<le> j0" "pc (\<sigma> j0) = Tick_Idle" using idle by blast
  obtain d where "tick_step env (\<sigma> (j0 + d)) (\<sigma> (Suc (j0 + d)))"
    using assms(3) unfolding main_thread_fair_def by (metis le_iff_add)
  then obtain j1 where j1: "j0 \<le> j1" "pc (\<sigma> j1) = Tick_Idle" "tick_step env (\<sigma> j1) (\<sigma> (Suc j1))"
    using idle_begins [OF assms(1) j0(2)] by blast
  have busy: "pc (\<sigma> (Suc j1)) \<noteq> Tick_Idle" using begin_not_idle j1(2,3) by blast
  obtain e where e: "Suc j1 \<le> e" "pc (\<sigma> e) = Tick_Idle" using idle by blast
  then obtain j2 where j2: "Suc j1 \<le> j2" "(busy_step env)\<^sup>*\<^sup>* (\<sigma> (Suc j1)) (\<sigma> j2)" "pc (\<sigma> j2) = Tick_Visit []"
    using busy_until_end [OF assms(1) busy, of "e - Suc j1"] by auto
  have "served (\<sigma> j1) (\<sigma> j2)"
    using served_run [OF j2(2) served_begin [OF j1(2) ok assms(2) j1(3)] ok assms(2)] by simp
  moreover have i1: "i \<le> j1" using j0(1) j1(1) by simp
  note r = registered_served [OF assms(5) [OF i1] ok] and ri = registered_served [OF assms(5) [OF order.refl] ok]
  ultimately have "prefix (hist a (\<sigma> j1)) (calls_of a (\<sigma> j2))"
    using r(1) j2(3) by (simp add: served_def held_def)
  moreover have "prefix (hist a (\<sigma> i)) (hist a (\<sigma> j1))"
    using infinite_run_fifo [OF assms(1,2) i1] r(2) ri(3) by (simp add: fifo_def)
  ultimately have "prefix (hist a (\<sigma> i)) (calls_of a (\<sigma> j2))" by (metis prefix_order.trans)
  moreover have "i \<le> j2" using i1 j2(1) by simp
  ultimately show ?thesis by (intro exI [of _ j2]) (simp add: hist_def)
qed

theorem waiting_callbacks_started_witness:
  "\<exists>\<sigma> j. infinite_run example_env \<sigma> \<and> callbacksQueue (queue_at 0 (net (\<sigma> 0))) = [ping_call 0]
     \<and> prefix [ping_call 0] (calls_of 0 (\<sigma> j))"
proof -
  obtain s where s: "inter_reachable example_env s" "pc s = Tick_Idle" "calls s = []"
    "sessions (net s) = [(''s'', Some 0)]" "callbacksQueue (queue_at 0 (net s)) = [ping_call 0]"
    "length (heap (net s)) = 1" by (rule inter_one_tick)
  have "pings_only s" using s(2,5,6) by (auto simp: pings_only_def has_queue_def ping_call_def)
  with s(1) permutes_example obtain \<sigma> where
    \<sigma>: "\<sigma> 0 = s" "\<forall>i. tick_step example_env (\<sigma> i) (\<sigma> (Suc i))" by (rule main_thread_runs)
  have r: "inter_reachable example_env (\<sigma> 0)" using s(1) \<sigma>(1) by simp
  note run = main_thread_alone [OF r permutes_example \<sigma>(2) [rule_format]]
  have "getSessById (sessions (net (\<sigma> j))) ''s'' = Some 0" for j by (simp add: run(4) \<sigma>(1) s(4) getSessById_def)
  from waiting_callbacks_started [OF run(1) permutes_example run(2,3) this, of 0]
  obtain j where "prefix (calls_of 0 s @ [ping_call 0]) (calls_of 0 (\<sigma> j))" by (auto simp: \<sigma>(1) s(5))
  then show ?thesis using run(1) s(3,5) \<sigma>(1) by (intro exI [of _ \<sigma>] exI [of _ j]) (simp add: calls_of_def)
qed

end
