(* ===== verification/Server_Log.thy ===== *)
theory Server_Log
  imports Server_Prelude
begin

text \<open>
  \<open>log/Logger\<close>: the singleton that registers two sinks in the core of Boost.Log, one for the system
  log and one for the standard log stream, with their filters and line formats, and unregisters
  them when the process ends.

  The core, the severities and the formatting of dates are those of Boost.Log and are parameters
  (record \<open>boost_log\<close>). What the logger relies on is the documented behaviour of the core: it keeps a
  list of sinks, to which a sink that is not registered is added and one that is registered is not,
  and from which a sink can be removed (\<open>core_laws\<close>); a record goes to each sink of the list whose
  filter accepts it, and to the default sink of the library while the list is empty (\<open>log_output\<close>).
  The translation of severities into those of the system log is not modelled. \<open>Logger::log\<close> is
  declared but not defined anywhere, and \<open>severityLogger\<close> is never used.
\<close>

section \<open>The library\<close>

datatype sink = Outputstream | Logfile

record ('core, 's, 't) boost_log =
  add_sink :: "sink \<Rightarrow> 'core \<Rightarrow> 'core"
  remove_sink :: "sink \<Rightarrow> 'core \<Rightarrow> 'core"
  registered :: "'core \<Rightarrow> sink list"
  severity_name :: "'s \<Rightarrow> string"
  severity_rank :: "'s \<Rightarrow> nat"
  info_level :: 's
  format_date_time :: "string \<Rightarrow> 't \<Rightarrow> string"

definition core_laws :: "('core, 's, 't) boost_log \<Rightarrow> bool" where
  "core_laws lib \<longleftrightarrow>
     (\<forall>k c. registered lib (add_sink lib k c) =
        (if k \<in> set (registered lib c) then registered lib c else registered lib c @ [k]))
   \<and> (\<forall>k c. registered lib (remove_sink lib k c) = remove1 k (registered lib c))"

text \<open>A log record with the attributes that \<open>add_common_attributes\<close> supplies.\<close>

record ('s, 't) log_record =
  LineID :: u32
  TimeStamp :: 't
  severity :: 's
  smessage :: string

section \<open>The logger\<close>

text \<open>The stream manipulators \<open>std::setw(n) << std::setfill(c)\<close> before an item: padding on the left.\<close>

definition setw :: "nat \<Rightarrow> char \<Rightarrow> string \<Rightarrow> string" where
  "setw n c item = replicate (n - length item) c @ item"

definition logfile_format :: "('core, 's, 't) boost_log \<Rightarrow> ('s, 't) log_record \<Rightarrow> string" where
  "logfile_format lib r =
     ''['' @ setw 5 (CHR ''0'') (nat_to_string (unat (LineID r))) @ ''|''
     @ format_date_time lib ''%Y-%m-%d %H:%M:%S'' (TimeStamp r) @ ''|''
     @ setw 7 (CHR '' '') (severity_name lib (severity r)) @ ''] : '' @ smessage r"

definition outputstream_filter :: "('core, 's, 't) boost_log \<Rightarrow> ('s, 't) log_record \<Rightarrow> bool" where
  "outputstream_filter lib r \<longleftrightarrow> severity_rank lib (severity r) \<ge> severity_rank lib (info_level lib)"

definition outputstream_format :: "('core, 's, 't) boost_log \<Rightarrow> ('s, 't) log_record \<Rightarrow> string" where
  "outputstream_format lib r =
     ''['' @ setw 7 (CHR '' '') (severity_name lib (severity r)) @ ''] : '' @ smessage r"

text \<open>The constructor registers the sink for the system log twice.\<close>

definition Logger :: "('core, 's, 't) boost_log \<Rightarrow> 'core \<Rightarrow> 'core" where
  "Logger lib core =
     (let c1 = add_sink lib Logfile core;
          c2 = add_sink lib Logfile c1 in
      add_sink lib Outputstream c2)"

definition destroy_Logger :: "('core, 's, 't) boost_log \<Rightarrow> 'core \<Rightarrow> 'core" where
  "destroy_Logger lib core = remove_sink lib Logfile (remove_sink lib Outputstream core)"

text \<open>\<open>Logger::instance\<close> constructs the function-local static object at its first call.\<close>

record 'core log_state =
  log_core :: 'core
  constructed :: bool

definition instance_Logger :: "('core, 's, 't) boost_log \<Rightarrow> 'core log_state \<Rightarrow> 'core log_state" where
  "instance_Logger lib st =
     (if constructed st then st
      else \<lparr>log_core = Logger lib (log_core st), constructed = True\<rparr>)"

text \<open>
  What the sinks write for a record; \<open>default_line\<close> is the line of the default sink, which is written
  to no sink of the logger.
\<close>

fun sink_output :: "('core, 's, 't) boost_log \<Rightarrow> ('s, 't) log_record \<Rightarrow> sink \<Rightarrow> (sink option \<times> string) list" where
  "sink_output lib r Logfile = [(Some Logfile, logfile_format lib r)]"
| "sink_output lib r Outputstream =
     (if outputstream_filter lib r then [(Some Outputstream, outputstream_format lib r)] else [])"

definition log_output ::
    "('core, 's, 't) boost_log \<Rightarrow> (('s, 't) log_record \<Rightarrow> string) \<Rightarrow> 'core \<Rightarrow> ('s, 't) log_record \<Rightarrow>
     (sink option \<times> string) list" where
  "log_output lib default_line core r =
     (if registered lib core = [] then [(None, default_line r)]
      else concat (map (sink_output lib r) (registered lib core)))"

section \<open>Lemmas\<close>

lemma length_setw: "length item \<le> n \<Longrightarrow> length (setw n c item) = n"
  by (simp add: setw_def)

lemma length_nat_to_string_digits: "n < 10 ^ Suc k \<Longrightarrow> length (nat_to_string n) \<le> Suc k"
proof (induction k arbitrary: n)
  case 0
  then show ?case by (subst nat_to_string.simps) simp
next
  case (Suc k)
  then have "n div 10 < 10 ^ Suc k" by (simp add: less_mult_imp_div_less mult.commute)
  with Suc.IH show ?case by (subst nat_to_string.simps) simp
qed

lemma string_to_nat_setw: "string_to_nat (setw n (CHR ''0'') item) = string_to_nat item"
proof -
  have zeros: "foldl (\<lambda>acc c. 10 * acc + char_digit c) 0 (replicate k (CHR ''0'')) = 0" for k
    by (induction k) (simp_all add: char_digit_def)
  show ?thesis by (simp add: string_to_nat_def setw_def zeros)
qed

lemma registered_Logger:
  assumes "core_laws lib" and "registered lib core = []"
  shows "registered lib (Logger lib core) = [Logfile, Outputstream]"
    "registered lib (destroy_Logger lib (Logger lib core)) = []"
  using assms by (simp_all add: core_laws_def Logger_def destroy_Logger_def Let_def)

lemma instance_again:
  "(instance_Logger lib ^^ Suc n) st = instance_Logger lib st"
  by (induction n) (simp_all add: instance_Logger_def)

section \<open>Properties\<close>

text \<open>
  C40: the life of the logger. Once \<open>instance\<close> was called, and however often, a record gives one line
  of the system log, although the constructor registers that sink twice, with the number of the
  record, its date and its severity; and one line of the log stream, with the severity, exactly if the
  severity is at least info. Before the first call and after the destructor neither of the logger's
  sinks writes: the record goes to the default sink of the library.
\<close>

theorem logger_lifecycle:
  assumes "core_laws lib" and "\<not> constructed st" and "registered lib (log_core st) = []"
    and "st' = (instance_Logger lib ^^ Suc n) st"
  shows "log_output lib default_line (log_core st') r =
      (Some Logfile, ''['' @ setw 5 (CHR ''0'') (nat_to_string (unat (LineID r))) @ ''|''
         @ format_date_time lib ''%Y-%m-%d %H:%M:%S'' (TimeStamp r) @ ''|''
         @ setw 7 (CHR '' '') (severity_name lib (severity r)) @ ''] : '' @ smessage r)
      # (if severity_rank lib (info_level lib) \<le> severity_rank lib (severity r)
         then [(Some Outputstream,
                ''['' @ setw 7 (CHR '' '') (severity_name lib (severity r)) @ ''] : '' @ smessage r)]
         else [])
    \<and> log_output lib default_line (log_core st) r = [(None, default_line r)]
    \<and> log_output lib default_line (destroy_Logger lib (log_core st')) r = [(None, default_line r)]"
proof -
  have "log_core st' = Logger lib (log_core st)"
    using assms(2,4) by (simp add: instance_again instance_Logger_def del: funpow.simps)
  then show ?thesis
    using registered_Logger [OF assms(1,3)] assms(3)
    by (simp add: log_output_def logfile_format_def outputstream_filter_def outputstream_format_def)
qed

definition example_log :: "(sink list, nat, nat) boost_log" where
  "example_log = \<lparr>add_sink = (\<lambda>k c. if k \<in> set c then c else c @ [k]), remove_sink = remove1, registered = id,
     severity_name = (\<lambda>n. [''trace'', ''debug'', ''info'', ''warning'', ''error'', ''fatal''] ! min n 5),
     severity_rank = id, info_level = 2, format_date_time = (\<lambda>_ _. ''2020-02-29 12:00:00'')\<rparr>"

lemma example_log_laws: "core_laws example_log"
  by (simp add: core_laws_def example_log_def)

theorem logger_lifecycle_witness:
  "let st = \<lparr>log_core = [], constructed = False\<rparr>; st' = (instance_Logger example_log ^^ Suc 2) st;
       rec = (\<lambda>s. \<lparr>LineID = 7, TimeStamp = 0, severity = s, smessage = ''hi''\<rparr>) in
   log_output example_log smessage (log_core st') (rec 1) =
     [(Some Logfile, ''[00007|2020-02-29 12:00:00|  debug] : hi'')]
   \<and> map fst (log_output example_log smessage (log_core st') (rec 3)) = [Some Logfile, Some Outputstream]
   \<and> log_output example_log smessage (destroy_Logger example_log (log_core st')) (rec 1) = [(None, ''hi'')]"
proof -
  let ?st = "\<lparr>log_core = [], constructed = False\<rparr> :: sink list log_state"
  have st: "\<not> constructed ?st" "registered example_log (log_core ?st) = []" by (simp_all add: example_log_def)
  have id: "setw 5 (CHR ''0'') (nat_to_string (unat (7 :: u32))) = ''00007''" by code_simp
  have sev: "setw 7 (CHR '' '') (severity_name example_log 1) = ''  debug''" by code_simp
  show ?thesis
    unfolding Let_def logger_lifecycle [OF example_log_laws st refl, THEN conjunct1]
      logger_lifecycle [OF example_log_laws st refl, THEN conjunct2, THEN conjunct2]
    by (simp add: id [simplified] sev [simplified]) (simp add: example_log_def)
qed

text \<open>
  The lines of the system log have fixed columns. For the first 99999 records, severities whose
  names have at most seven characters and dates that format to 19 characters, the message of a line
  starts at position 38, so it can be read back from the line, and so can the number of the line.
\<close>

theorem log_line_columns:
  assumes "unat (LineID r) < 100000" and "length (severity_name lib (severity r)) \<le> 7"
    and "length (format_date_time lib ''%Y-%m-%d %H:%M:%S'' (TimeStamp r)) = 19"
  shows "drop 38 (logfile_format lib r) = smessage r
    \<and> string_to_nat (take 5 (drop 1 (logfile_format lib r))) = unat (LineID r)"
proof -
  let ?id = "setw 5 (CHR ''0'') (nat_to_string (unat (LineID r)))"
  let ?date = "format_date_time lib ''%Y-%m-%d %H:%M:%S'' (TimeStamp r)"
  let ?sev = "setw 7 (CHR '' '') (severity_name lib (severity r))"
  have id: "length ?id = 5"
    using length_nat_to_string_digits [of "unat (LineID r)" 4] assms(1) by (intro length_setw) simp
  have "length (''['' @ ?id @ ''|'' @ ?date @ ''|'' @ ?sev @ ''] : '') = 38"
    using id length_setw [OF assms(2)] assms(3) by simp
  then have "drop 38 ((''['' @ ?id @ ''|'' @ ?date @ ''|'' @ ?sev @ ''] : '') @ smessage r) = smessage r"
    by (metis append_eq_conv_conj)
  moreover have "take 5 (drop 1 (logfile_format lib r)) = ?id" using id by (simp add: logfile_format_def)
  ultimately show ?thesis by (simp add: logfile_format_def string_to_nat_setw)
qed

theorem log_line_columns_witness:
  "drop 38 (logfile_format example_log \<lparr>LineID = 7, TimeStamp = 0, severity = 2, smessage = ''hi''\<rparr>) = ''hi''"
  using log_line_columns [of "\<lparr>LineID = 7, TimeStamp = 0, severity = 2, smessage = ''hi''\<rparr>" example_log]
  by (simp add: example_log_def)

end
