(* ===== verification/Spec2Isabelle.thy ===== *)
theory Spec2Isabelle
  imports Server_Prelude Network_Operation Csv_Table String_Utils Dispatch_Queue Session_Registry
    Net_State Ws_Session Ws_Timer Send_Race Ws_Listener Csv_Analysis Ws_Server Server_Protocol Programs
    Server_Invariant Server_System System_Properties
    Session_Ids Interleaved_Tick Eventual_Service Server_Log
begin

text \<open>
  A verification of the server and the client of \<open>boost_server_example\<close>: a C++ program that accepts
  WebSocket connections, answers pings and analyses uploaded tables of comma-separated values.

  \<^bold>\<open>The program.\<close> A peer connects to the listener (\<open>net/websockets/WsListener\<close>), which creates a session
  (\<open>net/websockets/WsSession\<close>) and puts it into the table of sessions (\<open>net/SessionManagerBase\<close>). The
  session reads messages on an I/O thread. The first byte of a message is its operation code
  (\<open>algo/NetworkOperation\<close>); the callback registered for the code (\<open>algo/CallbackManager\<close>,
  \<open>WSInputCallbacks\<close>) is bound to the session and the message and put into the session's queue
  (\<open>algo/DispatchQueue\<close>). The main thread ticks (\<open>algo/TickManager\<close>): it visits all sessions and runs
  their queued callbacks (\<open>net/websockets/WsServer\<close>), which may send answers; a session sends one
  message at a time and keeps the others in its send queue. A timer pings silent peers and evicts dead
  ones. The callback for uploads parses the table (\<open>algo/CSV\<close>) and its dates (\<open>algo/StringUtils\<close>). The
  client (\<open>client/main.cpp\<close>) uses the same classes to upload one file.

  \<^bold>\<open>The theories.\<close>

  \<^item> \<open>Server_Prelude\<close>: failures, the result type, strings, splitting of lists; shared lemmas.
  \<^item> \<open>Network_Operation\<close>: operation codes as 32-bit words and the callback table; its laws are the locale
    \<open>callback_table\<close>. Codes make the round trip through a byte; an added callback is found.
  \<^item> \<open>Csv_Table\<close>: the class \<open>CSV\<close>. The loader is equal to a reference definition by splitting
    (\<open>csv_rows\<close>); saving and loading; access with its bounds (locale \<open>cell_store\<close>); the runs that do
    not end.
  \<^item> \<open>String_Utils\<close>: trimming, and dates with the calendar arithmetic of \<open>mktime\<close> and \<open>localtime\<close>, with
    daylight saving; printing and parsing are inverse outside daylight saving and differ by it
    otherwise, and parsing is monotone.
  \<^item> \<open>Dispatch_Queue\<close>: the queue driven by its caller (locale \<open>queue_client\<close>) and by worker threads (step
    relation \<open>pool_step\<close>): every callback starts once and in order, no wake-up is lost, the destructor
    stops the pool.
  \<^item> \<open>Session_Registry\<close>: the table of sessions, locale \<open>session_table\<close>.
  \<^item> \<open>Net_State\<close>: the state of the network layer. \<open>world\<close> has the heap of sessions, the table, the callback
    table, the listener, the threads and the clock; \<open>ws_session\<close> has the members of \<open>WsSession\<close> and
    \<open>SessionBase\<close>; \<open>ops\<close> is the multiset of asynchronous operations in flight, \<open>wire\<close> the messages
    handed to the stream. \<open>SessionBase\<close> and \<open>unregisterSession\<close>.
  \<^item> \<open>Ws_Session\<close>: every member function of \<open>WsSession\<close>; the sending side refines a first-in first-out
    channel (locale \<open>outgoing_channel\<close>).
  \<^item> \<open>Ws_Timer\<close>: the keep-alive protocol in time, and \<open>waitForConnect\<close>.
  \<^item> \<open>Send_Race\<close>: \<open>send\<close> and \<open>on_write\<close> with their accesses interleaved.
  \<^item> \<open>Ws_Listener\<close>: the acceptor and the creation of sessions.
  \<^item> \<open>Csv_Analysis\<close>: the loop of \<open>csvAnalizeCallback\<close> over the rows: what it finds, and what ends it.
  \<^item> \<open>Ws_Server\<close>: the callbacks, the tick, broadcasts, \<open>NetworkManager\<close> and \<open>ServerConfig\<close>; it
    interprets \<open>queue_client\<close> on the queue of each session.
  \<^item> \<open>Server_Protocol\<close>: what a client can rely on: routing, answers, ticks, broadcasts, start-up.
  \<^item> \<open>Programs\<close>: \<open>TickManager\<close>, \<open>getFileContents\<close>, both \<open>main\<close> functions, which a failure on an I/O thread
    ends like one on the main thread.
  \<^item> \<open>Server_Invariant\<close>, \<open>Server_System\<close>, \<open>System_Properties\<close>: the invariant \<open>world_ok\<close>, handler by handler;
    the running server and client as step relations (\<open>server_step\<close>, \<open>client_step\<close>) with their reachable
    states; what holds in every reachable state and along every run (locales
    \<open>io_relation\<close> and \<open>run_relation\<close>).
  \<^item> \<open>Interleaved_Tick\<close>: the tick in steps, with the handlers of the I/O thread between any two of them;
    what is safe, in order and served under every interleaving, that every run of the steps alone ends
    as the tick as one operation does, and how one peer keeps a tick from ending.
  \<^item> \<open>Eventual_Service\<close>: infinite runs with a fair main thread; every waiting callback is started.
  \<^item> \<open>Session_Ids\<close>: the server with the generator of its session identifiers; as long as no identifier
    was drawn twice, a session that fails removes no other session.
  \<^item> \<open>Server_Log\<close>: the logger, its two sinks and their line formats.
  \<^item> This theory: an upload and its answer, through both programs.

  \<^bold>\<open>Conventions.\<close> Functions keep the names of the members they translate; where two classes share a
  name, or HOL has it, a prefix tells them apart (\<open>listener_on_accept\<close>, \<open>nm_run\<close>). An operation on an
  object takes its address first. A shared pointer is an optional address, \<open>None\<close> is null. A failure
  (\<open>Inl\<close>) is what ends the process or has no defined behaviour: a null dereference, an access out of
  bounds, an overflow of the field array, \<open>std::terminate\<close>, an exception that nothing catches, a
  failed assertion. \<open>unsigned int\<close>, the operation codes and time points have their width where the
  code can reach it. There is no fuel: loops that may not end are partial functions into \<open>option\<close>,
  \<open>None\<close> is a loop that does not end, and the theorems about them say when they do.

  \<^bold>\<open>What is assumed.\<close> Boost, the operating system and the peers are arguments: the results of the socket
  calls (\<open>acceptor_env\<close>), the error code and the data of every completion, the generator and
  the text of identifiers (\<open>uuid_lib\<close>), \<open>boost::lexical_cast\<close> and the arithmetic on \<open>double\<close>
  (\<open>float_env\<close>), the order in which the hash table is traversed (a permutation of the entries, where a theorem needs it), what the
  I/O threads do, and how they fail, while the main thread sleeps, the standard offset and the daylight
  saving of the local time zone, the core of Boost.Log with its severities and dates (\<open>boost_log\<close>, of
  which the documented behaviour \<open>core_laws\<close> is used; a record goes to the registered sinks, or to the
  library's default sink when there is none). A completion belongs to an
  operation in flight; incoming messages keep to the limit of 64 MiB that the session sets. The
  handlers and the tick are atomic steps in \<open>Server_System\<close>; in \<open>Dispatch_Queue\<close> and \<open>Interleaved_Tick\<close>
  critical sections and callbacks are, and in \<open>Send_Race\<close> single accesses.

  \<^bold>\<open>Not modelled.\<close> The log output of the single statements: nothing the programs do depends on it.
  Changes of a zone's standard offset over time, and years of two digits in a date.
  \<open>printNumOfCores\<close> and \<open>ServerConfig::print\<close>, which only log. The locations that \<open>boost::dll\<close>
  reports. The deallocation of a session, except for what its destructor
  does to the network (\<open>destroy_session\<close>): addresses are never reused. Data races other than the one
  between \<open>send\<close> and \<open>on_write\<close>. The tests and the build files.
\<close>

section \<open>The two programs together\<close>














section \<open>Properties of the composition\<close>



end
